theory Spec2Isabelle
  imports Main "HOL-Library.AList"
begin

section \<open>Data model\<close>

text \<open>
  A Go map is an association list: \<open>map_of\<close> reads a key, \<open>AList.update\<close> stores
  (in place for a key already there, at the end for a new one), \<open>AList.delete\<close>
  removes, and the order of the list stands for the order in which a \<open>range\<close> loop
  meets the entries (Go leaves that order open; the theorems hold for every list).
  A nil map and an empty map are both \<open>[]\<close>.
\<close>

text \<open>
  Modelled from the spec: the declarations of \<open>ServiceConfig\<close>, \<open>ServiceDependency\<close>,
  \<open>EnvFile\<close>, the volume, secret and config references, \<open>BuildConfig\<close> and the four
  resource definitions are in files of the package that are not part of the sources at
  hand (only \<open>project.go\<close> is). The records hold the fields that section 3 of the
  specification lists and that \<open>project.go\<close> reads. The fields of a service carry the
  prefix \<open>s\<close>, since \<open>Project\<close> has fields of the same names.
\<close>

record ServiceDependency =
  Condition :: string
  Required :: bool

record EnvFile =
  Path :: string
  envRequired :: bool

record ServiceVolumeConfig =
  volType :: string
  volSource :: string

record FileReference =
  refSource :: string

record BuildConfig =
  buildSecrets :: "FileReference list"

record ServiceConfig =
  sName :: string
  sProfiles :: "string list"
  DependsOn :: "(string \<times> ServiceDependency) list"
  sNetworks :: "(string \<times> unit) list"
  sVolumes :: "ServiceVolumeConfig list"
  sSecrets :: "FileReference list"
  Build :: "BuildConfig option"
  sConfigs :: "FileReference list"
  sImage :: string
  sEnvironment :: "(string \<times> string option) list"
  EnvFiles :: "EnvFile list"

datatype NetworkConfig = NetworkConfig string
datatype VolumeConfig = VolumeConfig string
datatype SecretConfig = SecretConfig string
datatype ConfigObjConfig = ConfigObjConfig string

type_synonym Services = "(string \<times> ServiceConfig) list"

record Project =
  Name :: string
  WorkingDir :: string
  Services :: Services
  Networks :: "(string \<times> NetworkConfig) list"
  Volumes :: "(string \<times> VolumeConfig) list"
  Secrets :: "(string \<times> SecretConfig) list"
  Configs :: "(string \<times> ConfigObjConfig) list"
  ComposeFiles :: "string list"
  Environment :: "(string \<times> string) list"
  DisabledServices :: Services
  Profiles :: "string list"

text \<open>
  Failures as values. \<open>IndexOutOfRange\<close> is the run-time panic of an index expression,
  \<open>Foreign\<close> an error that a callback or a library outside the package returned.
\<close>

datatype error =
    NoSuchService string
  | EnvFileNotFound string
  | FailedToLoad string
  | FailedToRead string
  | IndexOutOfRange
  | Foreign string

text \<open>The key set of a Go map.\<close>

definition keys :: "('k \<times> 'v) list \<Rightarrow> 'k set" where
  "keys m = fst ` set m"

text \<open>A list stands for a Go map when no key occurs twice in it.\<close>

definition gomap :: "('k \<times> 'v) list \<Rightarrow> bool" where
  "gomap m = distinct (map fst m)"

section \<open>Copies\<close>

text \<open>
  \<open>deepCopy\<close> (project.go 611-617) hands the project to \<open>copystructure.Copy\<close>. On
  values a deep copy is the same value again; what the copy shares with the original is
  the subject of the store model further down.
\<close>

definition deepCopy :: "Project \<Rightarrow> Project" where
  "deepCopy p = p"

text \<open>
  Modelled from the spec: \<open>ServiceConfig.deepCopy\<close> is declared in a file that is not
  among the sources. Section 4.1 calls its result an independent deep copy of the
  service; on values that is the same service.
\<close>

definition ServiceConfig_deepCopy :: "ServiceConfig \<Rightarrow> ServiceConfig" where
  "ServiceConfig_deepCopy s = s"

section \<open>Path resolution\<close>

text \<open>
  \<open>RelativePath\<close> (project.go 270-279). The home directory (\<open>os.UserHomeDir\<close>, its
  error dropped), \<open>filepath.Join\<close> and \<open>filepath.IsAbs\<close> belong to the Go library
  and are parameters. \<open>path[0]\<close> on the empty string panics.
\<close>

definition RelativePath ::
  "string \<Rightarrow> (string \<Rightarrow> string \<Rightarrow> string) \<Rightarrow> (string \<Rightarrow> bool) \<Rightarrow> Project \<Rightarrow> string \<Rightarrow> error + string" where
  "RelativePath home Join IsAbs p path =
     (case path of
        [] \<Rightarrow> Inl IndexOutOfRange
      | c # rest \<Rightarrow>
          (let path' = (if c = CHR ''~'' then Join home rest else path)
           in if IsAbs path' then Inr path' else Inr (Join (WorkingDir p) path')))"

section \<open>Profiles\<close>

text \<open>\<open>AllServices\<close> (project.go 178-187): the enabled services, then the disabled ones.\<close>

definition AllServices :: "Project \<Rightarrow> Services" where
  "AllServices p =
     fold (\<lambda>(name, service) all. AList.update name service all) (DisabledServices p)
       (fold (\<lambda>(name, service) all. AList.update name service all) (Services p) [])"

text \<open>\<open>HasProfile\<close> (project.go 282-294).\<close>

definition HasProfile :: "ServiceConfig \<Rightarrow> string list \<Rightarrow> bool" where
  "HasProfile s profiles =
     (if length (sProfiles s) = 0 then True
      else list_ex (\<lambda>p. list_ex (\<lambda>sp. sp = p) (sProfiles s)) profiles)"

text \<open>\<open>WithProfiles\<close> (project.go 298-318).\<close>

definition WithProfiles :: "Project \<Rightarrow> string list \<Rightarrow> error + Project" where
  "WithProfiles p profiles =
     (let newProject = deepCopy p in
      if list_ex (\<lambda>q. q = ''*'') profiles then Inr newProject
      else
        let (enabled, disabled) =
              fold (\<lambda>(name, service) (enabled, disabled).
                      if HasProfile service profiles
                      then (AList.update name service enabled, disabled)
                      else (enabled, AList.update name service disabled))
                (AllServices newProject) ([], [])
        in Inr (newProject\<lparr>Services := enabled, DisabledServices := disabled,
                             Profiles := profiles\<rparr>))"

section \<open>The dependency walk\<close>


text \<open>\<open>getServicesByNames\<close> (project.go 139-154).\<close>

definition getServicesByNames :: "Project \<Rightarrow> string list \<Rightarrow> Services \<times> string list" where
  "getServicesByNames p names =
     (if length names = 0 then (Services p, [])
      else fold (\<lambda>name (services, servicesNotFound).
                   case map_of (Services p) name of
                     None \<Rightarrow> (services, servicesNotFound @ [name])
                   | Some service \<Rightarrow> (AList.update name service services, servicesNotFound))
             names ([], []))"

text \<open>
  The dependency policy (project.go 200-208, 410-422). The three constants are an
  \<open>iota\<close> enumeration; the three exported option functions each store one of them.
\<close>

datatype policy = includeDependencies | includeDependents | ignoreDependencies

record withServicesOptions =
  dependencyPolicy :: policy

datatype DependencyOption = IncludeDependencies | IncludeDependents | IgnoreDependencies

fun applyOption :: "DependencyOption \<Rightarrow> withServicesOptions \<Rightarrow> withServicesOptions" where
  "applyOption IncludeDependencies options = options\<lparr>dependencyPolicy := includeDependencies\<rparr>"
| "applyOption IncludeDependents options = options\<lparr>dependencyPolicy := includeDependents\<rparr>"
| "applyOption IgnoreDependencies options = options\<lparr>dependencyPolicy := ignoreDependencies\<rparr>"

text \<open>\<open>dependentsForService\<close> (project.go 257-267). It compares and stores the
  \<open>Name\<close> fields of the services, not the keys of the map.\<close>

definition dependentsForService :: "Project \<Rightarrow> ServiceConfig \<Rightarrow> (string \<times> ServiceDependency) list" where
  "dependentsForService p s =
     fold (\<lambda>(_, service) dependent.
             fold (\<lambda>(name, dependency) dependent.
                     if name = sName s then AList.update (sName service) dependency dependent
                     else dependent)
               (DependsOn service) dependent)
       (Services p) []"

text \<open>
  Modelled from the spec: \<open>utils.MapsAppend\<close> and \<open>utils.MapKeys\<close> are in a package
  of the repository that is not among the sources. Section 4.1 of the specification has
  the walk follow the \<open>DependsOn\<close> edges of the service (the reverse edges under
  \<open>IncludeDependents\<close>): appending a map to the local map, which is nil when the
  service is met (it is declared anew in each round of the loop, line 231), yields that
  map; appending to a map with entries adds the keys it does not have yet.
\<close>

definition MapsAppend :: "('k \<times> 'v) list \<Rightarrow> ('k \<times> 'v) list \<Rightarrow> ('k \<times> 'v) list" where
  "MapsAppend target source =
     (if target = [] then source
      else fold (\<lambda>(key, value) target.
                   if map_of target key = None then AList.update key value target else target)
             source target)"

definition MapKeys :: "('k \<times> 'v) list \<Rightarrow> 'k list" where
  "MapKeys m = map fst m"

text \<open>
  Lines 212-218 of \<open>withServices\<close>: the first name that was not found and is not an
  optional key of the caller's \<open>dependencies\<close> ends the call.
\<close>

definition notFoundError :: "string list \<Rightarrow> (string \<times> ServiceDependency) list \<Rightarrow> error option" where
  "notFoundError servicesNotFound dependencies =
     (case find (\<lambda>serviceNotFound.
                   case map_of dependencies serviceNotFound of
                     None \<Rightarrow> True
                   | Some dependency \<Rightarrow> Required dependency) servicesNotFound of
        None \<Rightarrow> None
      | Some serviceNotFound \<Rightarrow> Some (NoSuchService serviceNotFound))"

text \<open>
  Lines 219-224 and 231-239 of \<open>withServices\<close>: the options are applied in order to
  the default, and the policy picks the \<open>dependencies\<close> of the service at hand.
\<close>

definition serviceDependencies :: "Project \<Rightarrow> DependencyOption list \<Rightarrow> ServiceConfig \<Rightarrow> (string \<times> ServiceDependency) list" where
  "serviceDependencies p options service =
     (let opts = fold applyOption options \<lparr>dependencyPolicy = includeDependencies\<rparr>
      in case dependencyPolicy opts of
           includeDependents \<Rightarrow> MapsAppend [] (dependentsForService p service)
         | includeDependencies \<Rightarrow> MapsAppend [] (DependsOn service)
         | ignoreDependencies \<Rightarrow> [])"

text \<open>
  A \<open>ServiceFunc\<close> is a Go closure: what it does to the caller's variables is a state
  \<open>'st\<close> that it takes and returns, and it may fail.
\<close>

type_synonym 'st ServiceFunc = "string \<Rightarrow> ServiceConfig \<Rightarrow> 'st \<Rightarrow> error + 'st"

text \<open>The services that \<open>getServicesByNames\<close> returns are services of the project.\<close>

lemma getServicesByNames_fold_keys:
  "keys (fst (fold (\<lambda>name (services, servicesNotFound).
                   case map_of (Services p) name of
                     None \<Rightarrow> (services, servicesNotFound @ [name])
                   | Some service \<Rightarrow> (AList.update name service services, servicesNotFound))
             names (acc, nf))) \<subseteq> keys acc \<union> keys (Services p)"
proof (induction names arbitrary: acc nf)
  case Nil then show ?case by simp
next
  case (Cons n ns)
  show ?case
  proof (cases "map_of (Services p) n")
    case None
    then show ?thesis using Cons.IH[of acc "nf @ [n]"] by simp
  next
    case (Some s)
    then have "n \<in> keys (Services p)"
      by (metis keys_def map_of_eq_None_iff option.distinct(1))
    then show ?thesis using Cons.IH[of "AList.update n s acc" nf] Some
      by (auto simp: keys_def dom_update)
  qed
qed

lemma getServicesByNames_keys:
  "keys (fst (getServicesByNames p names)) \<subseteq> keys (Services p)"
  using getServicesByNames_fold_keys[of p names "[]" "[]"]
  by (auto simp: getServicesByNames_def keys_def)

text \<open>
  \<open>withServices\<close> (project.go 210-251). \<open>withServices_range\<close> is its loop over
  \<open>services\<close> (lines 226-249); \<open>seen\<close> is the map shared by the whole call tree,
  so it is passed on and returned.
\<close>

function (sequential)
  withServices :: "Project \<Rightarrow> string list \<Rightarrow> 'st ServiceFunc \<Rightarrow> string set \<Rightarrow> DependencyOption list \<Rightarrow>
                   (string \<times> ServiceDependency) list \<Rightarrow> 'st \<Rightarrow> error + (string set \<times> 'st)"
and
  withServices_range :: "Project \<Rightarrow> Services \<Rightarrow> 'st ServiceFunc \<Rightarrow> string set \<Rightarrow> DependencyOption list \<Rightarrow>
                   'st \<Rightarrow> error + (string set \<times> 'st)"
where
  "withServices p names fn seen options dependencies st =
     (case getServicesByNames p names of
        (services, servicesNotFound) \<Rightarrow>
          (case notFoundError servicesNotFound dependencies of
             Some err \<Rightarrow> Inl err
           | None \<Rightarrow> withServices_range p services fn seen options st))"
| "withServices_range p [] fn seen options st = Inr (seen, st)"
| "withServices_range p ((name, service) # rest) fn seen options st =
     (if name \<in> seen then withServices_range p rest fn seen options st
      else
        (let seen1 = insert name seen;
             dependencies = serviceDependencies p options service
         in case (if length dependencies > 0
                  then withServices p (MapKeys dependencies) fn seen1 options dependencies st
                  else Inr (seen1, st)) of
              Inl err \<Rightarrow> Inl err
            | Inr (seen2, st2) \<Rightarrow>
                (case fn name (ServiceConfig_deepCopy service) st2 of
                   Inl err \<Rightarrow> Inl err
                 | Inr st3 \<Rightarrow> withServices_range p rest fn seen2 options st3)))"
  by pat_completeness auto

text \<open>
  Termination: every service is marked in \<open>seen\<close> before its dependencies are walked,
  and \<open>seen\<close> never shrinks, so the number of unmarked services of the project
  decreases along the recursion.
\<close>

lemma withServices_seen_mono_partial:
  "withServices_withServices_range_dom (Inl (p, names, fn, seen, options, dependencies, st)) \<Longrightarrow>
     withServices p names fn seen options dependencies st = Inr (seen', st') \<Longrightarrow> seen \<subseteq> seen'"
  "withServices_withServices_range_dom (Inr (p, services, fn, seen, options, st)) \<Longrightarrow>
     withServices_range p services fn seen options st = Inr (seen', st') \<Longrightarrow> seen \<subseteq> seen'"
proof (induction p names fn seen options dependencies st and p services fn seen options st
       arbitrary: seen' st' and seen' st'
       rule: withServices_withServices_range.pinduct)
  case (1 p names fn seen options dependencies st)
  then show ?case
    by (auto simp: withServices.psimps split: prod.splits option.splits)
next
  case (2 p fn seen options st)
  then show ?case by (simp add: withServices_range.psimps)
next
  case (3 p name service rest fn seen options st)
  show ?case
  proof (cases "name \<in> seen")
    case True
    then show ?thesis using 3 by (simp add: withServices_range.psimps)
  next
    case False
    let ?deps = "serviceDependencies p options service"
    let ?r = "if length ?deps > 0
              then withServices p (MapKeys ?deps) fn (insert name seen) options ?deps st
              else Inr (insert name seen, st)"
    from "3.prems" False "3.hyps" obtain seen2 st2 st3 where
      r: "?r = Inr (seen2, st2)" and
      f: "fn name (ServiceConfig_deepCopy service) st2 = Inr st3" and
      l: "withServices_range p rest fn seen2 options st3 = Inr (seen', st')"
      by (auto simp: withServices_range.psimps Let_def split: sum.splits prod.splits if_splits)
    have a: "insert name seen \<subseteq> seen2"
    proof (cases "length ?deps > 0")
      case True
      then show ?thesis using r "3.IH"(2)[OF False refl refl True] by simp
    next
      case False
      then show ?thesis using r by simp
    qed
    have "seen2 \<subseteq> seen'"
      using "3.IH"(3)[OF False refl refl r refl f l] .
    then show ?thesis using a by auto
  qed
qed

lemma card_diff_le:
  "finite B \<Longrightarrow> A - S' \<subseteq> B - S \<Longrightarrow> card (A - S') \<le> card (B - S)"
  by (simp add: card_mono)

termination withServices
proof (relation "inv_image (less_than <*lex*> less_than)
    (\<lambda>x. case x of
        Inl (p, names, fn, seen, options, dependencies, st) \<Rightarrow>
          (card (keys (Services p) - seen), Suc (length (fst (getServicesByNames p names))))
      | Inr (p, services, fn, seen, options, st) \<Rightarrow>
          (card ((keys (Services p) \<union> keys services) - seen), length services))", goal_cases)
  case 1
  show ?case by (intro wf_inv_image wf_lex_prod wf_less_than)
next
  case (2 p names fn seen options dependencies st x y)
  then have "keys x \<subseteq> keys (Services p)"
    using getServicesByNames_keys[of p names] by (metis fst_conv)
  then have "keys (Services p) \<union> keys x = keys (Services p)" by auto
  moreover have "fst (getServicesByNames p names) = x" using 2 by (metis fst_conv)
  ultimately show ?case by simp
next
  case (3 p name service rest fn seen options st)
  have "card ((keys (Services p) \<union> keys rest) - seen)
          \<le> card ((keys (Services p) \<union> keys ((name, service) # rest)) - seen)"
    by (rule card_diff_le) (auto simp: keys_def)
  then show ?case by auto
next
  case (4 p name service rest fn seen options st x xa)
  have fin: "finite ((keys (Services p) \<union> keys ((name, service) # rest)) - seen)"
    by (simp add: keys_def)
  have "keys (Services p) - x \<subset> (keys (Services p) \<union> keys ((name, service) # rest)) - seen"
    using 4 by (auto simp: keys_def)
  then have "card (keys (Services p) - x) < card ((keys (Services p) \<union> keys ((name, service) # rest)) - seen)"
    using fin by (simp add: psubset_card_mono)
  then show ?case by simp
next
  case (5 p name service rest fn seen options st x xa b xb y ba)
  have sub: "insert name seen \<subseteq> xb"
  proof (cases "0 < length xa")
    case True
    then show ?thesis
      using 5 withServices_seen_mono_partial(1)[of p "MapKeys xa" fn x options xa st xb y]
      by simp
  next
    case False
    then show ?thesis using 5 by auto
  qed
  have "card ((keys (Services p) \<union> keys rest) - xb)
          \<le> card ((keys (Services p) \<union> keys ((name, service) # rest)) - seen)"
    using sub by (intro card_diff_le) (auto simp: keys_def)
  then show ?case by auto
qed

declare withServices.simps [simp del]


text \<open>
  \<open>ForEachService\<close> (project.go 192-198). The Go function returns the error only; the
  model returns the visitor's final state when there is none.
\<close>

definition ForEachService ::
  "Project \<Rightarrow> string list \<Rightarrow> 'st ServiceFunc \<Rightarrow> DependencyOption list \<Rightarrow> 'st \<Rightarrow> error + 'st" where
  "ForEachService p names fn options st =
     (let options = (if length options = 0 then [IncludeDependencies] else options)
      in case withServices p names fn {} options [] st of
           Inl err \<Rightarrow> Inl err
         | Inr (seen, st') \<Rightarrow> Inr st')"

section \<open>Selection\<close>

text \<open>
  \<open>WithServicesDisabled\<close> (project.go 465-487). \<open>stripDependency\<close> is the inner loop
  (lines 475-480): it ranges over the services and stores back every service from whose
  \<open>DependsOn\<close> it deleted the name.
\<close>

definition stripDependency :: "string \<Rightarrow> Services \<Rightarrow> Services" where
  "stripDependency name services =
     fold (\<lambda>(i, s) services.
             if map_of (DependsOn s) name \<noteq> None
             then AList.update i (s\<lparr>DependsOn := AList.delete name (DependsOn s)\<rparr>) services
             else services)
       services services"

definition disableService :: "string \<Rightarrow> Project \<Rightarrow> Project" where
  "disableService name newProject =
     (let newProject = newProject\<lparr>Services := stripDependency name (Services newProject)\<rparr>
      in case map_of (Services newProject) name of
           Some service \<Rightarrow>
             newProject\<lparr>DisabledServices := AList.update name service (DisabledServices newProject),
                        Services := AList.delete name (Services newProject)\<rparr>
         | None \<Rightarrow> newProject)"

definition WithServicesDisabled :: "Project \<Rightarrow> string list \<Rightarrow> Project" where
  "WithServicesDisabled p names =
     (let newProject = deepCopy p in
      if length names = 0 then newProject
      else fold disableService names newProject)"

text \<open>
  \<open>WithSelectedServices\<close> (project.go 426-461). The visitor adds the name to the set \<open>selected\<close> (\<open>set\<close> in the source).
  \<open>pruneDependencies\<close> is the loop of lines 448-452. The loop of lines 444-458 ranges
  over the services of the first copy; \<open>newProject\<close> is replaced by a copy of itself
  each time a service is disabled, and line 459 replaces its \<open>Services\<close> by \<open>enabled\<close>.
  (The deletions of line 450 also show in the entry that the first copy holds for the
  selected service; no later step reads the \<open>DependsOn\<close> of a selected service from
  there for anything that survives line 459.)
\<close>

definition pruneDependencies :: "string set \<Rightarrow> (string \<times> ServiceDependency) list \<Rightarrow> (string \<times> ServiceDependency) list" where
  "pruneDependencies selected dependencies =
     fold (\<lambda>(d, _) dependencies. if d \<notin> selected then AList.delete d dependencies else dependencies)
       dependencies dependencies"

definition selectStep :: "string set \<Rightarrow> string \<times> ServiceConfig \<Rightarrow> Services \<times> Project \<Rightarrow> Services \<times> Project" where
  "selectStep selected = (\<lambda>(name, s) (enabled, newProject).
     if name \<in> selected
     then (AList.update name (s\<lparr>DependsOn := pruneDependencies selected (DependsOn s)\<rparr>) enabled, newProject)
     else (enabled, WithServicesDisabled newProject [name]))"

definition WithSelectedServices :: "Project \<Rightarrow> string list \<Rightarrow> DependencyOption list \<Rightarrow> error + Project" where
  "WithSelectedServices p names options =
     (let newProject = deepCopy p in
      if length names = 0 then Inr newProject
      else
        case ForEachService p names (\<lambda>name service selected. Inr (insert name selected)) options {} of
          Inl err \<Rightarrow> Inl err
        | Inr selected \<Rightarrow>
            (case fold (selectStep selected) (Services newProject) ([], newProject) of
               (enabled, newProject) \<Rightarrow> Inr (newProject\<lparr>Services := enabled\<rparr>)))"

section \<open>Environment resolution\<close>

text \<open>
  What \<open>WithServicesEnvironmentResolved\<close> asks of the operating system and of the
  \<open>dotenv\<close> package is a parameter: \<open>notExist path\<close> says that \<open>os.Stat\<close> failed with
  an error that \<open>os.IsNotExist\<close> accepts, \<open>ReadFile\<close> gives the bytes of a file or
  fails, \<open>ParseWithLookup\<close> parses them with a lookup function or fails.
\<close>

record env_io =
  notExist :: "string \<Rightarrow> bool"
  ReadFile :: "string \<Rightarrow> string option"
  ParseWithLookup :: "string \<Rightarrow> (string \<Rightarrow> string option) \<Rightarrow> (string \<times> string) list option"

text \<open>
  Modelled from the spec: the methods of \<open>Mapping\<close> and \<open>MappingWithEquals\<close> are
  declared in a file that is not among the sources. Section 4.4 of the specification:
  the project environment is looked up by key; resolving a service's environment against
  it gives a value to the keys that have none and are set in the project environment; a
  merge is last-writer-wins per key, and a key that the overriding mapping holds without
  a value stays in the result without a value; the variables of a file all have a value.
\<close>

definition Mapping_Resolve :: "(string \<times> string) list \<Rightarrow> string \<Rightarrow> string option" where
  "Mapping_Resolve m s = map_of m s"

definition MappingWithEquals_Resolve ::
  "(string \<times> string option) list \<Rightarrow> (string \<Rightarrow> string option) \<Rightarrow> (string \<times> string option) list" where
  "MappingWithEquals_Resolve m lookupFn =
     fold (\<lambda>(k, v) m.
             case v of
               None \<Rightarrow> (case lookupFn k of Some x \<Rightarrow> AList.update k (Some x) m | None \<Rightarrow> m)
             | Some _ \<Rightarrow> m)
       m m"

definition OverrideBy ::
  "(string \<times> string option) list \<Rightarrow> (string \<times> string option) list \<Rightarrow> (string \<times> string option) list" where
  "OverrideBy m other = fold (\<lambda>(k, v) m. AList.update k v m) other m"

definition ToMappingWithEquals :: "(string \<times> string) list \<Rightarrow> (string \<times> string option) list" where
  "ToMappingWithEquals m = fold (\<lambda>(k, v) mwe. AList.update k (Some v) mwe) m []"

text \<open>
  The closure \<open>resolve\<close> of lines 574-580: a variable is read from the files parsed so
  far, when it has a value there, and from the project environment otherwise.
\<close>

definition resolve :: "(string \<times> string option) list \<Rightarrow> Project \<Rightarrow> string \<Rightarrow> string option" where
  "resolve environment newProject s =
     (case map_of environment s of
        Some (Some v) \<Rightarrow> Some v
      | _ \<Rightarrow> Mapping_Resolve (Environment newProject) s)"

text \<open>The loop over the env files of one service (lines 582-599).\<close>

fun resolveEnvFiles ::
  "env_io \<Rightarrow> Project \<Rightarrow> EnvFile list \<Rightarrow> (string \<times> string option) list \<Rightarrow>
   error + (string \<times> string option) list" where
  "resolveEnvFiles io newProject [] environment = Inr environment"
| "resolveEnvFiles io newProject (envFile # rest) environment =
     (if notExist io (Path envFile)
      then (if envRequired envFile then Inl (EnvFileNotFound (Path envFile))
            else resolveEnvFiles io newProject rest environment)
      else
        (case ReadFile io (Path envFile) of
           None \<Rightarrow> Inl (FailedToLoad (Path envFile))
         | Some b \<Rightarrow>
             (case ParseWithLookup io b (resolve environment newProject) of
                None \<Rightarrow> Inl (FailedToRead (Path envFile))
              | Some fileVars \<Rightarrow>
                  resolveEnvFiles io newProject rest
                    (OverrideBy environment (ToMappingWithEquals fileVars)))))"

text \<open>The body of the loop over the services (lines 570-606) for one service.\<close>

definition resolveService :: "env_io \<Rightarrow> bool \<Rightarrow> Project \<Rightarrow> ServiceConfig \<Rightarrow> error + ServiceConfig" where
  "resolveService io discardEnvFiles newProject service =
     (let service = service\<lparr>sEnvironment :=
            MappingWithEquals_Resolve (sEnvironment service) (Mapping_Resolve (Environment newProject))\<rparr>
      in case resolveEnvFiles io newProject (EnvFiles service) [] of
           Inl err \<Rightarrow> Inl err
         | Inr environment \<Rightarrow>
             (let service = service\<lparr>sEnvironment := OverrideBy environment (sEnvironment service)\<rparr>;
                  service = (if discardEnvFiles then service\<lparr>EnvFiles := []\<rparr> else service)
              in Inr service))"

fun resolveServices :: "env_io \<Rightarrow> bool \<Rightarrow> Services \<Rightarrow> Project \<Rightarrow> error + Project" where
  "resolveServices io discardEnvFiles [] newProject = Inr newProject"
| "resolveServices io discardEnvFiles ((i, service) # rest) newProject =
     (case resolveService io discardEnvFiles newProject service of
        Inl err \<Rightarrow> Inl err
      | Inr service \<Rightarrow>
          resolveServices io discardEnvFiles rest
            (newProject\<lparr>Services := AList.update i service (Services newProject)\<rparr>))"

text \<open>\<open>WithServicesEnvironmentResolved\<close> (project.go 567-609).\<close>

definition WithServicesEnvironmentResolved :: "env_io \<Rightarrow> Project \<Rightarrow> bool \<Rightarrow> error + Project" where
  "WithServicesEnvironmentResolved io p discardEnvFiles =
     (let newProject = deepCopy p
      in resolveServices io discardEnvFiles (Services newProject) newProject)"

text \<open>
  \<open>WithServicesEnabled\<close> (project.go 322-343). Reading a missing key of
  \<open>DisabledServices\<close> gives the zero service, which has no profiles.
\<close>

definition WithServicesEnabled :: "env_io \<Rightarrow> Project \<Rightarrow> string list \<Rightarrow> error + Project" where
  "WithServicesEnabled io p names =
     (let newProject = deepCopy p in
      if length names = 0 then Inr newProject
      else
        (let profiles =
               fold (\<lambda>name profiles.
                       if map_of (Services newProject) name \<noteq> None then profiles
                       else profiles @ (case map_of (DisabledServices p) name of
                                          None \<Rightarrow> []
                                        | Some service \<Rightarrow> sProfiles service))
                 names ([] @ Profiles p)
         in case WithProfiles newProject profiles of
              Inl err \<Rightarrow> Inl err
            | Inr newProject \<Rightarrow> WithServicesEnvironmentResolved io newProject True))"

section \<open>Image digests\<close>

text \<open>
  \<open>WithImagesResolved\<close> (project.go 491-525). The \<open>reference\<close> library is a parameter:
  a parser of image references, the test for a canonical (digest-qualified) reference,
  the function that adds a digest, and the printer. The resolver is the caller's.
  Each goroutine works on one service and stores under that service's key; the model
  runs them in the order of the list, every one to its end, and keeps the first error
  in that order (\<open>eg.Wait\<close> returns the first error that was recorded). The function
  returns the copy and the error side by side (line 524).
\<close>

record ('r, 'd) reference_lib =
  ParseDockerRef :: "string \<Rightarrow> error + 'r"
  isCanonical :: "'r \<Rightarrow> bool"
  WithDigest :: "'r \<Rightarrow> 'd \<Rightarrow> error + 'r"
  refString :: "'r \<Rightarrow> string"

definition resolveImage ::
  "('r, 'd) reference_lib \<Rightarrow> ('r \<Rightarrow> error + 'd) \<Rightarrow> ServiceConfig \<Rightarrow> error + ServiceConfig" where
  "resolveImage lib resolver service =
     (case ParseDockerRef lib (sImage service) of
        Inl err \<Rightarrow> Inl err
      | Inr named \<Rightarrow>
          (if \<not> isCanonical lib named
           then (case resolver named of
                   Inl err \<Rightarrow> Inl err
                 | Inr digest \<Rightarrow>
                     (case WithDigest lib named digest of
                        Inl err \<Rightarrow> Inl err
                      | Inr named \<Rightarrow> Inr (service\<lparr>sImage := refString lib named\<rparr>)))
           else Inr (service\<lparr>sImage := refString lib named\<rparr>)))"

definition imageStep ::
  "('r, 'd) reference_lib \<Rightarrow> ('r \<Rightarrow> error + 'd) \<Rightarrow> string \<times> ServiceConfig \<Rightarrow>
   Project \<times> error option \<Rightarrow> Project \<times> error option" where
  "imageStep lib resolver = (\<lambda>(idx, service) (newProject, firstErr).
     if sImage service = [] then (newProject, firstErr)
     else
       (case resolveImage lib resolver service of
          Inl err \<Rightarrow> (newProject, (case firstErr of None \<Rightarrow> Some err | Some e \<Rightarrow> Some e))
        | Inr service \<Rightarrow>
            (newProject\<lparr>Services := AList.update idx service (Services newProject)\<rparr>, firstErr)))"

definition WithImagesResolved ::
  "('r, 'd) reference_lib \<Rightarrow> Project \<Rightarrow> ('r \<Rightarrow> error + 'd) \<Rightarrow> Project \<times> error option" where
  "WithImagesResolved lib p resolver =
     (let newProject = deepCopy p
      in fold (imageStep lib resolver) (Services newProject) (newProject, None))"

section \<open>Resource pruning\<close>

text \<open>
  Modelled from the spec: the constant \<open>VolumeTypeVolume\<close> is declared in a file that
  is not among the sources; section 4.3 of the specification calls it the generic
  named-volume kind.
\<close>

definition VolumeTypeVolume :: string where
  "VolumeTypeVolume = ''volume''"

text \<open>
  \<open>WithoutUnnecessaryResources\<close> (project.go 347-408). A \<open>map[string]struct{}\<close> is a
  list of keys with unit values. The resources are read from the receiver \<open>p\<close>.
\<close>

definition requireAll :: "string list \<Rightarrow> (string \<times> unit) list \<Rightarrow> (string \<times> unit) list" where
  "requireAll ks required = fold (\<lambda>k required. AList.update k () required) ks required"

definition pick :: "(string \<times> 'v) list \<Rightarrow> (string \<times> unit) list \<Rightarrow> (string \<times> 'v) list" where
  "pick resources required =
     fold (\<lambda>(k, _) picked.
             case map_of resources k of Some v \<Rightarrow> AList.update k v picked | None \<Rightarrow> picked)
       required []"

definition WithoutUnnecessaryResources :: "Project \<Rightarrow> Project" where
  "WithoutUnnecessaryResources p =
     (let newProject = deepCopy p in
      case fold (\<lambda>(_, s) (requiredNetworks, requiredVolumes, requiredSecrets, requiredConfigs).
                   (requireAll (map fst (sNetworks s)) requiredNetworks,
                    requireAll (map volSource
                                  (filter (\<lambda>v. \<not> (volType v \<noteq> VolumeTypeVolume \<or> volSource v = []))
                                     (sVolumes s))) requiredVolumes,
                    (let requiredSecrets = requireAll (map refSource (sSecrets s)) requiredSecrets
                     in case Build s of
                          None \<Rightarrow> requiredSecrets
                        | Some b \<Rightarrow> requireAll (map refSource (buildSecrets b)) requiredSecrets),
                    requireAll (map refSource (sConfigs s)) requiredConfigs))
             (Services newProject) ([], [], [], []) of
        (requiredNetworks, requiredVolumes, requiredSecrets, requiredConfigs) \<Rightarrow>
          newProject\<lparr>Networks := pick (Networks p) requiredNetworks,
                     Volumes := pick (Volumes p) requiredVolumes,
                     Secrets := pick (Secrets p) requiredSecrets,
                     Configs := pick (Configs p) requiredConfigs\<rparr>)"

section \<open>The store\<close>

text \<open>
  What a call shares with its receiver cannot be said on values. The store holds the
  objects that the code of \<open>project.go\<close> changes in place: \<open>Project\<close> structs (their
  fields are assigned), maps of services (entries are stored and deleted), \<open>DependsOn\<close>
  maps (entries are deleted), and the \<open>ServiceConfig\<close> structs that the walk hands to a
  visitor by pointer. A struct in the store holds its maps by reference, \<open>None\<close> being
  the nil map; the fields that the code only reads or replaces as a whole stay values.
  The field \<open>DependsOn\<close> of \<open>body\<close> and the fields \<open>Services\<close> and \<open>DisabledServices\<close>
  of \<open>header\<close> are not used: the references stand for them.
\<close>

type_synonym addr = nat

record ServiceStruct =
  body :: ServiceConfig
  dependsOnRef :: "addr option"

record ProjectStruct =
  header :: Project
  servicesRef :: "addr option"
  disabledServicesRef :: "addr option"

datatype object =
    ProjectObj ProjectStruct
  | ServicesObj "(string \<times> ServiceStruct) list"
  | DependsOnObj "(string \<times> ServiceDependency) list"
  | ServiceObj ServiceStruct

record store =
  objectAt :: "addr \<Rightarrow> object option"
  nextAddr :: addr

text \<open>
  Reading. A nil map reads as the empty map. Go has no dangling reference and no
  reference to an object of another type, so what is read at an address that does not
  hold an object of the type asked for is of no consequence; it is the zero value.
\<close>

definition zeroProject :: ProjectStruct where
  "zeroProject =
     \<lparr>header = \<lparr>Name = [], WorkingDir = [], Services = [], Networks = [], Volumes = [],
                 Secrets = [], Configs = [], ComposeFiles = [], Environment = [],
                 DisabledServices = [], Profiles = []\<rparr>,
      servicesRef = None, disabledServicesRef = None\<rparr>"

definition zeroService :: ServiceStruct where
  "zeroService =
     \<lparr>body = \<lparr>sName = [], sProfiles = [], DependsOn = [], sNetworks = [], sVolumes = [],
               sSecrets = [], Build = None, sConfigs = [], sImage = [], sEnvironment = [],
               EnvFiles = []\<rparr>,
      dependsOnRef = None\<rparr>"

definition projectOf :: "store \<Rightarrow> addr \<Rightarrow> ProjectStruct" where
  "projectOf s p = (case objectAt s p of Some (ProjectObj P) \<Rightarrow> P | _ \<Rightarrow> zeroProject)"

definition serviceOf :: "store \<Rightarrow> addr \<Rightarrow> ServiceStruct" where
  "serviceOf s a = (case objectAt s a of Some (ServiceObj c) \<Rightarrow> c | _ \<Rightarrow> zeroService)"

definition servicesOf :: "store \<Rightarrow> addr option \<Rightarrow> (string \<times> ServiceStruct) list" where
  "servicesOf s r =
     (case r of
        None \<Rightarrow> []
      | Some a \<Rightarrow> (case objectAt s a of Some (ServicesObj m) \<Rightarrow> m | _ \<Rightarrow> []))"

definition dependsOnOf :: "store \<Rightarrow> addr option \<Rightarrow> (string \<times> ServiceDependency) list" where
  "dependsOnOf s r =
     (case r of
        None \<Rightarrow> []
      | Some a \<Rightarrow> (case objectAt s a of Some (DependsOnObj m) \<Rightarrow> m | _ \<Rightarrow> []))"

text \<open>The values that the store holds: a service, a map of services, a project.\<close>

definition theService :: "store \<Rightarrow> ServiceStruct \<Rightarrow> ServiceConfig" where
  "theService s c = (body c)\<lparr>DependsOn := dependsOnOf s (dependsOnRef c)\<rparr>"

definition theServices :: "store \<Rightarrow> addr option \<Rightarrow> Services" where
  "theServices s r = map (\<lambda>(k, c). (k, theService s c)) (servicesOf s r)"

definition theProject :: "store \<Rightarrow> addr \<Rightarrow> Project" where
  "theProject s p =
     (header (projectOf s p))
       \<lparr>Services := theServices s (servicesRef (projectOf s p)),
        DisabledServices := theServices s (disabledServicesRef (projectOf s p))\<rparr>"

text \<open>Allocation stores the object at the next address; writing replaces an object.\<close>

definition alloc :: "object \<Rightarrow> store \<Rightarrow> addr \<times> store" where
  "alloc obj s =
     (nextAddr s, s\<lparr>objectAt := (objectAt s)(nextAddr s \<mapsto> obj), nextAddr := Suc (nextAddr s)\<rparr>)"

definition assign :: "addr \<Rightarrow> object \<Rightarrow> store \<Rightarrow> store" where
  "assign a obj s = s\<lparr>objectAt := (objectAt s)(a \<mapsto> obj)\<rparr>"

definition newDependsOn :: "(string \<times> ServiceDependency) list \<Rightarrow> store \<Rightarrow> addr \<times> store" where
  "newDependsOn m s = alloc (DependsOnObj m) s"

definition newServices :: "(string \<times> ServiceStruct) list \<Rightarrow> store \<Rightarrow> addr \<times> store" where
  "newServices m s = alloc (ServicesObj m) s"

definition newService :: "ServiceStruct \<Rightarrow> store \<Rightarrow> addr \<times> store" where
  "newService c s = alloc (ServiceObj c) s"

definition newProject :: "ProjectStruct \<Rightarrow> store \<Rightarrow> addr \<times> store" where
  "newProject P s = alloc (ProjectObj P) s"

text \<open>
  \<open>m[k] = v\<close> and \<open>delete(m, k)\<close> on a map of services, \<open>delete(m, k)\<close> on a
  \<open>DependsOn\<close> map (nothing happens on a nil map), and the assignment of fields of a
  project.
\<close>

definition putService :: "addr \<Rightarrow> string \<Rightarrow> ServiceStruct \<Rightarrow> store \<Rightarrow> store" where
  "putService a k v s = assign a (ServicesObj (AList.update k v (servicesOf s (Some a)))) s"

definition deleteService :: "addr \<Rightarrow> string \<Rightarrow> store \<Rightarrow> store" where
  "deleteService a k s = assign a (ServicesObj (AList.delete k (servicesOf s (Some a)))) s"

definition deleteDependsOn :: "addr option \<Rightarrow> string \<Rightarrow> store \<Rightarrow> store" where
  "deleteDependsOn r k s =
     (case r of
        None \<Rightarrow> s
      | Some a \<Rightarrow> assign a (DependsOnObj (AList.delete k (dependsOnOf s r))) s)"

definition setProject :: "addr \<Rightarrow> (ProjectStruct \<Rightarrow> ProjectStruct) \<Rightarrow> store \<Rightarrow> store" where
  "setProject p f s = assign p (ProjectObj (f (projectOf s p))) s"

section \<open>Copies in the store\<close>

text \<open>
  \<open>deepCopy\<close> (project.go 611-617) hands the project to \<open>copystructure.Copy\<close>, which
  builds a new object for every object it reaches and keeps a nil map nil: a new
  \<open>DependsOn\<close> map for every service, a new map for the enabled and for the disabled
  services, and a new \<open>Project\<close>.
\<close>

definition copyService :: "ServiceStruct \<Rightarrow> store \<Rightarrow> ServiceStruct \<times> store" where
  "copyService c s =
     (case dependsOnRef c of
        None \<Rightarrow> (c, s)
      | Some a \<Rightarrow>
          (case newDependsOn (dependsOnOf s (Some a)) s of
             (a', s) \<Rightarrow> (c\<lparr>dependsOnRef := Some a'\<rparr>, s)))"

fun copyEntries :: "(string \<times> ServiceStruct) list \<Rightarrow> store \<Rightarrow> (string \<times> ServiceStruct) list \<times> store" where
  "copyEntries [] s = ([], s)"
| "copyEntries ((k, c) # rest) s =
     (case copyService c s of
        (c', s) \<Rightarrow> (case copyEntries rest s of (rest', s) \<Rightarrow> ((k, c') # rest', s)))"

definition copyServices :: "addr option \<Rightarrow> store \<Rightarrow> addr option \<times> store" where
  "copyServices r s =
     (case r of
        None \<Rightarrow> (None, s)
      | Some a \<Rightarrow>
          (case copyEntries (servicesOf s r) s of
             (m, s) \<Rightarrow> (case newServices m s of (a', s) \<Rightarrow> (Some a', s))))"

definition deepCopy_at :: "addr \<Rightarrow> store \<Rightarrow> addr \<times> store" where
  "deepCopy_at p s =
     (case copyServices (servicesRef (projectOf s p)) s of
        (services, s1) \<Rightarrow>
          (case copyServices (disabledServicesRef (projectOf s p)) s1 of
             (disabled, s2) \<Rightarrow>
               newProject ((projectOf s p)\<lparr>servicesRef := services, disabledServicesRef := disabled\<rparr>) s2))"

text \<open>
  Modelled from the spec: \<open>ServiceConfig.deepCopy\<close> is declared in a file that is not
  among the sources. Section 4.1 calls its result an independent deep copy of the
  service: a new struct with a new \<open>DependsOn\<close> map, and the pointer to it.
\<close>

definition ServiceConfig_deepCopy_at :: "ServiceStruct \<Rightarrow> store \<Rightarrow> addr \<times> store" where
  "ServiceConfig_deepCopy_at c s = (case copyService c s of (c', s) \<Rightarrow> newService c' s)"

section \<open>The operations on the store\<close>

text \<open>
  The functions of \<open>project.go\<close> once more, this time with the receiver and the result
  as addresses and with every assignment done where the source does it. A \<open>range\<close>
  loop runs over the entries that the map has when the loop starts.
\<close>

text \<open>\<open>AllServices\<close> (project.go 178-187).\<close>

definition AllServices_at :: "addr \<Rightarrow> store \<Rightarrow> addr \<times> store" where
  "AllServices_at p s =
     (case newServices [] s of
        (all, s) \<Rightarrow>
          (let s = fold (\<lambda>(name, service) s. putService all name service s)
                     (servicesOf s (servicesRef (projectOf s p))) s;
               s = fold (\<lambda>(name, service) s. putService all name service s)
                     (servicesOf s (disabledServicesRef (projectOf s p))) s
           in (all, s)))"

text \<open>\<open>WithProfiles\<close> (project.go 298-318).\<close>

definition WithProfiles_at :: "addr \<Rightarrow> string list \<Rightarrow> store \<Rightarrow> (error + addr) \<times> store" where
  "WithProfiles_at p profiles s =
     (case deepCopy_at p s of
        (np, s) \<Rightarrow>
          if list_ex (\<lambda>q. q = ''*'') profiles then (Inr np, s)
          else
            (case newServices [] s of
               (enabled, s) \<Rightarrow>
                 (case newServices [] s of
                    (disabled, s) \<Rightarrow>
                      (case AllServices_at np s of
                         (all, s) \<Rightarrow>
                           (let s = fold (\<lambda>(name, service) s.
                                            if HasProfile (body service) profiles
                                            then putService enabled name service s
                                            else putService disabled name service s)
                                      (servicesOf s (Some all)) s;
                                s = setProject np (\<lambda>P. P\<lparr>servicesRef := Some enabled\<rparr>) s;
                                s = setProject np (\<lambda>P. P\<lparr>disabledServicesRef := Some disabled\<rparr>) s;
                                s = setProject np (\<lambda>P. P\<lparr>header := (header P)\<lparr>Profiles := profiles\<rparr>\<rparr>) s
                            in (Inr np, s))))))"

text \<open>\<open>WithServicesEnvironmentResolved\<close> (project.go 567-609).\<close>

fun resolveServices_at ::
  "env_io \<Rightarrow> bool \<Rightarrow> addr \<Rightarrow> (string \<times> ServiceStruct) list \<Rightarrow> store \<Rightarrow> (error + addr) \<times> store" where
  "resolveServices_at io discardEnvFiles np [] s = (Inr np, s)"
| "resolveServices_at io discardEnvFiles np ((i, service) # rest) s =
     (case resolveService io discardEnvFiles (header (projectOf s np)) (body service) of
        Inl err \<Rightarrow> (Inl err, s)
      | Inr b \<Rightarrow>
          resolveServices_at io discardEnvFiles np rest
            (case servicesRef (projectOf s np) of
               None \<Rightarrow> s
             | Some a \<Rightarrow> putService a i (service\<lparr>body := b\<rparr>) s))"

definition WithServicesEnvironmentResolved_at ::
  "env_io \<Rightarrow> addr \<Rightarrow> bool \<Rightarrow> store \<Rightarrow> (error + addr) \<times> store" where
  "WithServicesEnvironmentResolved_at io p discardEnvFiles s =
     (case deepCopy_at p s of
        (np, s) \<Rightarrow>
          resolveServices_at io discardEnvFiles np (servicesOf s (servicesRef (projectOf s np))) s)"

text \<open>\<open>WithServicesEnabled\<close> (project.go 322-343).\<close>

definition WithServicesEnabled_at ::
  "env_io \<Rightarrow> addr \<Rightarrow> string list \<Rightarrow> store \<Rightarrow> (error + addr) \<times> store" where
  "WithServicesEnabled_at io p names s0 =
     (case deepCopy_at p s0 of
        (np, s) \<Rightarrow>
          if length names = 0 then (Inr np, s)
          else
            (let profiles =
                   fold (\<lambda>name profiles.
                           if map_of (servicesOf s (servicesRef (projectOf s np))) name \<noteq> None then profiles
                           else profiles @
                                  (case map_of (servicesOf s (disabledServicesRef (projectOf s p))) name of
                                     None \<Rightarrow> []
                                   | Some service \<Rightarrow> sProfiles (body service)))
                     names ([] @ Profiles (header (projectOf s p)))
             in case WithProfiles_at np profiles s of
                  (Inl err, s) \<Rightarrow> (Inl err, s)
                | (Inr np, s) \<Rightarrow> WithServicesEnvironmentResolved_at io np True s))"

text \<open>\<open>WithoutUnnecessaryResources\<close> (project.go 347-408).\<close>

definition WithoutUnnecessaryResources_at :: "addr \<Rightarrow> store \<Rightarrow> addr \<times> store" where
  "WithoutUnnecessaryResources_at p s0 =
     (case deepCopy_at p s0 of
        (np, s) \<Rightarrow>
          (case fold (\<lambda>(_, c) (requiredNetworks, requiredVolumes, requiredSecrets, requiredConfigs).
                   (requireAll (map fst (sNetworks (body c))) requiredNetworks,
                    requireAll (map volSource
                                  (filter (\<lambda>v. \<not> (volType v \<noteq> VolumeTypeVolume \<or> volSource v = []))
                                     (sVolumes (body c)))) requiredVolumes,
                    (let requiredSecrets = requireAll (map refSource (sSecrets (body c))) requiredSecrets
                     in case Build (body c) of
                          None \<Rightarrow> requiredSecrets
                        | Some b \<Rightarrow> requireAll (map refSource (buildSecrets b)) requiredSecrets),
                    requireAll (map refSource (sConfigs (body c))) requiredConfigs))
                 (servicesOf s (servicesRef (projectOf s np))) ([], [], [], []) of
             (requiredNetworks, requiredVolumes, requiredSecrets, requiredConfigs) \<Rightarrow>
               (let s = setProject np (\<lambda>P. P\<lparr>header := (header P)
                           \<lparr>Networks := pick (Networks (header (projectOf s p))) requiredNetworks\<rparr>\<rparr>) s;
                    s = setProject np (\<lambda>P. P\<lparr>header := (header P)
                           \<lparr>Volumes := pick (Volumes (header (projectOf s p))) requiredVolumes\<rparr>\<rparr>) s;
                    s = setProject np (\<lambda>P. P\<lparr>header := (header P)
                           \<lparr>Secrets := pick (Secrets (header (projectOf s p))) requiredSecrets\<rparr>\<rparr>) s;
                    s = setProject np (\<lambda>P. P\<lparr>header := (header P)
                           \<lparr>Configs := pick (Configs (header (projectOf s p))) requiredConfigs\<rparr>\<rparr>) s
                in (np, s))))"

text \<open>\<open>WithImagesResolved\<close> (project.go 491-525).\<close>

definition imageStep_at ::
  "('r, 'd) reference_lib \<Rightarrow> ('r \<Rightarrow> error + 'd) \<Rightarrow> addr \<Rightarrow> string \<times> ServiceStruct \<Rightarrow>
   error option \<times> store \<Rightarrow> error option \<times> store" where
  "imageStep_at lib resolver np = (\<lambda>(idx, service) (firstErr, s).
     if sImage (body service) = [] then (firstErr, s)
     else
       (case resolveImage lib resolver (body service) of
          Inl err \<Rightarrow> ((case firstErr of None \<Rightarrow> Some err | Some e \<Rightarrow> Some e), s)
        | Inr b \<Rightarrow>
            (firstErr,
             (case servicesRef (projectOf s np) of
                None \<Rightarrow> s
              | Some a \<Rightarrow> putService a idx (service\<lparr>body := b\<rparr>) s))))"

definition WithImagesResolved_at ::
  "('r, 'd) reference_lib \<Rightarrow> addr \<Rightarrow> ('r \<Rightarrow> error + 'd) \<Rightarrow> store \<Rightarrow> (addr \<times> error option) \<times> store" where
  "WithImagesResolved_at lib p resolver s =
     (case deepCopy_at p s of
        (np, s) \<Rightarrow>
          (case fold (imageStep_at lib resolver np) (servicesOf s (servicesRef (projectOf s np))) (None, s) of
             (firstErr, s) \<Rightarrow> ((np, firstErr), s)))"

text \<open>\<open>WithServicesDisabled\<close> (project.go 465-487).\<close>

definition stripDependency_at :: "addr \<Rightarrow> string \<Rightarrow> store \<Rightarrow> store" where
  "stripDependency_at np name s =
     fold (\<lambda>(i, c) s.
             if map_of (dependsOnOf s (dependsOnRef c)) name \<noteq> None
             then (let s = deleteDependsOn (dependsOnRef c) name s
                   in case servicesRef (projectOf s np) of
                        None \<Rightarrow> s
                      | Some a \<Rightarrow> putService a i c s)
             else s)
       (servicesOf s (servicesRef (projectOf s np))) s"

definition disableService_at :: "addr \<Rightarrow> string \<Rightarrow> store \<Rightarrow> store" where
  "disableService_at np name s =
     (let s = stripDependency_at np name s
      in case map_of (servicesOf s (servicesRef (projectOf s np))) name of
           Some service \<Rightarrow>
             (let s = (case disabledServicesRef (projectOf s np) of
                         None \<Rightarrow> s
                       | Some a \<Rightarrow> putService a name service s)
              in case servicesRef (projectOf s np) of
                   None \<Rightarrow> s
                 | Some a \<Rightarrow> deleteService a name s)
         | None \<Rightarrow> s)"

definition WithServicesDisabled_at :: "addr \<Rightarrow> string list \<Rightarrow> store \<Rightarrow> addr \<times> store" where
  "WithServicesDisabled_at p names s =
     (case deepCopy_at p s of
        (np, s) \<Rightarrow>
          if length names = 0 then (np, s)
          else
            (let s = (if disabledServicesRef (projectOf s np) = None
                      then (case newServices [] s of
                              (a, s) \<Rightarrow> setProject np (\<lambda>P. P\<lparr>disabledServicesRef := Some a\<rparr>) s)
                      else s)
             in (np, fold (disableService_at np) names s)))"

text \<open>
  The walk on the store. \<open>getServicesByNames\<close> (project.go 139-154) and the maps that
  \<open>withServices\<close> builds for itself never leave the call and stay values; the services
  in them are structs, whose \<open>DependsOn\<close> is read through the reference when line 236
  asks for it. The project is read from the store each time. A visitor is called with
  the pointer that \<open>service.deepCopy()\<close> returns and may change the store.
\<close>

definition getServicesByNames_at ::
  "store \<Rightarrow> addr \<Rightarrow> string list \<Rightarrow> (string \<times> ServiceStruct) list \<times> string list" where
  "getServicesByNames_at s p names =
     (if length names = 0 then (servicesOf s (servicesRef (projectOf s p)), [])
      else fold (\<lambda>name (services, servicesNotFound).
                   case map_of (servicesOf s (servicesRef (projectOf s p))) name of
                     None \<Rightarrow> (services, servicesNotFound @ [name])
                   | Some service \<Rightarrow> (AList.update name service services, servicesNotFound))
             names ([], []))"

type_synonym 'st ServiceFunc_at = "string \<Rightarrow> addr \<Rightarrow> 'st \<Rightarrow> store \<Rightarrow> (error + 'st) \<times> store"

text \<open>
  \<open>withServices\<close> (project.go 210-251) with a bound on the depth of the recursion: a
  visitor that adds services to the project while it is walked can keep the walk going
  for ever, and then the result is \<open>None\<close>.
\<close>

function
  withServices_at ::
    "nat \<Rightarrow> addr \<Rightarrow> string list \<Rightarrow> 'st ServiceFunc_at \<Rightarrow> string set \<Rightarrow> DependencyOption list \<Rightarrow>
     (string \<times> ServiceDependency) list \<Rightarrow> 'st \<Rightarrow> store \<Rightarrow> ((error + string set \<times> 'st) \<times> store) option"
and
  withServices_range_at ::
    "nat \<Rightarrow> addr \<Rightarrow> (string \<times> ServiceStruct) list \<Rightarrow> 'st ServiceFunc_at \<Rightarrow> string set \<Rightarrow>
     DependencyOption list \<Rightarrow> 'st \<Rightarrow> store \<Rightarrow> ((error + string set \<times> 'st) \<times> store) option"
where
  "withServices_at 0 p names fn seen options dependencies st s = None"
| "withServices_at (Suc n) p names fn seen options dependencies st s =
     (case getServicesByNames_at s p names of
        (services, servicesNotFound) \<Rightarrow>
          (case notFoundError servicesNotFound dependencies of
             Some err \<Rightarrow> Some (Inl err, s)
           | None \<Rightarrow> withServices_range_at n p services fn seen options st s))"
| "withServices_range_at n p [] fn seen options st s = Some (Inr (seen, st), s)"
| "withServices_range_at n p ((name, service) # rest) fn seen options st s =
     (if name \<in> seen then withServices_range_at n p rest fn seen options st s
      else
        (let seen1 = insert name seen;
             dependencies = serviceDependencies (theProject s p) options (theService s service)
         in case (if length dependencies > 0
                  then withServices_at n p (MapKeys dependencies) fn seen1 options dependencies st s
                  else Some (Inr (seen1, st), s)) of
              None \<Rightarrow> None
            | Some (Inl err, s) \<Rightarrow> Some (Inl err, s)
            | Some (Inr (seen2, st2), s) \<Rightarrow>
                (case ServiceConfig_deepCopy_at service s of
                   (a, s) \<Rightarrow>
                     (case fn name a st2 s of
                        (Inl err, s) \<Rightarrow> Some (Inl err, s)
                      | (Inr st3, s) \<Rightarrow> withServices_range_at n p rest fn seen2 options st3 s))))"
  by pat_completeness auto

termination withServices_at
  by (relation "measures
        [\<lambda>x. case x of Inl (n, _) \<Rightarrow> 2 * n | Inr (n, _) \<Rightarrow> 2 * n + 1,
         \<lambda>x. case x of Inl _ \<Rightarrow> 0 | Inr (n, p, xs, _) \<Rightarrow> length xs]") auto

definition ForEachService_at ::
  "nat \<Rightarrow> addr \<Rightarrow> string list \<Rightarrow> 'st ServiceFunc_at \<Rightarrow> DependencyOption list \<Rightarrow> 'st \<Rightarrow> store \<Rightarrow>
   ((error + 'st) \<times> store) option" where
  "ForEachService_at fuel p names fn options st s =
     (let options = (if length options = 0 then [IncludeDependencies] else options)
      in case withServices_at fuel p names fn {} options [] st s of
           None \<Rightarrow> None
         | Some (Inl err, s) \<Rightarrow> Some (Inl err, s)
         | Some (Inr (seen, st'), s) \<Rightarrow> Some (Inr st', s))"

text \<open>\<open>WithSelectedServices\<close> (project.go 426-461).\<close>

definition pruneDependencies_at :: "string set \<Rightarrow> addr option \<Rightarrow> store \<Rightarrow> store" where
  "pruneDependencies_at selected dependencies s =
     fold (\<lambda>(d, _) s. if d \<notin> selected then deleteDependsOn dependencies d s else s)
       (dependsOnOf s dependencies) s"

definition selectStep_at ::
  "string set \<Rightarrow> addr \<Rightarrow> string \<times> ServiceStruct \<Rightarrow> addr \<times> store \<Rightarrow> addr \<times> store" where
  "selectStep_at selected enabled = (\<lambda>(name, c) (np, s).
     if name \<in> selected
     then (np, putService enabled name c (pruneDependencies_at selected (dependsOnRef c) s))
     else WithServicesDisabled_at np [name] s)"

definition WithSelectedServices_at ::
  "nat \<Rightarrow> addr \<Rightarrow> string list \<Rightarrow> DependencyOption list \<Rightarrow> store \<Rightarrow> ((error + addr) \<times> store) option" where
  "WithSelectedServices_at fuel p names options s =
     (case deepCopy_at p s of
        (np, s) \<Rightarrow>
          if length names = 0 then Some (Inr np, s)
          else
            (case ForEachService_at fuel p names
                    (\<lambda>name service selected s. (Inr (insert name selected), s)) options {} s of
               None \<Rightarrow> None
             | Some (Inl err, s) \<Rightarrow> Some (Inl err, s)
             | Some (Inr selected, s) \<Rightarrow>
                 (case newServices [] s of
                    (enabled, s) \<Rightarrow>
                      (case fold (selectStep_at selected enabled)
                              (servicesOf s (servicesRef (projectOf s np))) (np, s) of
                         (np, s) \<Rightarrow>
                           Some (Inr np, setProject np (\<lambda>P. P\<lparr>servicesRef := Some enabled\<rparr>) s)))))"

section \<open>Vocabulary of the statements\<close>

text \<open>A service without its edge to one name: what line 477 leaves of it.\<close>

definition strip1 :: "string \<Rightarrow> ServiceConfig \<Rightarrow> ServiceConfig" where
  "strip1 name s = s\<lparr>DependsOn := AList.delete name (DependsOn s)\<rparr>"

text \<open>A service without the \<open>DependsOn\<close> edges that lead into a set of names.\<close>

definition dropEdges :: "string set \<Rightarrow> ServiceConfig \<Rightarrow> ServiceConfig" where
  "dropEdges N s = s\<lparr>DependsOn := filter (\<lambda>(d, _). d \<notin> N) (DependsOn s)\<rparr>"

text \<open>The names of a list up to the first occurrence of \<open>k\<close>, and \<open>k\<close>.\<close>

definition upToFirst :: "string \<Rightarrow> string list \<Rightarrow> string list" where
  "upToFirst k ns = takeWhile (\<lambda>n. n \<noteq> k) ns @ [k]"

text \<open>
  The graph that the walk follows. The successors of a service are the keys of the
  \<open>dependencies\<close> that \<open>withServices\<close> computes for it under the options; an
  edge leads to a successor that is an enabled service; the roots are the requested
  names that are enabled services (all of them when no name is requested); the closure
  is what the edges reach from the roots.
\<close>

definition successors :: "Project \<Rightarrow> DependencyOption list \<Rightarrow> string \<Rightarrow> string set" where
  "successors p options x =
     (case map_of (Services p) x of
        None \<Rightarrow> {}
      | Some s \<Rightarrow> keys (serviceDependencies p options s))"

definition edges :: "Project \<Rightarrow> DependencyOption list \<Rightarrow> (string \<times> string) set" where
  "edges p options = {(x, y). y \<in> successors p options x \<and> y \<in> keys (Services p)}"

definition roots :: "Project \<Rightarrow> string list \<Rightarrow> string set" where
  "roots p names = (if names = [] then keys (Services p) else set names \<inter> keys (Services p))"

definition closure :: "Project \<Rightarrow> string list \<Rightarrow> DependencyOption list \<Rightarrow> string set" where
  "closure p names options = (edges p options)\<^sup>* `` roots p names"

text \<open>
  A name is optional in a \<open>dependencies\<close> map when the map has it with
  \<open>Required\<close> false; the dependencies of a service resolve when each of them is an
  enabled service or optional.
\<close>

definition optionalIn :: "(string \<times> ServiceDependency) list \<Rightarrow> string \<Rightarrow> bool" where
  "optionalIn dependencies n =
     (case map_of dependencies n of None \<Rightarrow> False | Some d \<Rightarrow> \<not> Required d)"

definition depsResolve :: "Project \<Rightarrow> DependencyOption list \<Rightarrow> string \<Rightarrow> bool" where
  "depsResolve p options x =
     (case map_of (Services p) x of
        None \<Rightarrow> True
      | Some s \<Rightarrow> (\<forall>d \<in> keys (serviceDependencies p options s).
                    d \<in> keys (Services p) \<or> optionalIn (serviceDependencies p options s) d))"

text \<open>A list of services whose entries are entries of the project.\<close>

definition entries :: "Project \<Rightarrow> Services \<Rightarrow> bool" where
  "entries p services = (\<forall>(n, s) \<in> set services. map_of (Services p) n = Some s)"

text \<open>
  What one call of the walk does to \<open>seen\<close>: it only grows, it takes in the roots
  \<open>R\<close> of the call, every newly marked name is an enabled service whose successors
  are marked and whose dependencies resolve, and every newly marked name is reachable
  from \<open>R\<close>.
\<close>

definition walked :: "Project \<Rightarrow> DependencyOption list \<Rightarrow> string set \<Rightarrow> string set \<Rightarrow> string set \<Rightarrow> bool" where
  "walked p options R seen seen' \<longleftrightarrow>
     seen \<subseteq> seen' \<and> R \<subseteq> seen' \<and>
     (\<forall>x \<in> seen' - seen. x \<in> keys (Services p) \<and>
        successors p options x \<inter> keys (Services p) \<subseteq> seen' \<and> depsResolve p options x) \<and>
     seen' - seen \<subseteq> (edges p options)\<^sup>* `` R"

text \<open>A visitor that never returns an error.\<close>

definition neverFails :: "'st ServiceFunc \<Rightarrow> bool" where
  "neverFails fn \<longleftrightarrow> (\<forall>n s st. \<exists>st'. fn n s st = Inr st')"

text \<open>
  A visitor together with a record of its calls: \<open>recording fn\<close> does what \<open>fn\<close>
  does and appends the name and the service it was called with to a log.
\<close>

definition recording :: "'st ServiceFunc \<Rightarrow> ((string \<times> ServiceConfig) list \<times> 'st) ServiceFunc" where
  "recording fn name service = (\<lambda>(log, st).
     case fn name service st of
       Inl err \<Rightarrow> Inl err
     | Inr st' \<Rightarrow> Inr (log @ [(name, service)], st'))"

text \<open>\<open>y\<close> occurs in the list before the first occurrence of \<open>x\<close>.\<close>

definition before :: "'a list \<Rightarrow> 'a \<Rightarrow> 'a \<Rightarrow> bool" where
  "before l y x \<longleftrightarrow> y \<in> set (takeWhile (\<lambda>z. z \<noteq> x) l)"

text \<open>A visitor whose state holds a log of its calls.\<close>

definition tracks :: "'st ServiceFunc \<Rightarrow> ('st \<Rightarrow> (string \<times> ServiceConfig) list) \<Rightarrow> bool" where
  "tracks fn lg \<longleftrightarrow> (\<forall>n s st st'. fn n s st = Inr st' \<longrightarrow> lg st' = lg st @ [(n, s)])"

text \<open>
  What one call of the walk adds to the log: each newly marked name once, with the
  service the project holds for it, and after all its successors.
\<close>

definition logged ::
  "Project \<Rightarrow> DependencyOption list \<Rightarrow> string set \<Rightarrow> string set \<Rightarrow>
   (string \<times> ServiceConfig) list \<Rightarrow> (string \<times> ServiceConfig) list \<Rightarrow> bool" where
  "logged p options seen seen' log log' \<longleftrightarrow>
     (\<exists>new. log' = log @ new \<and> distinct (map fst new) \<and> set (map fst new) = seen' - seen \<and>
        entries p new \<and>
        (acyclic (edges p options) \<longrightarrow>
           (\<forall>x \<in> set (map fst new). \<forall>y. (x, y) \<in> edges p options \<longrightarrow> before (map fst log') y x)))"

text \<open>
  The services that are marked but not logged yet are the ones whose dependencies are
  being walked; each of them reaches every root of the current call.
\<close>

definition inProgress ::
  "Project \<Rightarrow> DependencyOption list \<Rightarrow> string set \<Rightarrow> string set \<Rightarrow>
   (string \<times> ServiceConfig) list \<Rightarrow> bool" where
  "inProgress p options R seen log \<longleftrightarrow>
     set (map fst log) \<subseteq> seen \<and>
     (\<forall>y \<in> seen - set (map fst log). \<forall>n \<in> R. (y, n) \<in> (edges p options)\<^sup>+)"

text \<open>
  The policy that a list of options leaves (the last option wins), the relation
  ''\<open>x\<close> has a \<open>DependsOn\<close> edge to the enabled service \<open>y\<close>'', and the
  projects in which every enabled service carries its key as its \<open>Name\<close>.
\<close>

definition policyOf :: "DependencyOption list \<Rightarrow> policy" where
  "policyOf options = dependencyPolicy (fold applyOption options \<lparr>dependencyPolicy = includeDependencies\<rparr>)"

definition dependsOn :: "Project \<Rightarrow> (string \<times> string) set" where
  "dependsOn p = {(x, y). \<exists>s. map_of (Services p) x = Some s \<and> y \<in> keys (DependsOn s) \<and>
                          y \<in> keys (Services p)}"

definition namesMatch :: "Project \<Rightarrow> bool" where
  "namesMatch p \<longleftrightarrow> (\<forall>(k, s) \<in> set (Services p). sName s = k)"

text \<open>
  The same vocabulary in the words of the specification, with no reference to the walk.
  The policy of an option list is the one named by its last option, and
  \<open>IncludeDependencies\<close> when there is none. The walk follows the \<open>DependsOn\<close>
  edges between enabled services under \<open>IncludeDependencies\<close>, the same edges
  backwards under \<open>IncludeDependents\<close>, and no edge under \<open>IgnoreDependencies\<close>;
  \<open>reach\<close> is what these edges reach from the requested names. A service is
  resolvable when, under \<open>IncludeDependencies\<close>, each key of its \<open>DependsOn\<close> is
  an enabled service or has \<open>Required\<close> false; under the other two policies the walk
  asks for nothing.
\<close>

definition policyFor :: "DependencyOption list \<Rightarrow> policy" where
  "policyFor options =
     (if options = [] then includeDependencies
      else case last options of
             IncludeDependencies \<Rightarrow> includeDependencies
           | IncludeDependents \<Rightarrow> includeDependents
           | IgnoreDependencies \<Rightarrow> ignoreDependencies)"

definition walkEdges :: "Project \<Rightarrow> DependencyOption list \<Rightarrow> (string \<times> string) set" where
  "walkEdges p options =
     (case policyFor options of
        includeDependencies \<Rightarrow> dependsOn p
      | includeDependents \<Rightarrow> (dependsOn p)\<inverse>
      | ignoreDependencies \<Rightarrow> {})"

definition reach :: "Project \<Rightarrow> string list \<Rightarrow> DependencyOption list \<Rightarrow> string set" where
  "reach p names options = (walkEdges p options)\<^sup>* `` roots p names"

definition resolvable :: "Project \<Rightarrow> DependencyOption list \<Rightarrow> string \<Rightarrow> bool" where
  "resolvable p options x \<longleftrightarrow>
     (policyFor options = includeDependencies \<longrightarrow>
        (\<forall>s. map_of (Services p) x = Some s \<longrightarrow>
           (\<forall>d \<in> keys (DependsOn s). d \<in> keys (Services p) \<or>
              (\<exists>dep. map_of (DependsOn s) d = Some dep \<and> \<not> Required dep))))"

text \<open>The error that line 585, 591 or 596 returns for a file.\<close>

definition fileError :: "env_io \<Rightarrow> EnvFile \<Rightarrow> error" where
  "fileError io f =
     (if notExist io (Path f) then EnvFileNotFound (Path f)
      else if ReadFile io (Path f) = None then FailedToLoad (Path f)
      else FailedToRead (Path f))"

text \<open>
  A file stops the loop when it does not exist and is required, or exists and cannot be
  read, or is read and cannot be parsed with the lookup of that moment.
\<close>

definition badFile :: "env_io \<Rightarrow> Project \<Rightarrow> (string \<times> string option) list \<Rightarrow> EnvFile \<Rightarrow> bool" where
  "badFile io p environment f =
     (if notExist io (Path f) then envRequired f
      else (case ReadFile io (Path f) of
              None \<Rightarrow> True
            | Some b \<Rightarrow> ParseWithLookup io b (resolve environment p) = None))"

text \<open>
  The mappings that line 598 merges into the accumulator, in the order of the files: one
  for each file that exists, can be read and can be parsed.
\<close>

fun parsedEnvFiles ::
  "env_io \<Rightarrow> Project \<Rightarrow> EnvFile list \<Rightarrow> (string \<times> string option) list \<Rightarrow>
   (string \<times> string option) list list" where
  "parsedEnvFiles io p [] environment = []"
| "parsedEnvFiles io p (f # rest) environment =
     (if notExist io (Path f) then parsedEnvFiles io p rest environment
      else (case ReadFile io (Path f) of
              None \<Rightarrow> []
            | Some b \<Rightarrow>
                (case ParseWithLookup io b (resolve environment p) of
                   None \<Rightarrow> []
                 | Some fileVars \<Rightarrow>
                     ToMappingWithEquals fileVars
                       # parsedEnvFiles io p rest (OverrideBy environment (ToMappingWithEquals fileVars)))))"

text \<open>
  The merge of the claim's words: of a list of mappings, the last one that has a key
  decides what the key holds.
\<close>

definition lastWriterWins :: "(string \<times> string option) list list \<Rightarrow> (string \<rightharpoonup> string option)" where
  "lastWriterWins ms = foldl (\<lambda>m other. m ++ map_of other) Map.empty ms"

text \<open>
  What a service is after its goroutine: itself when it has no image or the resolution
  failed, the rewritten service otherwise; and the services whose goroutine returns no
  error.
\<close>

definition afterResolve :: "('r, 'd) reference_lib \<Rightarrow> ('r \<Rightarrow> error + 'd) \<Rightarrow> ServiceConfig \<Rightarrow> ServiceConfig" where
  "afterResolve lib resolver s =
     (if sImage s = [] then s
      else case resolveImage lib resolver s of Inl err \<Rightarrow> s | Inr s' \<Rightarrow> s')"

definition resolves :: "('r, 'd) reference_lib \<Rightarrow> ('r \<Rightarrow> error + 'd) \<Rightarrow> ServiceConfig \<Rightarrow> bool" where
  "resolves lib resolver s \<longleftrightarrow> sImage s = [] \<or> (\<exists>s'. resolveImage lib resolver s = Inr s')"

text \<open>
  The invariant of the two service maps: no name is a key of both. And the names a
  project knows, enabled or not.
\<close>

definition partitioned :: "Project \<Rightarrow> bool" where
  "partitioned p \<longleftrightarrow> keys (Services p) \<inter> keys (DisabledServices p) = {}"

definition serviceNames :: "Project \<Rightarrow> string set" where
  "serviceNames p = keys (Services p) \<union> keys (DisabledServices p)"

text \<open>
  A later store leaves an earlier one unchanged when every address that was taken still
  holds the object it held.
\<close>

definition unchanged :: "store \<Rightarrow> store \<Rightarrow> bool" where
  "unchanged s s' \<longleftrightarrow> nextAddr s \<le> nextAddr s' \<and> (\<forall>a < nextAddr s. objectAt s' a = objectAt s a)"

text \<open>The references that an object holds.\<close>

fun refsOf :: "object \<Rightarrow> addr set" where
  "refsOf (ProjectObj P) = set_option (servicesRef P) \<union> set_option (disabledServicesRef P)"
| "refsOf (ServicesObj m) = (\<Union>(k, c) \<in> set m. set_option (dependsOnRef c))"
| "refsOf (DependsOnObj m) = {}"
| "refsOf (ServiceObj c) = set_option (dependsOnRef c)"

text \<open>
  The objects from address \<open>n\<close> on refer to objects from \<open>n\<close> on only. With \<open>n = 0\<close>
  the store has no dangling reference; with \<open>n\<close> the next address of an earlier store,
  what was built since shares nothing with what was there.
\<close>

definition apart :: "addr \<Rightarrow> store \<Rightarrow> bool" where
  "apart n s \<longleftrightarrow>
     (\<forall>a obj. n \<le> a \<and> a < nextAddr s \<and> objectAt s a = Some obj \<longrightarrow> refsOf obj \<subseteq> {n..<nextAddr s})"

definition closed :: "store \<Rightarrow> bool" where
  "closed s \<longleftrightarrow> apart 0 s"

definition grown :: "store \<Rightarrow> store \<Rightarrow> bool" where
  "grown s0 s \<longleftrightarrow> unchanged s0 s \<and> apart (nextAddr s0) s"

text \<open>
  A call leaves its receiver alone: every object of the store is as it was, so the
  project at \<open>p\<close> is the project it was; the objects built since refer to no older
  object; and the addresses returned are new.
\<close>

definition leavesReceiver :: "store \<Rightarrow> addr \<Rightarrow> addr set \<Rightarrow> store \<Rightarrow> bool" where
  "leavesReceiver s p returned s' \<longleftrightarrow>
     unchanged s s' \<and> theProject s' p = theProject s p \<and> apart (nextAddr s) s' \<and>
     returned \<subseteq> {nextAddr s..<nextAddr s'}"

text \<open>The project that a call returns, when it returns one.\<close>

definition resultOf :: "error + addr \<Rightarrow> addr set" where
  "resultOf r = (case r of Inl err \<Rightarrow> {} | Inr np \<Rightarrow> {np})"

text \<open>
  A visitor that changes nothing but its argument: the struct it is handed and the
  \<open>DependsOn\<close> map of that struct; it may build new objects.
\<close>

definition mutatesArgumentOnly :: "'st ServiceFunc_at \<Rightarrow> bool" where
  "mutatesArgumentOnly fn \<longleftrightarrow>
     (\<forall>name a st s.
        nextAddr s \<le> nextAddr (snd (fn name a st s)) \<and>
        (\<forall>b < nextAddr s. b \<noteq> a \<and> Some b \<noteq> dependsOnRef (serviceOf s a) \<longrightarrow>
           objectAt (snd (fn name a st s)) b = objectAt s b))"

text \<open>
  A visitor that writes down each call before it makes it: the name, the pointer, the
  reference to the \<open>DependsOn\<close> map of the struct, and the service that the pointer
  leads to at that moment.
\<close>

definition recording_at ::
  "'st ServiceFunc_at \<Rightarrow> ((string \<times> addr \<times> addr option \<times> ServiceConfig) list \<times> 'st) ServiceFunc_at" where
  "recording_at fn name a = (\<lambda>(log, st) s.
     case fn name a st s of
       (Inl err, s') \<Rightarrow> (Inl err, s')
     | (Inr st', s') \<Rightarrow> (Inr (log @ [(name, a, dependsOnRef (serviceOf s a), theService s (serviceOf s a))], st'), s'))"

text \<open>
  The visitor of the walk on values that does what \<open>fn\<close> does on the store: its state
  holds the store and the pointers handed out so far; it copies the struct that the
  project holds under the name and calls \<open>fn\<close> with the pointer.
\<close>

definition onValues ::
  "(string \<times> ServiceStruct) list \<Rightarrow> 'st ServiceFunc_at \<Rightarrow> (addr list \<times> 'st \<times> store) ServiceFunc" where
  "onValues m fn name service = (\<lambda>(addrs, st, s).
     case ServiceConfig_deepCopy_at (case map_of m name of Some c \<Rightarrow> c | None \<Rightarrow> zeroService) s of
       (a, s) \<Rightarrow>
         (case fn name a st s of
            (Inl err, s) \<Rightarrow> Inl err
          | (Inr st', s) \<Rightarrow> Inr (addrs @ [a], st', s)))"

definition pack ::
  "(string \<times> addr \<times> addr option \<times> ServiceConfig) list \<Rightarrow> 'st \<Rightarrow> store \<Rightarrow>
   (string \<times> ServiceConfig) list \<times> addr list \<times> 'st \<times> store" where
  "pack log st s = (map (\<lambda>(n, a, d, v). (n, v)) log, map (\<lambda>(n, a, d, v). a) log, st, s)"

text \<open>
  The pointer \<open>a\<close> was handed out after the store \<open>s0\<close>: it and the \<open>DependsOn\<close>
  map of its struct are addresses that \<open>s0\<close> did not have.
\<close>

definition handed :: "store \<Rightarrow> addr \<Rightarrow> store \<Rightarrow> bool" where
  "handed s0 a s \<longleftrightarrow>
     nextAddr s0 \<le> a \<and> set_option (dependsOnRef (serviceOf s a)) \<subseteq> {nextAddr s0..<nextAddr s}"

text \<open>The result of the walk on the store, as the walk on values returns it.\<close>

definition onValuesResult ::
  "(error + string set \<times> (string \<times> addr \<times> addr option \<times> ServiceConfig) list \<times> 'st) \<Rightarrow> store \<Rightarrow>
   error + string set \<times> (string \<times> ServiceConfig) list \<times> addr list \<times> 'st \<times> store" where
  "onValuesResult r s =
     (case r of Inl err \<Rightarrow> Inl err | Inr (seen, log, st) \<Rightarrow> Inr (seen, pack log st s))"

text \<open>
  The copies of a log are new to a store: each pointer and each reference to a
  \<open>DependsOn\<close> map is an address that the store did not have, and no pointer occurs
  twice.
\<close>

definition copiesNew :: "store \<Rightarrow> (string \<times> addr \<times> addr option \<times> ServiceConfig) list \<Rightarrow> bool" where
  "copiesNew s log \<longleftrightarrow>
     (\<forall>(n, a, d, v) \<in> set log. nextAddr s \<le> a \<and> (\<forall>b \<in> set_option d. nextAddr s \<le> b)) \<and>
     distinct (map (\<lambda>(n, a, d, v). a) log)"

section \<open>Example data\<close>

text \<open>
  Concrete projects for the closed theorems: a service with a name, profiles and
  dependencies and nothing else, and a project with enabled and disabled services and
  nothing else.
\<close>

definition mkService :: "string \<Rightarrow> string list \<Rightarrow> (string \<times> ServiceDependency) list \<Rightarrow> ServiceConfig" where
  "mkService n profs deps =
     \<lparr>sName = n, sProfiles = profs, DependsOn = deps, sNetworks = [], sVolumes = [],
      sSecrets = [], Build = None, sConfigs = [], sImage = [], sEnvironment = [],
      EnvFiles = []\<rparr>"

definition mkProject :: "Services \<Rightarrow> Services \<Rightarrow> Project" where
  "mkProject enabled disabled =
     \<lparr>Name = ''demo'', WorkingDir = ''/srv/demo'', Services = enabled, Networks = [],
      Volumes = [], Secrets = [], Configs = [], ComposeFiles = [], Environment = [],
      DisabledServices = disabled, Profiles = []\<rparr>"

definition required :: ServiceDependency where
  "required = \<lparr>Condition = ''service_started'', Required = True\<rparr>"

definition optional :: ServiceDependency where
  "optional = \<lparr>Condition = ''service_started'', Required = False\<rparr>"

text \<open>An enabled service \<open>web\<close> and a disabled service \<open>debug\<close> with profile \<open>dbg\<close>.\<close>

definition profiled :: Project where
  "profiled = mkProject [(''web'', mkService ''web'' [] [])]
                        [(''debug'', mkService ''debug'' [''dbg''] [])]"

text \<open>A service \<open>web\<close> with an optional dependency on a service that does not exist.\<close>

definition dangling :: Project where
  "dangling = mkProject [(''web'', mkService ''web'' [] [(''ghost'', optional)])] []"

text \<open>
  \<open>web\<close> needs \<open>db\<close> and would like \<open>cache\<close>, which does not exist; \<open>worker\<close>
  needs \<open>db\<close>.
\<close>

definition stack :: Project where
  "stack = mkProject [(''web'', mkService ''web'' [] [(''db'', required), (''cache'', optional)]),
                      (''db'', mkService ''db'' [] []),
                      (''worker'', mkService ''worker'' [] [(''db'', required)])] []"

text \<open>A diamond: \<open>a\<close> needs \<open>b\<close> and \<open>c\<close>, which both need \<open>d\<close>.\<close>

definition diamond :: Project where
  "diamond = mkProject [(''a'', mkService ''a'' [] [(''b'', required), (''c'', required)]),
                        (''b'', mkService ''b'' [] [(''d'', required)]),
                        (''c'', mkService ''c'' [] [(''d'', required)]),
                        (''d'', mkService ''d'' [] [])] []"

text \<open>Two services that need each other.\<close>

definition ring :: Project where
  "ring = mkProject [(''a'', mkService ''a'' [] [(''b'', required)]),
                      (''b'', mkService ''b'' [] [(''a'', required)])] []"

text \<open>\<open>a\<close> needs \<open>b\<close>, \<open>b\<close> needs \<open>c\<close>, and \<open>x\<close> needs \<open>a\<close>.\<close>

definition pipeline :: Project where
  "pipeline = mkProject [(''x'', mkService ''x'' [] [(''a'', required)]),
                      (''a'', mkService ''a'' [] [(''b'', required)]),
                      (''b'', mkService ''b'' [] [(''c'', required)]),
                      (''c'', mkService ''c'' [] [])] []"

text \<open>A service whose required dependency does not exist.\<close>

definition broken :: Project where
  "broken = mkProject [(''web'', mkService ''web'' [] [(''db'', required)])] []"

text \<open>A visitor that does nothing.\<close>

definition noop :: "unit ServiceFunc" where
  "noop name service u = Inr u"

text \<open>An env-file system with one file, and services that list env files.\<close>

definition demoFiles :: env_io where
  "demoFiles =
     \<lparr>notExist = (\<lambda>path. path \<noteq> ''a.env''),
      ReadFile = (\<lambda>path. if path = ''a.env'' then Some ''FOO=2'' else None),
      ParseWithLookup = (\<lambda>b lookup. if b = ''FOO=2'' then Some [(''FOO'', ''2'')] else None)\<rparr>"

definition envService :: "string \<Rightarrow> (string \<times> string option) list \<Rightarrow> EnvFile list \<Rightarrow> ServiceConfig" where
  "envService n env files = (mkService n [] [])\<lparr>sEnvironment := env, EnvFiles := files\<rparr>"

definition envDemo :: Project where
  "envDemo =
     (mkProject [(''web'', envService ''web'' []
                    [\<lparr>Path = ''a.env'', envRequired = True\<rparr>, \<lparr>Path = ''missing.env'', envRequired = False\<rparr>]),
                 (''api'', envService ''api'' [(''FOO'', Some ''3'')]
                    [\<lparr>Path = ''a.env'', envRequired = True\<rparr>])] [])
       \<lparr>Environment := [(''FOO'', ''1'')]\<rparr>"

definition envBroken :: Project where
  "envBroken =
     mkProject [(''web'', envService ''web'' [] [\<lparr>Path = ''missing.env'', envRequired = True\<rparr>])] []"

text \<open>
  A reference library over strings, a resolver that knows every image but one, and
  services with images.
\<close>

definition demoRefs :: "(string, string) reference_lib" where
  "demoRefs =
     \<lparr>ParseDockerRef = (\<lambda>s. if s = ''!'' then Inl (Foreign ''invalid reference format'') else Inr s),
      isCanonical = (\<lambda>r. CHR ''@'' \<in> set r),
      WithDigest = (\<lambda>r d. Inr (r @ ''@'' @ d)),
      refString = (\<lambda>r. r)\<rparr>"

definition demoResolver :: "string \<Rightarrow> error + string" where
  "demoResolver r = (if r = ''ghost'' then Inl (Foreign ''manifest unknown'') else Inr ''sha256:aa'')"

definition imageService :: "string \<Rightarrow> string \<Rightarrow> ServiceConfig" where
  "imageService n img = (mkService n [] [])\<lparr>sImage := img\<rparr>"

definition imagesDemo :: Project where
  "imagesDemo = mkProject [(''web'', imageService ''web'' ''nginx''),
                           (''db'', imageService ''db'' ''ghost''),
                           (''pinned'', imageService ''pinned'' ''redis@sha256:bb''),
                           (''local'', imageService ''local'' '''')] []"

definition imagesOk :: Project where
  "imagesOk = mkProject [(''web'', imageService ''web'' ''nginx''),
                         (''pinned'', imageService ''pinned'' ''redis@sha256:bb''),
                         (''local'', imageService ''local'' '''')] []"

text \<open>A store with one project: \<open>web\<close> depends on \<open>db\<close>.\<close>

definition demoStore :: store where
  "demoStore =
     \<lparr>objectAt = [0 \<mapsto> DependsOnObj [(''db'', required)],
                   1 \<mapsto> ServicesObj [(''web'', \<lparr>body = mkService ''web'' [] [], dependsOnRef = Some 0\<rparr>),
                                      (''db'', \<lparr>body = mkService ''db'' [] [], dependsOnRef = None\<rparr>)],
                   2 \<mapsto> ProjectObj \<lparr>header = mkProject [] [], servicesRef = Some 1,
                                       disabledServicesRef = None\<rparr>],
      nextAddr = 3\<rparr>"

text \<open>
  A visitor that overwrites its argument: it sets the image of the struct and empties
  its \<open>DependsOn\<close> map.
\<close>

definition scribble :: "unit ServiceFunc_at" where
  "scribble name a u s =
     (let c = serviceOf s a;
          s = assign a (ServiceObj (c\<lparr>body := (body c)\<lparr>sImage := ''scratch''\<rparr>\<rparr>)) s
      in (Inr u, case dependsOnRef c of None \<Rightarrow> s | Some d \<Rightarrow> assign d (DependsOnObj []) s))"

section \<open>Theorems\<close>

subsection \<open>Maps as lists\<close>

lemma fold_update_map_of:
  "distinct (map fst xs) \<Longrightarrow>
   map_of (fold (\<lambda>(k, v) m. AList.update k v m) xs acc) = map_of acc ++ map_of xs"
proof (induction xs arbitrary: acc)
  case Nil then show ?case by simp
next
  case (Cons x xs)
  obtain k v where x: "x = (k, v)" by (cases x)
  have "map_of xs k = None" using Cons.prems x by (simp add: map_of_eq_None_iff)
  then show ?case using Cons x
    by (auto simp: update_conv' fun_eq_iff map_add_def split: option.splits)
qed

lemma fold_update_distinct:
  "distinct (map fst acc) \<Longrightarrow> distinct (map fst (fold (\<lambda>(k, v) m. AList.update k v m) xs acc))"
  by (induction xs arbitrary: acc) (auto simp: distinct_update)

lemma keys_update: "keys (AList.update k v m) = insert k (keys m)"
  by (simp add: keys_def dom_update)

lemma keys_Cons: "keys ((k, v) # m) = insert k (keys m)"
  by (simp add: keys_def)

lemma keys_Nil: "keys [] = {}"
  by (simp add: keys_def)

lemma fold_update_keys:
  "keys (fold (\<lambda>(k, v) m. AList.update k v m) xs acc) = keys acc \<union> keys xs"
  by (induction xs arbitrary: acc) (auto simp: keys_update keys_Cons keys_Nil)

lemma AllServices_map_of:
  "gomap (Services p) \<Longrightarrow> gomap (DisabledServices p) \<Longrightarrow>
   map_of (AllServices p) = map_of (Services p) ++ map_of (DisabledServices p)"
  by (simp add: AllServices_def gomap_def fold_update_map_of)

lemma AllServices_gomap: "gomap (AllServices p)"
  by (simp add: AllServices_def gomap_def fold_update_distinct)

lemma AllServices_keys: "keys (AllServices p) = keys (Services p) \<union> keys (DisabledServices p)"
  by (simp add: AllServices_def fold_update_keys keys_Nil)

definition split_step :: "string list \<Rightarrow> string \<times> ServiceConfig \<Rightarrow> Services \<times> Services \<Rightarrow> Services \<times> Services" where
  "split_step profiles = (\<lambda>(name, service) (enabled, disabled).
                      if HasProfile service profiles
                      then (AList.update name service enabled, disabled)
                      else (enabled, AList.update name service disabled))"

lemma fold_split:
  "fold (split_step P) xs (en, dis) =
     (fold (\<lambda>(k, v) m. AList.update k v m) (filter (\<lambda>(k, s). HasProfile s P) xs) en,
      fold (\<lambda>(k, v) m. AList.update k v m) (filter (\<lambda>(k, s). \<not> HasProfile s P) xs) dis)"
  by (induction xs arbitrary: en dis) (auto simp: split_step_def)

lemma map_of_filter_snd:
  "distinct (map fst xs) \<Longrightarrow>
   map_of (filter (\<lambda>(k, s). Q s) xs) k =
     (case map_of xs k of None \<Rightarrow> None | Some s \<Rightarrow> if Q s then Some s else None)"
proof (induction xs)
  case Nil then show ?case by simp
next
  case (Cons x xs)
  obtain k' v where x: "x = (k', v)" by (cases x)
  have n: "map_of xs k' = None" using Cons.prems x by (simp add: map_of_eq_None_iff)
  have "map_of (filter (\<lambda>(k, s). Q s) xs) k' = None"
    using Cons.prems x by (auto simp: map_of_eq_None_iff)
  then show ?case using Cons x n by (auto split: option.splits)
qed

lemma distinct_filter_fst: "distinct (map fst xs) \<Longrightarrow> distinct (map fst (filter Q xs))"
  by (induction xs) auto

lemma HasProfile_iff:
  "HasProfile s P \<longleftrightarrow> sProfiles s = [] \<or> (\<exists>x \<in> set (sProfiles s). x \<in> set P)"
  by (auto simp: HasProfile_def list_ex_iff)

lemma WithProfiles_wildcard:
  "''*'' \<in> set P \<Longrightarrow> WithProfiles p P = Inr p"
  by (auto simp: WithProfiles_def deepCopy_def list_ex_iff)

lemma WithProfiles_filter:
  assumes "''*'' \<notin> set P"
  shows "WithProfiles p P =
     Inr (p\<lparr>Services := fold (\<lambda>(k, v) m. AList.update k v m) (filter (\<lambda>(k, s). HasProfile s P) (AllServices p)) [],
           DisabledServices := fold (\<lambda>(k, v) m. AList.update k v m) (filter (\<lambda>(k, s). \<not> HasProfile s P) (AllServices p)) [],
           Profiles := P\<rparr>)"
proof -
  have "\<not> list_ex (\<lambda>q. q = ''*'') P" using assms by (auto simp: list_ex_iff)
  then show ?thesis
    using fold_split[of P "AllServices p" "[]" "[]"]
    by (simp add: WithProfiles_def deepCopy_def split_step_def)
qed


text \<open>
  C2. With the wildcard among the profiles, \<open>WithProfiles\<close> returns the copy as it is:
  the enabled services stay enabled and the disabled ones stay disabled. Without it,
  the services of both maps are recombined (a disabled service wins over an enabled one
  of the same name) and split by \<open>HasProfile\<close>: the new \<open>Services\<close> holds exactly those
  that declare no profile or declare one of the requested profiles, the new
  \<open>DisabledServices\<close> exactly the others, \<open>Profiles\<close> becomes the requested list and
  no other field changes.
\<close>

theorem WithProfiles_partition:
  assumes "gomap (Services p)" and "gomap (DisabledServices p)"
  shows "(''*'' \<in> set P \<longrightarrow> WithProfiles p P = Inr p) \<and>
         (''*'' \<notin> set P \<longrightarrow>
            (\<exists>np. WithProfiles p P = Inr np \<and> Profiles np = P \<and>
               np\<lparr>Services := Services p, DisabledServices := DisabledServices p,
                  Profiles := Profiles p\<rparr> = p \<and>
               gomap (Services np) \<and> gomap (DisabledServices np) \<and>
               (\<forall>k. map_of (Services np) k =
                  (case (map_of (Services p) ++ map_of (DisabledServices p)) k of
                     None \<Rightarrow> None
                   | Some s \<Rightarrow> if HasProfile s P then Some s else None)) \<and>
               (\<forall>k. map_of (DisabledServices np) k =
                  (case (map_of (Services p) ++ map_of (DisabledServices p)) k of
                     None \<Rightarrow> None
                   | Some s \<Rightarrow> if HasProfile s P then None else Some s)))) \<and>
         (\<forall>s. HasProfile s P \<longleftrightarrow> sProfiles s = [] \<or> (\<exists>x \<in> set (sProfiles s). x \<in> set P))"
proof (intro conjI impI allI)
  assume "''*'' \<in> set P"
  then show "WithProfiles p P = Inr p" by (rule WithProfiles_wildcard)
next
  assume nw: "''*'' \<notin> set P"
  let ?all = "AllServices p"
  let ?en = "fold (\<lambda>(k, v) m. AList.update k v m) (filter (\<lambda>(k, s). HasProfile s P) ?all) []"
  let ?dis = "fold (\<lambda>(k, v) m. AList.update k v m) (filter (\<lambda>(k, s). \<not> HasProfile s P) ?all) []"
  let ?np = "p\<lparr>Services := ?en, DisabledServices := ?dis, Profiles := P\<rparr>"
  have d: "distinct (map fst ?all)" using AllServices_gomap[of p] by (simp add: gomap_def)
  have all: "map_of ?all = map_of (Services p) ++ map_of (DisabledServices p)"
    using assms by (rule AllServices_map_of)
  have en: "map_of ?en k =
      (case (map_of (Services p) ++ map_of (DisabledServices p)) k of
         None \<Rightarrow> None | Some s \<Rightarrow> if HasProfile s P then Some s else None)" for k
    using d by (simp add: fold_update_map_of distinct_filter_fst map_of_filter_snd all)
  have dis: "map_of ?dis k =
      (case (map_of (Services p) ++ map_of (DisabledServices p)) k of
         None \<Rightarrow> None | Some s \<Rightarrow> if HasProfile s P then None else Some s)" for k
  proof -
    have "map_of ?dis k = map_of (filter (\<lambda>(k, s). \<not> HasProfile s P) ?all) k"
      using d by (simp add: fold_update_map_of distinct_filter_fst)
    also have "\<dots> = (case map_of ?all k of
                         None \<Rightarrow> None | Some s \<Rightarrow> if \<not> HasProfile s P then Some s else None)"
      using d by (rule map_of_filter_snd)
    finally show ?thesis
      by (cases "map_of ?all k") (simp_all add: all[symmetric])
  qed
  have "WithProfiles p P = Inr ?np" using nw by (rule WithProfiles_filter)
  moreover have "Profiles ?np = P" by simp
  moreover have "?np\<lparr>Services := Services p, DisabledServices := DisabledServices p,
                  Profiles := Profiles p\<rparr> = p" by simp
  moreover have "gomap (Services ?np)" "gomap (DisabledServices ?np)"
    by (simp_all add: gomap_def fold_update_distinct)
  ultimately show "\<exists>np. WithProfiles p P = Inr np \<and> Profiles np = P \<and>
               np\<lparr>Services := Services p, DisabledServices := DisabledServices p,
                  Profiles := Profiles p\<rparr> = p \<and>
               gomap (Services np) \<and> gomap (DisabledServices np) \<and>
               (\<forall>k. map_of (Services np) k =
                  (case (map_of (Services p) ++ map_of (DisabledServices p)) k of
                     None \<Rightarrow> None
                   | Some s \<Rightarrow> if HasProfile s P then Some s else None)) \<and>
               (\<forall>k. map_of (DisabledServices np) k =
                  (case (map_of (Services p) ++ map_of (DisabledServices p)) k of
                     None \<Rightarrow> None
                   | Some s \<Rightarrow> if HasProfile s P then None else Some s))"
    using en dis by (intro exI[of _ ?np]) simp
next
  fix s
  show "HasProfile s P \<longleftrightarrow> sProfiles s = [] \<or> (\<exists>x \<in> set (sProfiles s). x \<in> set P)"
    by (rule HasProfile_iff)
qed

theorem WithProfiles_partition_witness:
  "gomap (Services profiled) \<and> gomap (DisabledServices profiled) \<and>
   WithProfiles profiled [''dbg''] =
     Inr (mkProject [(''web'', mkService ''web'' [] []), (''debug'', mkService ''debug'' [''dbg''] [])] []
            \<lparr>Profiles := [''dbg'']\<rparr>) \<and>
   WithProfiles profiled [''dbg'', ''*''] = Inr profiled"
  using WithProfiles_partition[of profiled "[''dbg'']"]
        WithProfiles_partition[of profiled "[''dbg'', ''*'']"]
  by (simp add: profiled_def mkProject_def mkService_def gomap_def WithProfiles_def deepCopy_def
        AllServices_def HasProfile_def)

text \<open>
  The wildcard does not enable a disabled service: \<open>debug\<close> is still disabled after
  \<open>WithProfiles\<close> with \<open>*\<close>.
\<close>

theorem WithProfiles_wildcard_counterexample:
  "WithProfiles profiled [''*''] = Inr profiled \<and> map fst (DisabledServices profiled) = [''debug'']"
  by (simp add: profiled_def mkProject_def WithProfiles_def deepCopy_def)

subsection \<open>Disabling, walking, selecting\<close>

lemma strip1_id: "map_of (DependsOn s) name = None \<Longrightarrow> strip1 name s = s"
  by (simp add: strip1_def delete_id map_of_eq_None_iff)

lemma fold_cond_update_map_of:
  "distinct (map fst xs) \<Longrightarrow>
   map_of (fold (\<lambda>(i, s) m. if Q s then AList.update i (f s) m else m) xs m) k =
     (case map_of xs k of
        Some s \<Rightarrow> if Q s then Some (f s) else map_of m k
      | None \<Rightarrow> map_of m k)"
proof (induction xs arbitrary: m)
  case Nil then show ?case by simp
next
  case (Cons x xs)
  obtain i s where x: "x = (i, s)" by (cases x)
  have n: "map_of xs i = None" using Cons.prems x by (simp add: map_of_eq_None_iff)
  show ?case using Cons x n by (auto simp: update_conv' split: option.splits)
qed

lemma fold_cond_update_keys:
  "fst ` set xs \<subseteq> fst ` set m \<Longrightarrow>
   map fst (fold (\<lambda>(i, s) m. if Q s then AList.update i (f s) m else m) xs m) = map fst m"
proof (induction xs arbitrary: m)
  case Nil then show ?case by simp
next
  case (Cons x xs)
  obtain i s where x: "x = (i, s)" by (cases x)
  have i: "i \<in> fst ` set m" using Cons.prems x by auto
  then have k: "map fst (AList.update i (f s) m) = map fst m"
    by (simp add: update_keys)
  have "fst ` set xs \<subseteq> fst ` set (AList.update i (f s) m)"
    using Cons.prems by (auto simp: dom_update)
  then show ?case using Cons.IH[of "AList.update i (f s) m"] Cons.IH[of m] Cons.prems x k
    by auto
qed

lemma stripDependency_map_of:
  assumes "gomap services"
  shows "map_of (stripDependency name services) k = map_option (strip1 name) (map_of services k)"
proof -
  have "map_of (stripDependency name services) k =
      (case map_of services k of
        Some s \<Rightarrow> if map_of (DependsOn s) name \<noteq> None then Some (strip1 name s) else map_of services k
      | None \<Rightarrow> map_of services k)"
    unfolding stripDependency_def strip1_def[symmetric]
    using assms fold_cond_update_map_of[of services "\<lambda>s. map_of (DependsOn s) name \<noteq> None" "strip1 name" services k]
    by (simp add: gomap_def)
  then show ?thesis by (auto split: option.splits simp: strip1_id)
qed

lemma stripDependency_keys: "map fst (stripDependency name services) = map fst services"
  unfolding stripDependency_def by (rule fold_cond_update_keys) simp

lemma delete_filter: "AList.delete name xs = filter (\<lambda>(d, _). d \<notin> {name}) xs"
  by (induction xs) auto

lemma filter_filter_notin:
  "filter (\<lambda>(d, _). d \<notin> A) (filter (\<lambda>(d, _). d \<notin> B) xs) = filter (\<lambda>(d, _). d \<notin> A \<union> B) xs"
  by (induction xs) auto

lemma strip1_dropEdges: "strip1 name = dropEdges {name}"
  by (rule ext) (simp add: strip1_def dropEdges_def delete_filter)

lemma dropEdges_dropEdges: "dropEdges A (dropEdges B s) = dropEdges (A \<union> B) s"
  by (simp add: dropEdges_def split_def conj_commute)

lemma dropEdges_empty: "dropEdges {} = id"
  by (rule ext) (simp add: dropEdges_def split_def)

lemma map_fst_delete: "map fst (AList.delete k xs) = removeAll k (map fst xs)"
  by (induction xs) auto

lemma keys_map_of: "k \<in> keys m \<longleftrightarrow> map_of m k \<noteq> None"
  by (simp add: keys_def map_of_eq_None_iff)

lemma disableService_Services_map_of:
  assumes "gomap (Services np)"
  shows "map_of (Services (disableService n np)) k =
           (if k = n then None else map_option (dropEdges {n}) (map_of (Services np) k))"
  using assms
  by (auto simp: disableService_def Let_def stripDependency_map_of strip1_dropEdges delete_conv'
           split: option.splits)

lemma disableService_Services_keys:
  "map fst (Services (disableService n np)) = removeAll n (map fst (Services np))"
proof (cases "map_of (stripDependency n (Services np)) n")
  case None
  then have "n \<notin> set (map fst (stripDependency n (Services np)))"
    by (simp add: map_of_eq_None_iff)
  then have "n \<notin> set (map fst (Services np))" by (simp add: stripDependency_keys)
  then show ?thesis using None
    by (simp add: disableService_def Let_def stripDependency_keys)
next
  case (Some a)
  then show ?thesis
    by (simp add: disableService_def Let_def stripDependency_keys map_fst_delete)
qed

lemma disableService_Disabled_map_of:
  assumes "gomap (Services np)"
  shows "map_of (DisabledServices (disableService n np)) k =
           (if k = n \<and> n \<in> keys (Services np)
            then map_option (dropEdges {n}) (map_of (Services np) n)
            else map_of (DisabledServices np) k)"
  using assms
  by (auto simp: disableService_def Let_def stripDependency_map_of strip1_dropEdges update_conv'
                 keys_map_of
           split: option.splits)

lemma disableService_gomap:
  "gomap (Services np) \<Longrightarrow> gomap (Services (disableService n np))"
  "gomap (DisabledServices np) \<Longrightarrow> gomap (DisabledServices (disableService n np))"
  by (auto simp: gomap_def disableService_Services_keys distinct_removeAll
        disableService_def Let_def distinct_update stripDependency_keys distinct_delete
        split: option.splits)

lemma disableService_others:
  "(disableService n np)\<lparr>Services := Services np, DisabledServices := DisabledServices np\<rparr> = np"
  by (simp add: disableService_def Let_def split: option.splits)

lemma fold_disableService:
  assumes "gomap (Services np)"
  shows "gomap (Services (fold disableService ns np)) \<and>
         map fst (Services (fold disableService ns np)) = filter (\<lambda>k. k \<notin> set ns) (map fst (Services np)) \<and>
         (\<forall>k. map_of (Services (fold disableService ns np)) k =
            (if k \<in> set ns then None else map_option (dropEdges (set ns)) (map_of (Services np) k))) \<and>
         (\<forall>k. map_of (DisabledServices (fold disableService ns np)) k =
            (if k \<in> set ns \<and> k \<in> keys (Services np)
             then map_option (dropEdges (set (upToFirst k ns))) (map_of (Services np) k)
             else map_of (DisabledServices np) k)) \<and>
         (fold disableService ns np)\<lparr>Services := Services np, DisabledServices := DisabledServices np\<rparr> = np"
  using assms
proof (induction ns arbitrary: np)
  case Nil
  then show ?case by (simp add: dropEdges_empty option.map_id)
next
  case (Cons n ns)
  let ?np1 = "disableService n np"
  let ?r = "fold disableService ns ?np1"
  have g1: "gomap (Services ?np1)" using Cons.prems by (rule disableService_gomap)
  note IH = Cons.IH[OF g1]
  have k1: "map fst (Services ?np1) = removeAll n (map fst (Services np))"
    by (rule disableService_Services_keys)
  have keys1: "keys (Services ?np1) = keys (Services np) - {n}"
    using k1 by (metis keys_def set_map set_removeAll)
  have m1: "map_of (Services ?np1) k =
           (if k = n then None else map_option (dropEdges {n}) (map_of (Services np) k))" for k
    using Cons.prems by (rule disableService_Services_map_of)
  have d1: "map_of (DisabledServices ?np1) k =
           (if k = n \<and> n \<in> keys (Services np)
            then map_option (dropEdges {n}) (map_of (Services np) n)
            else map_of (DisabledServices np) k)" for k
    using Cons.prems by (rule disableService_Disabled_map_of)
  have c1: "gomap (Services (fold disableService (n # ns) np))" using IH by simp
  have c2: "map fst (Services (fold disableService (n # ns) np)) =
              filter (\<lambda>k. k \<notin> set (n # ns)) (map fst (Services np))"
    using IH k1 by (simp add: removeAll_filter_not_eq conj_commute eq_commute)
  have c3: "map_of (Services (fold disableService (n # ns) np)) k =
            (if k \<in> set (n # ns) then None
             else map_option (dropEdges (set (n # ns))) (map_of (Services np) k))" for k
    using IH m1[of k]
    by (auto simp: option.map_comp comp_def dropEdges_dropEdges Un_commute)
  have c4: "map_of (DisabledServices (fold disableService (n # ns) np)) k =
            (if k \<in> set (n # ns) \<and> k \<in> keys (Services np)
             then map_option (dropEdges (set (upToFirst k (n # ns)))) (map_of (Services np) k)
             else map_of (DisabledServices np) k)" for k
  proof (cases "k = n")
    case True
    then have "map_of (DisabledServices ?r) k = map_of (DisabledServices ?np1) k"
      using IH keys1 by simp
    then show ?thesis using True d1[of k] by (simp add: upToFirst_def)
  next
    case False
    have u: "set (upToFirst k (n # ns)) = set (upToFirst k ns) \<union> {n}"
      using False by (auto simp: upToFirst_def)
    show ?thesis
    proof (cases "k \<in> set ns \<and> k \<in> keys (Services np)")
      case True
      then have "map_of (DisabledServices ?r) k =
                 map_option (dropEdges (set (upToFirst k ns))) (map_of (Services ?np1) k)"
        using IH keys1 False by simp
      then show ?thesis using True False m1[of k] u
        by (simp add: option.map_comp comp_def dropEdges_dropEdges)
    next
      case False2: False
      then have "map_of (DisabledServices ?r) k = map_of (DisabledServices ?np1) k"
        using IH keys1 False by auto
      then show ?thesis using False2 False d1[of k] by auto
    qed
  qed
  have c5: "(fold disableService (n # ns) np)\<lparr>Services := Services np, DisabledServices := DisabledServices np\<rparr> = np"
  proof -
    have "?r\<lparr>Services := Services ?np1, DisabledServices := DisabledServices ?np1\<rparr> = ?np1"
      using IH by simp
    then have "?r\<lparr>Services := Services np, DisabledServices := DisabledServices np\<rparr>
             = ?np1\<lparr>Services := Services np, DisabledServices := DisabledServices np\<rparr>"
      by (metis (no_types) Project.update_convs(3) Project.update_convs(10) Project.surjective)
    then show ?thesis using disableService_others[where n=n and np=np] by simp
  qed
  show ?case using c1 c2 c3 c4 c5 by blast
qed

lemma set_update_subset: "set (AList.update k v al) \<subseteq> insert (k, v) (set al)"
  by (induction al) auto

lemma getServicesByNames_fold:
  assumes "\<forall>(n, s) \<in> set acc. map_of (Services p) n = Some s"
  shows "(case fold (\<lambda>name (services, servicesNotFound).
                   case map_of (Services p) name of
                     None \<Rightarrow> (services, servicesNotFound @ [name])
                   | Some service \<Rightarrow> (AList.update name service services, servicesNotFound))
             names (acc, nf) of (services, nf') \<Rightarrow>
           (\<forall>(n, s) \<in> set services. map_of (Services p) n = Some s) \<and>
           keys services = keys acc \<union> (set names \<inter> keys (Services p)) \<and>
           nf' = nf @ filter (\<lambda>n. n \<notin> keys (Services p)) names)"
  using assms
proof (induction names arbitrary: acc nf)
  case Nil then show ?case by simp
next
  case (Cons n ns)
  show ?case
  proof (cases "map_of (Services p) n")
    case None
    then have "n \<notin> keys (Services p)" by (simp add: keys_map_of)
    then show ?thesis using Cons.IH[OF Cons.prems, of "nf @ [n]"] None
      by (auto split: prod.splits)
  next
    case (Some s)
    then have k: "n \<in> keys (Services p)" by (simp add: keys_map_of)
    have "\<forall>(n', s') \<in> set (AList.update n s acc). map_of (Services p) n' = Some s'"
      using Cons.prems Some set_update_subset[of n s acc] by auto
    from Cons.IH[OF this, of nf] show ?thesis using Some k
      by (auto split: prod.splits simp: keys_update)
  qed
qed

lemma getServicesByNames_spec:
  assumes "gomap (Services p)" and "getServicesByNames p names = (services, nf)"
  shows "entries p services" and "keys services = roots p names"
    and "nf = filter (\<lambda>n. n \<notin> keys (Services p)) names"
proof -
  show "entries p services"
  proof (cases "names = []")
    case True
    then show ?thesis using assms by (auto simp: getServicesByNames_def entries_def gomap_def)
  next
    case False
    then show ?thesis
      using assms(2) getServicesByNames_fold[of "[]" p names "[]"]
      by (auto simp: getServicesByNames_def entries_def)
  qed
  show "keys services = roots p names"
  proof (cases "names = []")
    case True
    then show ?thesis using assms by (auto simp: getServicesByNames_def roots_def)
  next
    case False
    then show ?thesis
      using assms(2) getServicesByNames_fold[of "[]" p names "[]"]
      by (auto simp: getServicesByNames_def roots_def keys_Nil)
  qed
  show "nf = filter (\<lambda>n. n \<notin> keys (Services p)) names"
  proof (cases "names = []")
    case True
    then show ?thesis using assms by (auto simp: getServicesByNames_def)
  next
    case False
    then show ?thesis
      using assms(2) getServicesByNames_fold[of "[]" p names "[]"]
      by (auto simp: getServicesByNames_def)
  qed
qed

lemma notFoundError_find:
  "notFoundError nf deps =
     map_option NoSuchService (find (\<lambda>n. \<not> optionalIn deps n) nf)"
proof -
  have "(\<lambda>n. case map_of deps n of None \<Rightarrow> True | Some d \<Rightarrow> Required d)
          = (\<lambda>n. \<not> optionalIn deps n)"
    by (auto simp: optionalIn_def fun_eq_iff split: option.splits)
  then show ?thesis by (simp add: notFoundError_def split: option.splits)
qed

lemma notFoundError_None:
  "notFoundError nf deps = None \<longleftrightarrow> (\<forall>n \<in> set nf. optionalIn deps n)"
  by (auto simp: notFoundError_find find_None_iff)

lemma notFoundError_Some:
  "notFoundError nf deps = Some e \<Longrightarrow> \<exists>z \<in> set nf. e = NoSuchService z \<and> \<not> optionalIn deps z"
  by (auto simp: notFoundError_find find_Some_iff)

lemma withServices_range_Cons_unseen:
  assumes "name \<notin> seen"
  shows "withServices_range p ((name, service) # rest) fn seen options st =
     (case (if serviceDependencies p options service \<noteq> []
            then withServices p (MapKeys (serviceDependencies p options service)) fn
                   (insert name seen) options (serviceDependencies p options service) st
            else Inr (insert name seen, st)) of
        Inl err \<Rightarrow> Inl err
      | Inr (seen2, st2) \<Rightarrow>
          (case fn name service st2 of
             Inl err \<Rightarrow> Inl err
           | Inr st3 \<Rightarrow> withServices_range p rest fn seen2 options st3))"
  unfolding withServices_range.simps ServiceConfig_deepCopy_def Let_def
  using assms by (simp del: withServices.simps)

lemma withServices_unfold:
  "withServices p names fn seen options dependencies st =
     (case notFoundError (filter (\<lambda>n. n \<notin> keys (Services p)) names) dependencies of
        Some err \<Rightarrow> Inl err
      | None \<Rightarrow> withServices_range p (fst (getServicesByNames p names)) fn seen options st)"
  if "gomap (Services p)"
proof -
  obtain services nf where g: "getServicesByNames p names = (services, nf)"
    by (cases "getServicesByNames p names")
  from getServicesByNames_spec(3)[OF that g] show ?thesis using g
    by (simp add: withServices.simps split: option.splits)
qed

lemma successors_edges:
  "map_of (Services p) x = Some s \<Longrightarrow>
   keys (serviceDependencies p options s) \<inter> keys (Services p) = (edges p options) `` {x}"
  by (auto simp: edges_def successors_def)

lemma walked_step:
  assumes x: "map_of (Services p) name = Some service" and ns: "name \<notin> seen"
    and sub: "walked p options (keys (serviceDependencies p options service) \<inter> keys (Services p))
                (insert name seen) seen2"
    and ok: "depsResolve p options name"
    and rest: "walked p options (keys rest) seen2 seen'"
  shows "walked p options (keys ((name, service) # rest)) seen seen'"
proof -
  let ?E = "edges p options"
  have succ: "successors p options name \<inter> keys (Services p) = ?E `` {name}"
    using x by (auto simp: edges_def successors_def)
  have k: "name \<in> keys (Services p)" using x by (simp add: keys_map_of)
  have a: "seen \<subseteq> seen'" using sub rest by (auto simp: walked_def)
  have b: "keys ((name, service) # rest) \<subseteq> seen'"
    using sub rest by (auto simp: walked_def keys_Cons)
  have c: "x \<in> keys (Services p) \<and> successors p options x \<inter> keys (Services p) \<subseteq> seen' \<and>
           depsResolve p options x" if xin: "x \<in> seen' - seen" for x
  proof -
    consider "x = name" | "x \<in> seen2 - insert name seen" | "x \<in> seen' - seen2"
      using xin by blast
    then show ?thesis
    proof cases
      case 1
      have "successors p options name \<inter> keys (Services p) \<subseteq> seen2"
        using sub x by (auto simp: walked_def successors_def)
      then show ?thesis using 1 k ok rest by (auto simp: walked_def)
    next
      case 2
      then show ?thesis using sub rest unfolding walked_def by blast
    next
      case 3
      then show ?thesis using rest unfolding walked_def by blast
    qed
  qed
  have d: "seen' - seen \<subseteq> ?E\<^sup>* `` keys ((name, service) # rest)"
  proof
    fix x assume "x \<in> seen' - seen"
    then consider "x = name" | "x \<in> seen2 - insert name seen" | "x \<in> seen' - seen2"
      by blast
    then show "x \<in> ?E\<^sup>* `` keys ((name, service) # rest)"
    proof cases
      case 1
      then show ?thesis by (auto simp: keys_Cons)
    next
      case 2
      then have "x \<in> ?E\<^sup>* `` (?E `` {name})"
        using sub succ x unfolding walked_def successors_def by auto
      then obtain y where "(name, y) \<in> ?E" "(y, x) \<in> ?E\<^sup>*" by auto
      then have "(name, x) \<in> ?E\<^sup>*" by (meson converse_rtrancl_into_rtrancl)
      then show ?thesis by (auto simp: keys_Cons)
    next
      case 3
      then have "x \<in> ?E\<^sup>* `` keys rest" using rest unfolding walked_def by blast
      then show ?thesis by (auto simp: keys_Cons)
    qed
  qed
  show ?thesis unfolding walked_def using a b c d by blast
qed

lemma entries_Cons:
  "entries p ((name, service) # rest) \<longleftrightarrow> map_of (Services p) name = Some service \<and> entries p rest"
  by (auto simp: entries_def)

lemma withServices_walked:
  "gomap (Services p) \<Longrightarrow>
     withServices p names fn seen options dependencies st = Inr (seen', st') \<Longrightarrow>
     walked p options (roots p names) seen seen' \<and>
     (\<forall>n \<in> set names. n \<in> keys (Services p) \<or> optionalIn dependencies n)"
  "gomap (Services p) \<Longrightarrow> entries p services \<Longrightarrow>
     withServices_range p services fn seen options st = Inr (seen', st') \<Longrightarrow>
     walked p options (keys services) seen seen'"
proof (induction p names fn seen options dependencies st and p services fn seen options st
       arbitrary: seen' st' and seen' st'
       rule: withServices_withServices_range.induct)
  case (1 p names fn seen options dependencies st)
  obtain services nf where g: "getServicesByNames p names = (services, nf)"
    by (cases "getServicesByNames p names")
  note spec = getServicesByNames_spec[OF "1.prems"(1) g]
  from "1.prems"(2) g have nf: "notFoundError nf dependencies = None"
    and r: "withServices_range p services fn seen options st = Inr (seen', st')"
    by (auto simp: withServices.simps split: option.splits)
  have "walked p options (keys services) seen seen'"
    using "1.IH"[OF g[symmetric] nf "1.prems"(1) spec(1) r] .
  moreover have "\<forall>n \<in> set names. n \<in> keys (Services p) \<or> optionalIn dependencies n"
    using nf spec(3) by (auto simp: notFoundError_None)
  ultimately show ?case using spec(2) by simp
next
  case (2 p fn seen options st)
  then show ?case by (auto simp: walked_def keys_Nil)
next
  case (3 p name service rest fn seen options st)
  from "3.prems"(2) have x: "map_of (Services p) name = Some service" and er: "entries p rest"
    by (simp_all add: entries_Cons)
  show ?case
  proof (cases "name \<in> seen")
    case True
    then have "withServices_range p rest fn seen options st = Inr (seen', st')"
      using "3.prems"(3) by simp
    from "3.IH"(1)[OF True "3.prems"(1) er this]
    show ?thesis using True by (auto simp: walked_def keys_Cons)
  next
    case False
    let ?deps = "serviceDependencies p options service"
    let ?sub = "if 0 < length ?deps
                then withServices p (MapKeys ?deps) fn (insert name seen) options ?deps st
                else Inr (insert name seen, st)"
    from "3.prems"(3) False obtain seen2 st2 st3 where
      sub: "?sub = Inr (seen2, st2)" and
      f: "fn name (ServiceConfig_deepCopy service) st2 = Inr st3" and
      l: "withServices_range p rest fn seen2 options st3 = Inr (seen', st')"
      by (auto simp: Let_def split: sum.splits prod.splits if_splits)
    have w2: "walked p options (keys rest) seen2 seen'"
      using "3.IH"(3)[OF False refl refl sub refl f "3.prems"(1) er l] .
    have w1: "walked p options (keys ?deps \<inter> keys (Services p)) (insert name seen) seen2
              \<and> depsResolve p options name"
    proof (cases "0 < length ?deps")
      case True
      then have s: "withServices p (MapKeys ?deps) fn (insert name seen) options ?deps st = Inr (seen2, st2)"
        using sub by simp
      have ne: "MapKeys ?deps \<noteq> []" using True by (simp add: MapKeys_def)
      from "3.IH"(2)[OF False refl refl True "3.prems"(1) s]
      show ?thesis using ne x
        by (auto simp: roots_def MapKeys_def keys_def depsResolve_def)
    next
      case False
      then show ?thesis using sub x
        by (auto simp: walked_def keys_Nil depsResolve_def)
    qed
    show ?thesis using walked_step[OF x False _ _ w2] w1 by blast
  qed
qed

lemma walked_closure:
  assumes "walked p options R {} seen'"
  shows "seen' = (edges p options)\<^sup>* `` R"
proof
  show "seen' \<subseteq> (edges p options)\<^sup>* `` R" using assms by (auto simp: walked_def)
  have cl: "y \<in> seen'" if "x \<in> seen'" "(x, y) \<in> edges p options" for x y
    using assms that by (auto simp: walked_def edges_def)
  have "y \<in> seen'" if "(x, y) \<in> (edges p options)\<^sup>*" "x \<in> seen'" for x y
    using that by (induction rule: rtrancl_induct) (auto intro: cl)
  moreover have "R \<subseteq> seen'" using assms by (simp add: walked_def)
  ultimately show "(edges p options)\<^sup>* `` R \<subseteq> seen'" by auto
qed

lemma withServices_succeeds:
  "gomap (Services p) \<Longrightarrow> neverFails fn \<Longrightarrow>
     (\<forall>n \<in> set names. n \<in> keys (Services p) \<or> optionalIn dependencies n) \<Longrightarrow>
     (\<forall>x \<in> (edges p options)\<^sup>* `` roots p names. depsResolve p options x) \<Longrightarrow>
     \<exists>r. withServices p names fn seen options dependencies st = Inr r"
  "gomap (Services p) \<Longrightarrow> neverFails fn \<Longrightarrow> entries p services \<Longrightarrow>
     (\<forall>x \<in> (edges p options)\<^sup>* `` keys services. depsResolve p options x) \<Longrightarrow>
     \<exists>r. withServices_range p services fn seen options st = Inr r"
proof (induction p names fn seen options dependencies st and p services fn seen options st
       rule: withServices_withServices_range.induct)
  case (1 p names fn seen options dependencies st)
  obtain services nf where g: "getServicesByNames p names = (services, nf)"
    by (cases "getServicesByNames p names")
  note spec = getServicesByNames_spec[OF "1.prems"(1) g]
  have nf: "notFoundError nf dependencies = None"
    using "1.prems"(3) spec(3) by (auto simp: notFoundError_None)
  have "\<exists>r. withServices_range p services fn seen options st = Inr r"
    using "1.IH"[OF g[symmetric] nf "1.prems"(1,2) spec(1)] "1.prems"(4) spec(2) by simp
  then show ?case using g nf by (simp add: withServices.simps)
next
  case (2 p fn seen options st)
  then show ?case by simp
next
  case (3 p name service rest fn seen options st)
  let ?E = "edges p options"
  from "3.prems"(3) have x: "map_of (Services p) name = Some service" and er: "entries p rest"
    by (simp_all add: entries_Cons)
  have rest_ok: "\<forall>x \<in> ?E\<^sup>* `` keys rest. depsResolve p options x"
    using "3.prems"(4) by (auto simp: keys_Cons)
  show ?case
  proof (cases "name \<in> seen")
    case True
    then show ?thesis using "3.IH"(1)[OF True "3.prems"(1,2) er rest_ok] by simp
  next
    case False
    let ?deps = "serviceDependencies p options service"
    let ?sub = "if 0 < length ?deps
                then withServices p (MapKeys ?deps) fn (insert name seen) options ?deps st
                else Inr (insert name seen, st)"
    have ok: "depsResolve p options name" using "3.prems"(4) by (auto simp: keys_Cons)
    have "\<exists>r. ?sub = Inr r"
    proof (cases "0 < length ?deps")
      case True
      have a: "\<forall>n \<in> set (MapKeys ?deps). n \<in> keys (Services p) \<or> optionalIn ?deps n"
        using ok x by (auto simp: depsResolve_def MapKeys_def keys_def)
      have "roots p (MapKeys ?deps) \<subseteq> ?E `` {name}"
        using x True by (auto simp: roots_def MapKeys_def edges_def successors_def keys_def split: if_splits)
      then have "?E\<^sup>* `` roots p (MapKeys ?deps) \<subseteq> ?E\<^sup>* `` keys ((name, service) # rest)"
        by (auto simp: keys_Cons intro: converse_rtrancl_into_rtrancl)
      then have b: "\<forall>x \<in> ?E\<^sup>* `` roots p (MapKeys ?deps). depsResolve p options x"
        using "3.prems"(4) by blast
      show ?thesis using "3.IH"(2)[OF False refl refl True "3.prems"(1,2) a b] True by simp
    next
      case False
      then show ?thesis by simp
    qed
    then obtain seen2 st2 where sub: "?sub = Inr (seen2, st2)" by auto
    obtain st3 where f: "fn name (ServiceConfig_deepCopy service) st2 = Inr st3"
      using "3.prems"(2) unfolding neverFails_def by blast
    have "\<exists>r. withServices_range p rest fn seen2 options st3 = Inr r"
      using "3.IH"(3)[OF False refl refl sub refl f "3.prems"(1,2) er rest_ok] .
    then show ?thesis using False sub f by (auto simp: Let_def)
  qed
qed

text \<open>With a visitor that does not fail, a failure is a missing service.\<close>

lemma withServices_fails:
  "gomap (Services p) \<Longrightarrow> neverFails fn \<Longrightarrow>
     withServices p names fn seen options dependencies st = Inl e \<Longrightarrow>
     \<exists>z. e = NoSuchService z \<and> z \<notin> keys (Services p)"
  "gomap (Services p) \<Longrightarrow> neverFails fn \<Longrightarrow>
     withServices_range p services fn seen options st = Inl e \<Longrightarrow>
     \<exists>z. e = NoSuchService z \<and> z \<notin> keys (Services p)"
proof (induction p names fn seen options dependencies st and p services fn seen options st
       rule: withServices_withServices_range.induct)
  case (1 p names fn seen options dependencies st)
  obtain services nf where g: "getServicesByNames p names = (services, nf)"
    by (cases "getServicesByNames p names")
  note spec = getServicesByNames_spec[OF "1.prems"(1) g]
  show ?case
  proof (cases "notFoundError nf dependencies")
    case None
    then have "withServices_range p services fn seen options st = Inl e"
      using "1.prems"(3) g by (simp add: withServices.simps)
    then show ?thesis using "1.IH"[OF g[symmetric] None "1.prems"(1,2)] by simp
  next
    case (Some e')
    then have "e' = e" using "1.prems"(3) g by (simp add: withServices.simps)
    then show ?thesis using notFoundError_Some[OF Some] spec(3) by auto
  qed
next
  case (2 p fn seen options st)
  then show ?case by simp
next
  case (3 p name service rest fn seen options st)
  show ?case
  proof (cases "name \<in> seen")
    case True
    then show ?thesis using "3.IH"(1)[OF True "3.prems"(1,2)] "3.prems"(3) by simp
  next
    case False
    let ?deps = "serviceDependencies p options service"
    let ?sub = "if 0 < length ?deps
                then withServices p (MapKeys ?deps) fn (insert name seen) options ?deps st
                else Inr (insert name seen, st)"
    show ?thesis
    proof (cases ?sub)
      case (Inl e')
      then have t: "0 < length ?deps" by (auto split: if_splits)
      have "e' = e" using "3.prems"(3) False Inl by (simp add: Let_def)
      then show ?thesis using "3.IH"(2)[OF False refl refl t "3.prems"(1,2)] Inl t by simp
    next
      case (Inr r)
      obtain seen2 st2 where r: "r = (seen2, st2)" by (cases r)
      obtain st3 where f: "fn name (ServiceConfig_deepCopy service) st2 = Inr st3"
        using "3.prems"(2) unfolding neverFails_def by blast
      have "withServices_range p rest fn seen2 options st3 = Inl e"
        using "3.prems"(3) False Inr r f by (simp add: Let_def)
      then show ?thesis using "3.IH"(3)[OF False refl refl _ refl f "3.prems"(1,2)] Inr r by simp
    qed
  qed
qed

lemma tracks_recording: "tracks (recording fn) fst"
  by (auto simp: tracks_def recording_def split: sum.splits)

lemma before_append:
  "x \<in> set l \<Longrightarrow> before l y x \<Longrightarrow> before (l @ l') y x"
  by (simp add: before_def takeWhile_append1)

lemma takeWhile_neq_append:
  "x \<notin> set l \<Longrightarrow> takeWhile (\<lambda>z. z \<noteq> x) (l @ l') = l @ takeWhile (\<lambda>z. z \<noteq> x) l'"
  by (rule takeWhile_append2) auto

lemma before_old:
  "y \<in> set l \<Longrightarrow> x \<notin> set l \<Longrightarrow> before (l @ x # l') y x"
  by (simp add: before_def takeWhile_neq_append)

lemma before_append_new:
  "x \<notin> set l \<Longrightarrow> before l' y x \<Longrightarrow> before (l @ l') y x"
  by (simp add: before_def takeWhile_neq_append)

lemma logged_refl: "logged p options seen seen log log"
  by (auto simp: logged_def entries_def intro!: exI[of _ "[]"])

lemma logged_trans:
  assumes "logged p options seen seen2 log log2" "logged p options seen2 seen' log2 log'"
    and "seen \<subseteq> seen2" "seen2 \<subseteq> seen'" "set (map fst log) \<subseteq> seen"
  shows "logged p options seen seen' log log'"
proof -
  from assms(1) obtain n1 where n1: "log2 = log @ n1" "distinct (map fst n1)"
    "set (map fst n1) = seen2 - seen" "entries p n1"
    "acyclic (edges p options) \<longrightarrow>
       (\<forall>x \<in> set (map fst n1). \<forall>y. (x, y) \<in> edges p options \<longrightarrow> before (map fst log2) y x)"
    unfolding logged_def by blast
  from assms(2) obtain n2 where n2: "log' = log2 @ n2" "distinct (map fst n2)"
    "set (map fst n2) = seen' - seen2" "entries p n2"
    "acyclic (edges p options) \<longrightarrow>
       (\<forall>x \<in> set (map fst n2). \<forall>y. (x, y) \<in> edges p options \<longrightarrow> before (map fst log') y x)"
    unfolding logged_def by blast
  have a: "log' = log @ (n1 @ n2)" using n1 n2 by simp
  have b: "distinct (map fst (n1 @ n2))" using n1 n2 by auto
  have c: "set (map fst (n1 @ n2)) = seen' - seen" using n1 n2 assms(3,4) by auto
  have d: "entries p (n1 @ n2)" using n1 n2 by (auto simp: entries_def)
  have e: "before (map fst log') y x"
    if "acyclic (edges p options)" "x \<in> set (map fst (n1 @ n2))" "(x, y) \<in> edges p options" for x y
  proof (cases "x \<in> set (map fst n1)")
    case True
    then have "before (map fst log2) y x" using n1 that by blast
    moreover have "x \<in> set (map fst log2)" using True n1 by auto
    ultimately show ?thesis using n2(1) before_append[of x "map fst log2" y "map fst n2"] by simp
  next
    case False
    then have "x \<in> set (map fst n2)" using that by auto
    then show ?thesis using n2 that by blast
  qed
  show ?thesis unfolding logged_def using a b c d e by blast
qed

lemma inProgress_descend:
  assumes "inProgress p options R seen log" "name \<in> R"
  shows "inProgress p options (edges p options `` {name}) (insert name seen) log"
  unfolding inProgress_def
proof (intro conjI ballI)
  show "set (map fst log) \<subseteq> insert name seen" using assms by (auto simp: inProgress_def)
next
  fix y n
  assume y: "y \<in> insert name seen - set (map fst log)" and n: "n \<in> edges p options `` {name}"
  show "(y, n) \<in> (edges p options)\<^sup>+"
  proof (cases "y = name")
    case True
    then show ?thesis using n by auto
  next
    case False
    then have "(y, name) \<in> (edges p options)\<^sup>+" using y assms by (auto simp: inProgress_def)
    then show ?thesis using n by (auto intro: trancl_into_trancl)
  qed
qed

lemma inProgress_mono: "inProgress p options R seen log \<Longrightarrow> R' \<subseteq> R \<Longrightarrow> inProgress p options R' seen log"
  by (auto simp: inProgress_def)

lemma logged_visit:
  assumes x: "map_of (Services p) name = Some service" and ns: "name \<notin> seen"
    and pre: "inProgress p options R seen log" and r: "name \<in> R"
    and w1: "walked p options (edges p options `` {name}) (insert name seen) seen2"
    and l1: "logged p options (insert name seen) seen2 log log2"
  shows "logged p options seen seen2 log (log2 @ [(name, service)])"
    and "inProgress p options R seen2 (log2 @ [(name, service)])"
proof -
  let ?E = "edges p options"
  from l1 obtain n1 where n1: "log2 = log @ n1" "distinct (map fst n1)"
    "set (map fst n1) = seen2 - insert name seen" "entries p n1"
    "acyclic ?E \<longrightarrow> (\<forall>x \<in> set (map fst n1). \<forall>y. (x, y) \<in> ?E \<longrightarrow> before (map fst log2) y x)"
    unfolding logged_def by blast
  have s12: "insert name seen \<subseteq> seen2" using w1 by (simp add: walked_def)
  have lg: "set (map fst log) \<subseteq> seen" using pre by (simp add: inProgress_def)
  have nl: "name \<notin> set (map fst log2)" using n1 lg ns by auto
  let ?new = "n1 @ [(name, service)]"
  have a: "log2 @ [(name, service)] = log @ ?new" using n1 by simp
  have b: "distinct (map fst ?new)" using n1 by auto
  have c: "set (map fst ?new) = seen2 - seen" using n1 s12 ns by auto
  have d: "entries p ?new" using n1 x by (auto simp: entries_def)
  have e: "before (map fst (log2 @ [(name, service)])) y z"
    if ac: "acyclic ?E" and z: "z \<in> set (map fst ?new)" and zy: "(z, y) \<in> ?E" for z y
  proof (cases "z = name")
    case False
    then have zin: "z \<in> set (map fst n1)" using z by auto
    then have "before (map fst log2) y z" using n1 zy ac by blast
    moreover have "z \<in> set (map fst log2)" using zin n1 by auto
    ultimately show ?thesis using before_append[of z "map fst log2" y "[name]"] by simp
  next
    case True
    have "y \<in> seen2" using w1 zy True by (auto simp: walked_def)
    have "y \<in> set (map fst log2)"
    proof (rule ccontr)
      assume ny: "y \<notin> set (map fst log2)"
      then have "y \<in> insert name seen" using \<open>y \<in> seen2\<close> n1 by auto
      then show False
      proof
        assume "y = name"
        then have "(name, name) \<in> ?E\<^sup>+" using zy True by auto
        then show False using ac by (auto simp: acyclic_def)
      next
        assume "y \<in> seen"
        then have "y \<in> seen - set (map fst log)" using ny n1 by auto
        then have "(y, name) \<in> ?E\<^sup>+" using pre r by (auto simp: inProgress_def)
        then have "(name, name) \<in> ?E\<^sup>+" using zy True by (auto intro: trancl_into_trancl2)
        then show False using ac by (auto simp: acyclic_def)
      qed
    qed
    then show ?thesis using before_old[of y "map fst log2" name "[]"] nl True by simp
  qed
  show "logged p options seen seen2 log (log2 @ [(name, service)])"
    unfolding logged_def using a b c d e by blast
  have "seen2 - set (map fst (log2 @ [(name, service)])) = seen - set (map fst log)"
    using n1 s12 ns lg by auto
  moreover have "set (map fst (log2 @ [(name, service)])) \<subseteq> seen2"
    using n1 s12 lg by auto
  ultimately show "inProgress p options R seen2 (log2 @ [(name, service)])"
    using pre unfolding inProgress_def by simp
qed

lemma withServices_logged:
  "gomap (Services p) \<Longrightarrow> tracks fn lg \<Longrightarrow>
     inProgress p options (roots p names) seen (lg st) \<Longrightarrow>
     withServices p names fn seen options dependencies st = Inr (seen', st') \<Longrightarrow>
     logged p options seen seen' (lg st) (lg st')"
  "gomap (Services p) \<Longrightarrow> tracks fn lg \<Longrightarrow>
     entries p services \<Longrightarrow> inProgress p options (keys services) seen (lg st) \<Longrightarrow>
     withServices_range p services fn seen options st = Inr (seen', st') \<Longrightarrow>
     logged p options seen seen' (lg st) (lg st')"
proof (induction p names fn seen options dependencies st and p services fn seen options st
       arbitrary: seen' st' and seen' st'
       rule: withServices_withServices_range.induct)
  case (1 p names fn seen options dependencies st)
  obtain services nf where g: "getServicesByNames p names = (services, nf)"
    by (cases "getServicesByNames p names")
  note spec = getServicesByNames_spec[OF "1.prems"(1) g]
  from "1.prems"(4) g have nf: "notFoundError nf dependencies = None"
    and r: "withServices_range p services fn seen options st = Inr (seen', st')"
    by (auto simp: withServices.simps split: option.splits)
  show ?case
    using "1.IH"[OF g[symmetric] nf "1.prems"(1,2) spec(1) _ r] "1.prems"(3) spec(2) by simp
next
  case (2 p fn seen options st)
  then show ?case by (simp add: logged_refl)
next
  case (3 p name service rest fn seen options st)
  let ?E = "edges p options"
  from "3.prems"(3) have x: "map_of (Services p) name = Some service" and er: "entries p rest"
    by (simp_all add: entries_Cons)
  have pre_rest: "inProgress p options (keys rest) seen (lg st)"
    using "3.prems"(4) by (rule inProgress_mono) (auto simp: keys_Cons)
  show ?case
  proof (cases "name \<in> seen")
    case True
    then have "withServices_range p rest fn seen options st = Inr (seen', st')"
      using "3.prems"(5) by simp
    from "3.IH"(1)[OF True "3.prems"(1,2) er pre_rest this] show ?thesis .
  next
    case False
    let ?deps = "serviceDependencies p options service"
    let ?sub = "if 0 < length ?deps
                then withServices p (MapKeys ?deps) fn (insert name seen) options ?deps st
                else Inr (insert name seen, st)"
    from "3.prems"(5) False obtain seen2 st2 st3 where
      sub: "?sub = Inr (seen2, st2)" and
      f: "fn name (ServiceConfig_deepCopy service) st2 = Inr st3" and
      l: "withServices_range p rest fn seen2 options st3 = Inr (seen', st')"
      by (auto simp: Let_def split: sum.splits prod.splits if_splits)
    have st3: "lg st3 = lg st2 @ [(name, service)]"
      using f "3.prems"(2) by (auto simp: tracks_def ServiceConfig_deepCopy_def)
    have succ: "keys ?deps \<inter> keys (Services p) = ?E `` {name}"
      using x by (rule successors_edges)
    have nR: "name \<in> keys ((name, service) # rest)" by (simp add: keys_Cons)
    have pre1: "inProgress p options (?E `` {name}) (insert name seen) (lg st)"
      using "3.prems"(4) nR by (rule inProgress_descend)
    have w1: "walked p options (?E `` {name}) (insert name seen) seen2"
     and l1: "logged p options (insert name seen) seen2 (lg st) (lg st2)"
    proof -
      show "walked p options (?E `` {name}) (insert name seen) seen2"
      proof (cases "0 < length ?deps")
        case True
        then have s: "withServices p (MapKeys ?deps) fn (insert name seen) options ?deps st = Inr (seen2, st2)"
          using sub by simp
        have "roots p (MapKeys ?deps) = ?E `` {name}"
          using True succ by (auto simp: roots_def MapKeys_def keys_def)
        then show ?thesis using withServices_walked(1)[OF "3.prems"(1) s] by simp
      next
        case False
        then have "?E `` {name} = {}" using succ by (auto simp: keys_Nil)
        then show ?thesis using sub False by (auto simp: walked_def)
      qed
      show "logged p options (insert name seen) seen2 (lg st) (lg st2)"
      proof (cases "0 < length ?deps")
        case True
        then have s: "withServices p (MapKeys ?deps) fn (insert name seen) options ?deps st = Inr (seen2, st2)"
          using sub by simp
        have "roots p (MapKeys ?deps) = ?E `` {name}"
          using True succ by (auto simp: roots_def MapKeys_def keys_def)
        then show ?thesis
          using "3.IH"(2)[OF False refl refl True "3.prems"(1,2) _ s] pre1 by simp
      next
        case False
        then show ?thesis using sub by (auto simp: logged_refl)
      qed
    qed
    note v = logged_visit[OF x False "3.prems"(4) nR w1 l1]
    have pre3: "inProgress p options (keys rest) seen2 (lg st3)"
      using v(2) st3 by (auto intro: inProgress_mono simp: keys_Cons)
    have l3: "logged p options seen2 seen' (lg st3) (lg st')"
      using "3.IH"(3)[OF False refl refl sub refl f "3.prems"(1,2) er pre3 l] .
    have w2: "walked p options (keys rest) seen2 seen'"
      using withServices_walked(2)[OF "3.prems"(1) er l] .
    show ?thesis
    proof (rule logged_trans)
      show "logged p options seen seen2 (lg st) (lg st3)" using v(1) st3 by simp
      show "logged p options seen2 seen' (lg st3) (lg st')" by (rule l3)
      show "seen \<subseteq> seen2" using w1 by (auto simp: walked_def)
      show "seen2 \<subseteq> seen'" using w2 by (auto simp: walked_def)
      show "set (map fst (lg st)) \<subseteq> seen" using "3.prems"(4) by (simp add: inProgress_def)
    qed
  qed
qed

lemma before_subset:
  "z \<in> set (takeWhile (\<lambda>u. u \<noteq> x) l) \<Longrightarrow>
   set (takeWhile (\<lambda>u. u \<noteq> z) l) \<subseteq> set (takeWhile (\<lambda>u. u \<noteq> x) l)"
proof (induction l)
  case Nil
  then show ?case by simp
next
  case (Cons a l)
  show ?case
  proof (cases "a = z")
    case True
    have "takeWhile (\<lambda>u. u \<noteq> z) (a # l) = []" by (simp add: True)
    then show ?thesis by (simp only: list.set empty_subsetI)
  next
    case False
    have ax: "a \<noteq> x"
    proof
      assume "a = x"
      then have "takeWhile (\<lambda>u. u \<noteq> x) (a # l) = []" by simp
      then show False using Cons.prems by (simp only: list.set empty_iff)
    qed
    then have "takeWhile (\<lambda>u. u \<noteq> x) (a # l) = a # takeWhile (\<lambda>u. u \<noteq> x) l" by simp
    then have "z \<in> set (a # takeWhile (\<lambda>u. u \<noteq> x) l)" using Cons.prems by simp
    then have "z \<in> set (takeWhile (\<lambda>u. u \<noteq> x) l)"
      using False by simp
    then have "set (takeWhile (\<lambda>u. u \<noteq> z) l) \<subseteq> set (takeWhile (\<lambda>u. u \<noteq> x) l)"
      by (rule Cons.IH)
    then show ?thesis using False ax by auto
  qed
qed

lemma before_trans: "before l y z \<Longrightarrow> before l z x \<Longrightarrow> before l y x"
  using before_subset[of z x l] by (auto simp: before_def)

lemma before_in: "before l y x \<Longrightarrow> y \<in> set l"
  by (auto simp: before_def dest: set_takeWhileD)

lemma before_trancl:
  assumes d: "\<forall>x \<in> set l. \<forall>y. (x, y) \<in> E \<longrightarrow> before l y x"
    and xy: "(x, y) \<in> E\<^sup>+" and x: "x \<in> set l"
  shows "before l y x"
  using xy x
proof (induction rule: trancl_induct)
  case (base y)
  then show ?case using d by blast
next
  case (step y z)
  then have "before l y x" by simp
  moreover have "before l z y" using d step before_in[of l y x] by blast
  ultimately show ?case by (blast intro: before_trans)
qed

text \<open>A visitor that collects names ends with the names that were newly marked.\<close>

lemma withServices_collects:
  "gomap (Services p) \<Longrightarrow> (\<forall>n s st st'. fn n s st = Inr st' \<longrightarrow> vw st' = insert n (vw st)) \<Longrightarrow>
     withServices p names fn seen options dependencies st = Inr (seen', st') \<Longrightarrow>
     vw st' = vw st \<union> (seen' - seen)"
  "gomap (Services p) \<Longrightarrow> (\<forall>n s st st'. fn n s st = Inr st' \<longrightarrow> vw st' = insert n (vw st)) \<Longrightarrow>
     entries p services \<Longrightarrow>
     withServices_range p services fn seen options st = Inr (seen', st') \<Longrightarrow>
     vw st' = vw st \<union> (seen' - seen)"
proof (induction p names fn seen options dependencies st and p services fn seen options st
       arbitrary: seen' st' and seen' st'
       rule: withServices_withServices_range.induct)
  case (1 p names fn seen options dependencies st)
  obtain services nf where g: "getServicesByNames p names = (services, nf)"
    by (cases "getServicesByNames p names")
  note spec = getServicesByNames_spec[OF "1.prems"(1) g]
  from "1.prems"(3) g have nf: "notFoundError nf dependencies = None"
    and r: "withServices_range p services fn seen options st = Inr (seen', st')"
    by (auto simp: withServices.simps split: option.splits)
  show ?case using "1.IH"[OF g[symmetric] nf "1.prems"(1,2) spec(1) r] .
next
  case (2 p fn seen options st)
  then show ?case by auto
next
  case (3 p name service rest fn seen options st)
  from "3.prems"(3) have x: "map_of (Services p) name = Some service" and er: "entries p rest"
    by (simp_all add: entries_Cons)
  show ?case
  proof (cases "name \<in> seen")
    case True
    then have "withServices_range p rest fn seen options st = Inr (seen', st')"
      using "3.prems"(4) by simp
    from "3.IH"(1)[OF True "3.prems"(1,2) er this] show ?thesis .
  next
    case False
    let ?deps = "serviceDependencies p options service"
    let ?sub = "if 0 < length ?deps
                then withServices p (MapKeys ?deps) fn (insert name seen) options ?deps st
                else Inr (insert name seen, st)"
    from "3.prems"(4) False obtain seen2 st2 st3 where
      sub: "?sub = Inr (seen2, st2)" and
      f: "fn name (ServiceConfig_deepCopy service) st2 = Inr st3" and
      l: "withServices_range p rest fn seen2 options st3 = Inr (seen', st')"
      by (auto simp: Let_def split: sum.splits prod.splits if_splits)
    have a: "vw st2 = vw st \<union> (seen2 - insert name seen) \<and> insert name seen \<subseteq> seen2"
    proof (cases "0 < length ?deps")
      case True
      then have s: "withServices p (MapKeys ?deps) fn (insert name seen) options ?deps st = Inr (seen2, st2)"
        using sub by simp
      show ?thesis
        using "3.IH"(2)[OF False refl refl True "3.prems"(1,2) s]
              withServices_walked(1)[OF "3.prems"(1) s]
        by (simp add: walked_def)
    next
      case False
      then show ?thesis using sub by auto
    qed
    have b: "vw st3 = insert name (vw st2)" using f "3.prems"(2) by blast
    have c: "vw st' = vw st3 \<union> (seen' - seen2)"
      using "3.IH"(3)[OF False refl refl sub refl f "3.prems"(1,2) er l] .
    have d: "seen2 \<subseteq> seen'"
      using withServices_walked(2)[OF "3.prems"(1) er l] by (simp add: walked_def)
    show ?thesis using a b c d False by auto
  qed
qed

lemma serviceDependencies_default:
  "serviceDependencies p [] s = serviceDependencies p [IncludeDependencies] s"
  by (simp add: serviceDependencies_def)

lemma edges_default: "edges p [] = edges p [IncludeDependencies]"
  by (simp add: edges_def successors_def serviceDependencies_default cong: option.case_cong)

lemma closure_default: "closure p names [] = closure p names [IncludeDependencies]"
  by (simp add: closure_def edges_default)

lemma depsResolve_default: "depsResolve p [] x = depsResolve p [IncludeDependencies] x"
  by (simp add: depsResolve_def serviceDependencies_default cong: option.case_cong)

lemma ForEachService_unfold:
  "ForEachService p names fn options st =
     (case withServices p names fn {} (if options = [] then [IncludeDependencies] else options) [] st of
        Inl err \<Rightarrow> Inl err | Inr (seen, st') \<Rightarrow> Inr st')"
  by (simp add: ForEachService_def)

lemma effective_options:
  "edges p (if options = [] then [IncludeDependencies] else options) = edges p options"
  "closure p names (if options = [] then [IncludeDependencies] else options) = closure p names options"
  "depsResolve p (if options = [] then [IncludeDependencies] else options) x = depsResolve p options x"
  by (simp_all add: edges_default closure_default depsResolve_default)

lemma pruneDependencies_fold:
  "fold (\<lambda>(d, _) dependencies. if d \<notin> selected then AList.delete d dependencies else dependencies) xs acc
     = filter (\<lambda>(d, _). d \<in> selected \<or> d \<notin> keys xs) acc"
proof (induction xs arbitrary: acc)
  case Nil
  then show ?case by (simp add: keys_Nil split_def)
next
  case (Cons x xs)
  obtain d v where x: "x = (d, v)" by (cases x)
  show ?case
  proof (cases "d \<in> selected")
    case True
    have "filter (\<lambda>(k, _). k \<in> selected \<or> k \<notin> keys xs) acc
            = filter (\<lambda>(k, _). k \<in> selected \<or> k \<notin> keys ((d, v) # xs)) acc"
      using True by (intro filter_cong) (auto simp: keys_Cons)
    then show ?thesis using Cons.IH[of acc] x True by simp
  next
    case False
    have "filter (\<lambda>(k, _). k \<in> selected \<or> k \<notin> keys xs) (AList.delete d acc)
            = filter (\<lambda>(k, _). k \<in> selected \<or> k \<notin> keys ((d, v) # xs)) acc"
      using False by (induction acc) (auto simp: keys_Cons)
    then show ?thesis using Cons.IH[of "AList.delete d acc"] x False by simp
  qed
qed

lemma pruneDependencies_filter:
  "pruneDependencies selected deps = filter (\<lambda>(d, _). d \<notin> - selected) deps"
proof -
  have "filter (\<lambda>(d, _). d \<in> selected \<or> d \<notin> keys deps) deps = filter (\<lambda>(d, _). d \<notin> - selected) deps"
    by (intro filter_cong) (force simp: keys_def)+
  then show ?thesis by (simp add: pruneDependencies_def pruneDependencies_fold)
qed

lemma WithServicesDisabled_single: "WithServicesDisabled np [name] = disableService name np"
  by (simp add: WithServicesDisabled_def deepCopy_def)

lemma fold_selectStep:
  "fold (selectStep selected) xs (enabled, np) =
     (fold (\<lambda>(k, v) m. AList.update k v m)
        (map (\<lambda>(n, s). (n, dropEdges (- selected) s)) (filter (\<lambda>(n, s). n \<in> selected) xs)) enabled,
      fold disableService (filter (\<lambda>n. n \<notin> selected) (map fst xs)) np)"
proof (induction xs arbitrary: enabled np)
  case Nil
  then show ?case by simp
next
  case (Cons x xs)
  obtain n s where x: "x = (n, s)" by (cases x)
  show ?case using Cons.IH x
    by (simp add: selectStep_def WithServicesDisabled_single dropEdges_def pruneDependencies_filter)
qed

lemma map_of_map_filter_keys:
  "distinct (map fst xs) \<Longrightarrow>
   map_of (map (\<lambda>(n, s). (n, f s)) (filter (\<lambda>(n, s). n \<in> A) xs)) k =
     (if k \<in> A then map_option f (map_of xs k) else None)"
proof (induction xs)
  case Nil
  then show ?case by simp
next
  case (Cons x xs)
  obtain n s where x: "x = (n, s)" by (cases x)
  show ?case using Cons x by (auto simp: map_of_eq_None_iff image_iff)
qed

lemma distinct_map_filter_keys:
  "distinct (map fst xs) \<Longrightarrow> distinct (map fst (map (\<lambda>(n, s). (n, f s)) (filter Q xs)))"
  by (induction xs) (auto simp: image_iff)

lemma WithSelectedServices_result:
  assumes "names \<noteq> []"
    and "ForEachService p names (\<lambda>name service selected. Inr (insert name selected)) options {} = Inr selected"
  shows "WithSelectedServices p names options =
     Inr ((fold disableService (filter (\<lambda>n. n \<notin> selected) (map fst (Services p))) p)
            \<lparr>Services := fold (\<lambda>(k, v) m. AList.update k v m)
               (map (\<lambda>(n, s). (n, dropEdges (- selected) s))
                  (filter (\<lambda>(n, s). n \<in> selected) (Services p))) []\<rparr>)"
  using assms by (simp add: WithSelectedServices_def deepCopy_def fold_selectStep)

lemma ForEachService_collect:
  assumes "gomap (Services p)"
    and "ForEachService p names (\<lambda>name service selected. Inr (insert name selected)) options {} = Inr selected"
  shows "selected = closure p names options"
proof -
  let ?o = "if options = [] then [IncludeDependencies] else options"
  let ?fn = "\<lambda>(name::string) (service::ServiceConfig) (selected::string set). (Inr (insert name selected) :: error + string set)"
  from assms(2) obtain seen' where
    w: "withServices p names ?fn {} ?o [] {} = Inr (seen', selected)"
    by (auto simp: ForEachService_unfold split: sum.splits)
  have "walked p ?o (roots p names) {} seen'"
    using withServices_walked(1)[OF assms(1) w] by simp
  then have "seen' = closure p names options"
    using walked_closure[of p ?o "roots p names" seen'] effective_options(1)[of p options]
    by (simp add: closure_def)
  moreover have "selected = {} \<union> (seen' - {})"
    using withServices_collects(1)[OF assms(1) _ w, of "\<lambda>s. s"] by simp
  ultimately show ?thesis by simp
qed

lemma ForEachService_succeeds:
  assumes "gomap (Services p)" and "neverFails fn" and "set names \<subseteq> keys (Services p)"
    and "\<forall>x \<in> closure p names options. depsResolve p options x"
  shows "\<exists>st'. ForEachService p names fn options st = Inr st'"
proof -
  let ?o = "if options = [] then [IncludeDependencies] else options"
  have "\<exists>r. withServices p names fn {} ?o [] st = Inr r"
  proof (rule withServices_succeeds(1)[OF assms(1,2)])
    show "\<forall>n\<in>set names. n \<in> keys (Services p) \<or> optionalIn [] n" using assms(3) by auto
    show "\<forall>x\<in>(edges p ?o)\<^sup>* `` roots p names. depsResolve p ?o x"
      using assms(4) effective_options(1,3)[of p options] by (simp add: closure_def)
  qed
  then show ?thesis by (auto simp: ForEachService_unfold)
qed

lemma WithServicesDisabled_fold:
  "WithServicesDisabled p names = fold disableService names p"
  by (simp add: WithServicesDisabled_def deepCopy_def)

text \<open>
  C7. \<open>WithServicesDisabled\<close> takes every named service that is enabled out of
  \<open>Services\<close> and stores it in \<open>DisabledServices\<close>, without the edges to the names
  of the list up to its own; every service that stays enabled loses its edges to all the
  names of the list, whether a name is an enabled service or not. Nothing is moved for
  a name that is no enabled service, and no other field changes.
\<close>

theorem WithServicesDisabled_moves:
  assumes "gomap (Services p)"
  shows "(\<forall>k. map_of (Services (WithServicesDisabled p names)) k =
            (if k \<in> set names then None
             else map_option (dropEdges (set names)) (map_of (Services p) k))) \<and>
         (\<forall>k. map_of (DisabledServices (WithServicesDisabled p names)) k =
            (if k \<in> set names \<and> k \<in> keys (Services p)
             then map_option (dropEdges (set (upToFirst k names))) (map_of (Services p) k)
             else map_of (DisabledServices p) k)) \<and>
         (WithServicesDisabled p names)\<lparr>Services := Services p,
            DisabledServices := DisabledServices p\<rparr> = p"
  using fold_disableService[OF assms, of names] by (simp add: WithServicesDisabled_fold)

theorem WithServicesDisabled_moves_witness:
  "gomap (Services stack) \<and>
   WithServicesDisabled stack [''db'', ''ghost''] =
     mkProject [(''web'', mkService ''web'' [] [(''cache'', optional)]),
                (''worker'', mkService ''worker'' [] [])]
               [(''db'', mkService ''db'' [] [])] \<and>
   map_of (DisabledServices (WithServicesDisabled stack [''db'', ''ghost''])) ''db'' =
     map_option (dropEdges (set (upToFirst ''db'' [''db'', ''ghost'']))) (map_of (Services stack) ''db'')"
  using WithServicesDisabled_moves[of stack "[''db'', ''ghost'']"]
  by (simp add: stack_def mkProject_def mkService_def gomap_def WithServicesDisabled_def
        deepCopy_def disableService_def stripDependency_def required_def optional_def
        dropEdges_def upToFirst_def keys_def)

text \<open>
  A name that is no enabled service still changes the project: \<open>web\<close> loses its edge
  to \<open>ghost\<close>.
\<close>

theorem WithServicesDisabled_noop_counterexample:
  "map_of (Services dangling) ''ghost'' = None \<and>
   WithServicesDisabled dangling [] = dangling \<and>
   WithServicesDisabled dangling [''ghost''] = mkProject [(''web'', mkService ''web'' [] [])] [] \<and>
   WithServicesDisabled dangling [''ghost''] \<noteq> WithServicesDisabled dangling []"
  by (simp add: dangling_def mkProject_def mkService_def WithServicesDisabled_def
        deepCopy_def disableService_def stripDependency_def optional_def)


subsection \<open>The walk and the selection\<close>

lemma serviceDependencies_policy:
  "serviceDependencies p options s =
     (case policyOf options of
        includeDependents \<Rightarrow> dependentsForService p s
      | includeDependencies \<Rightarrow> DependsOn s
      | ignoreDependencies \<Rightarrow> [])"
  by (simp add: serviceDependencies_def policyOf_def MapsAppend_def Let_def split: policy.splits)

lemma dependents_inner_keys:
  "keys (fold (\<lambda>(name, dependency) dependent.
                     if name = n then AList.update k dependency dependent else dependent) deps acc)
     = keys acc \<union> (if n \<in> keys deps then {k} else {})"
  by (induction deps arbitrary: acc) (auto simp: keys_update keys_Cons keys_Nil split: if_splits)

lemma dependentsForService_fold_keys:
  "keys (fold (\<lambda>(_, service) dependent.
             fold (\<lambda>(name, dependency) dependent.
                     if name = n then AList.update (sName service) dependency dependent
                     else dependent)
               (DependsOn service) dependent) svcs acc)
     = keys acc \<union> {sName service | service k. (k, service) \<in> set svcs \<and> n \<in> keys (DependsOn service)}"
proof (induction svcs arbitrary: acc)
  case Nil
  then show ?case by simp
next
  case (Cons x svcs)
  obtain k s where x: "x = (k, s)" by (cases x)
  show ?case using x by (simp add: Cons.IH dependents_inner_keys) blast
qed

lemma dependentsForService_keys:
  "keys (dependentsForService p s) =
     {sName service | service k. (k, service) \<in> set (Services p) \<and> sName s \<in> keys (DependsOn service)}"
  by (simp add: dependentsForService_def dependentsForService_fold_keys keys_Nil)

lemma edges_includeDependencies:
  "policyOf options = includeDependencies \<Longrightarrow> edges p options = dependsOn p"
  by (auto simp: edges_def successors_def dependsOn_def serviceDependencies_policy
           split: option.splits)

lemma edges_ignoreDependencies:
  "policyOf options = ignoreDependencies \<Longrightarrow> edges p options = {}"
  by (auto simp: edges_def successors_def serviceDependencies_policy keys_Nil split: option.splits)

lemma edges_includeDependents:
  assumes "policyOf options = includeDependents" "gomap (Services p)" "namesMatch p"
  shows "edges p options = (dependsOn p)\<inverse>"
proof -
  have in_set: "(k, s) \<in> set (Services p) \<longleftrightarrow> map_of (Services p) k = Some s" for k s
    using assms(2) by (auto simp: gomap_def)
  have nm: "map_of (Services p) k = Some s \<Longrightarrow> sName s = k" for k s
    using assms(3) in_set[of k s] by (auto simp: namesMatch_def)
  show ?thesis
  proof (rule set_eqI, clarify)
    fix x y
    show "(x, y) \<in> edges p options \<longleftrightarrow> (x, y) \<in> (dependsOn p)\<inverse>"
    proof
      assume "(x, y) \<in> edges p options"
      then obtain s where s: "map_of (Services p) x = Some s"
        and y: "y \<in> keys (dependentsForService p s)" and yk: "y \<in> keys (Services p)"
        using assms(1) by (auto simp: edges_def successors_def serviceDependencies_policy split: option.splits)
      from y obtain service k where ks: "(k, service) \<in> set (Services p)" "sName service = y"
        "sName s \<in> keys (DependsOn service)"
        by (auto simp: dependentsForService_keys)
      have "k = y" using ks nm in_set by auto
      moreover have "sName s = x" using s nm by auto
      moreover have "x \<in> keys (Services p)" using s by (simp add: keys_map_of)
      ultimately show "(x, y) \<in> (dependsOn p)\<inverse>" using ks in_set by (auto simp: dependsOn_def)
    next
      assume "(x, y) \<in> (dependsOn p)\<inverse>"
      then obtain sy where sy: "map_of (Services p) y = Some sy" "x \<in> keys (DependsOn sy)"
        "x \<in> keys (Services p)"
        by (auto simp: dependsOn_def)
      then obtain sx where sx: "map_of (Services p) x = Some sx" by (auto simp: keys_map_of)
      have "sName sx = x" "sName sy = y" using sx sy nm by auto
      then have "y \<in> keys (dependentsForService p sx)"
        using sy in_set[of y sy] by (auto simp: dependentsForService_keys)
      moreover have "y \<in> keys (Services p)" using sy by (simp add: keys_map_of)
      ultimately show "(x, y) \<in> edges p options"
        using sx assms(1) by (auto simp: edges_def successors_def serviceDependencies_policy)
    qed
  qed
qed

lemma depsResolve_includeDependencies:
  assumes "policyOf options = includeDependencies"
  shows "depsResolve p options x \<longleftrightarrow>
     (\<forall>s. map_of (Services p) x = Some s \<longrightarrow>
        (\<forall>d \<in> keys (DependsOn s). d \<in> keys (Services p) \<or>
           (\<exists>dep. map_of (DependsOn s) d = Some dep \<and> \<not> Required dep)))"
  using assms
  by (auto simp: depsResolve_def serviceDependencies_policy optionalIn_def split: option.splits)

lemma policyOf_effective:
  "policyOf (if options = [] then [IncludeDependencies] else options) = policyOf options"
  by (simp add: policyOf_def)

lemma policyOf_policyFor: "policyOf options = policyFor options"
proof (induction options rule: rev_induct)
  case Nil
  show ?case by (simp add: policyOf_def policyFor_def)
next
  case (snoc opt options)
  show ?case by (cases opt) (simp_all add: policyOf_def policyFor_def)
qed

lemma edges_walkEdges:
  assumes "gomap (Services p)" and "policyFor options = includeDependents \<longrightarrow> namesMatch p"
  shows "edges p options = walkEdges p options"
proof (cases "policyFor options")
  case includeDependencies
  then show ?thesis
    using edges_includeDependencies[of options p] by (simp add: walkEdges_def policyOf_policyFor)
next
  case includeDependents
  then show ?thesis
    using edges_includeDependents[of options p] assms by (simp add: walkEdges_def policyOf_policyFor)
next
  case ignoreDependencies
  then show ?thesis
    using edges_ignoreDependencies[of options p] by (simp add: walkEdges_def policyOf_policyFor)
qed

lemma closure_reach:
  assumes "gomap (Services p)" and "policyFor options = includeDependents \<longrightarrow> namesMatch p"
  shows "closure p names options = reach p names options"
  by (simp add: closure_def reach_def edges_walkEdges[OF assms])

lemma depsResolve_resolvable:
  assumes "gomap (Services p)" and "policyFor options = includeDependents \<longrightarrow> namesMatch p"
  shows "depsResolve p options x \<longleftrightarrow> resolvable p options x"
proof (cases "policyFor options")
  case includeDependencies
  then show ?thesis
    using depsResolve_includeDependencies[of options p x]
    by (simp add: resolvable_def policyOf_policyFor)
next
  case includeDependents
  then have nm: "namesMatch p" using assms(2) by simp
  have "depsResolve p options x"
  proof (cases "map_of (Services p) x")
    case None
    then show ?thesis by (simp add: depsResolve_def)
  next
    case (Some s)
    have "d \<in> keys (Services p)" if "d \<in> keys (dependentsForService p s)" for d
    proof -
      from that obtain service k where "(k, service) \<in> set (Services p)" "sName service = d"
        by (auto simp: dependentsForService_keys)
      then show ?thesis using nm by (force simp: namesMatch_def keys_def)
    qed
    then show ?thesis
      using Some includeDependents
      by (simp add: depsResolve_def serviceDependencies_policy policyOf_policyFor)
  qed
  then show ?thesis using includeDependents by (simp add: resolvable_def)
next
  case ignoreDependencies
  then show ?thesis
    by (simp add: resolvable_def depsResolve_def serviceDependencies_policy policyOf_policyFor keys_Nil
          split: option.splits)
qed

lemma ForEachService_direct_missing:
  assumes "gomap (Services p)" and "\<exists>n \<in> set names. n \<notin> keys (Services p)"
  shows "\<exists>z \<in> set names. z \<notin> keys (Services p) \<and>
           ForEachService p names fn options st = Inl (NoSuchService z)"
proof -
  let ?nf = "filter (\<lambda>n. n \<notin> keys (Services p)) names"
  from assms(2) have "?nf \<noteq> []" by (auto simp: filter_empty_conv)
  then obtain z rest where nf: "?nf = z # rest" by (cases ?nf) auto
  then have "z \<in> set ?nf" by simp
  then have z: "z \<in> set names" "z \<notin> keys (Services p)" by simp_all
  have "notFoundError ?nf [] = Some (NoSuchService z)"
    by (simp add: nf notFoundError_find optionalIn_def)
  then have "ForEachService p names fn options st = Inl (NoSuchService z)"
    by (simp add: ForEachService_unfold withServices_unfold[OF assms(1)])
  then show ?thesis using z by blast
qed

lemma ForEachService_unresolved:
  assumes "gomap (Services p)" and "x \<in> closure p names options" and "\<not> depsResolve p options x"
  shows "\<exists>e. ForEachService p names fn options st = Inl e"
proof (rule ccontr)
  let ?o = "if options = [] then [IncludeDependencies] else options"
  assume "\<not> ?thesis"
  then obtain seen' st' where w: "withServices p names fn {} ?o [] st = Inr (seen', st')"
    by (cases "withServices p names fn {} ?o [] st") (auto simp: ForEachService_unfold)
  have wk: "walked p ?o (roots p names) {} seen'"
    using withServices_walked(1)[OF assms(1) w] by simp
  then have "seen' = closure p names options"
    using walked_closure[of p ?o "roots p names" seen'] effective_options(1)[of p options]
    by (simp add: closure_def)
  then have "depsResolve p ?o x" using wk assms(2) by (auto simp: walked_def)
  then show False using assms(3) effective_options(3)[of p options x] by simp
qed

lemma ForEachService_fails:
  assumes "gomap (Services p)" and "neverFails fn" and "ForEachService p names fn options st = Inl e"
  shows "\<exists>z. e = NoSuchService z \<and> z \<notin> keys (Services p)"
proof -
  let ?o = "if options = [] then [IncludeDependencies] else options"
  from assms(3) have "withServices p names fn {} ?o [] st = Inl e"
    by (auto simp: ForEachService_unfold split: sum.splits)
  then show ?thesis using withServices_fails(1)[OF assms(1,2)] by blast
qed

lemma ForEachService_recorded:
  assumes g: "gomap (Services p)"
    and r: "ForEachService p names (recording fn) options ([], st) = Inr (log, st')"
  shows "distinct (map fst log)" and "set (map fst log) = closure p names options"
    and "entries p log"
    and "acyclic (edges p options) \<Longrightarrow> x \<in> set (map fst log) \<Longrightarrow>
           (x, y) \<in> (edges p options)\<^sup>+ \<Longrightarrow> before (map fst log) y x"
proof -
  let ?o = "if options = [] then [IncludeDependencies] else options"
  from r obtain seen' where
    w: "withServices p names (recording fn) {} ?o [] ([], st) = Inr (seen', (log, st'))"
    by (auto simp: ForEachService_unfold split: sum.splits)
  have wk: "walked p ?o (roots p names) {} seen'"
    using withServices_walked(1)[OF g w] by simp
  have cl: "seen' = closure p names options"
    using walked_closure[OF wk] effective_options(1)[of p options] by (simp add: closure_def)
  have "inProgress p ?o (roots p names) {} (fst ([] :: (string \<times> ServiceConfig) list, st))"
    by (simp add: inProgress_def)
  from withServices_logged(1)[OF g tracks_recording this w]
  have lg: "logged p ?o {} seen' [] log" by simp
  then show "distinct (map fst log)" "entries p log"
    by (auto simp: logged_def)
  show "set (map fst log) = closure p names options" using lg cl by (auto simp: logged_def)
  assume ac: "acyclic (edges p options)" and x: "x \<in> set (map fst log)"
    and xy: "(x, y) \<in> (edges p options)\<^sup>+"
  have "\<forall>x \<in> set (map fst log). \<forall>y. (x, y) \<in> edges p options \<longrightarrow> before (map fst log) y x"
    using lg ac effective_options(1)[of p options] by (auto simp: logged_def)
  then show "before (map fst log) y x" using xy x by (rule before_trancl)
qed

text \<open>
  C4. \<open>ForEachService\<close> fails with \<open>no such service\<close> when a requested name is
  not an enabled service, whatever the visitor and the options. It fails when a service
  of the closure has a dependency that is neither an enabled service nor optional; with
  a visitor that never fails every failure is a \<open>no such service\<close> for a name that
  is not an enabled service. When the requested names are enabled services and the
  dependencies of every service of the closure are enabled services or optional, the
  walk succeeds with such a visitor: a missing optional dependency is passed over.
  Under \<open>IncludeDependencies\<close> (the default) the edges are the \<open>DependsOn\<close> edges
  between enabled services, and the dependencies of a service resolve when each key of
  its \<open>DependsOn\<close> is an enabled service or has \<open>Required\<close> false.
\<close>

theorem ForEachService_missing_services:
  assumes "gomap (Services p)"
  shows "((\<exists>n \<in> set names. n \<notin> keys (Services p)) \<longrightarrow>
            (\<exists>z \<in> set names. z \<notin> keys (Services p) \<and>
               ForEachService p names fn options st = Inl (NoSuchService z))) \<and>
         ((\<exists>x \<in> closure p names options. \<not> depsResolve p options x) \<longrightarrow>
            (\<exists>e. ForEachService p names fn options st = Inl e)) \<and>
         (neverFails fn \<longrightarrow>
            (\<forall>e. ForEachService p names fn options st = Inl e \<longrightarrow>
               (\<exists>z. e = NoSuchService z \<and> z \<notin> keys (Services p)))) \<and>
         (neverFails fn \<and> set names \<subseteq> keys (Services p) \<and>
            (\<forall>x \<in> closure p names options. depsResolve p options x) \<longrightarrow>
            (\<exists>st'. ForEachService p names fn options st = Inr st')) \<and>
         (policyOf options = includeDependencies \<longrightarrow>
            edges p options = dependsOn p \<and>
            (\<forall>x. depsResolve p options x \<longleftrightarrow>
               (\<forall>s. map_of (Services p) x = Some s \<longrightarrow>
                  (\<forall>d \<in> keys (DependsOn s). d \<in> keys (Services p) \<or>
                     (\<exists>dep. map_of (DependsOn s) d = Some dep \<and> \<not> Required dep)))))"
proof (intro conjI impI allI)
  assume "\<exists>n \<in> set names. n \<notin> keys (Services p)"
  with assms show "\<exists>z \<in> set names. z \<notin> keys (Services p) \<and>
               ForEachService p names fn options st = Inl (NoSuchService z)"
    by (rule ForEachService_direct_missing)
next
  assume "\<exists>x \<in> closure p names options. \<not> depsResolve p options x"
  then obtain x where "x \<in> closure p names options" "\<not> depsResolve p options x" by blast
  then show "\<exists>e. ForEachService p names fn options st = Inl e"
    by (rule ForEachService_unresolved[OF assms])
next
  fix e assume "neverFails fn" "ForEachService p names fn options st = Inl e"
  with assms show "\<exists>z. e = NoSuchService z \<and> z \<notin> keys (Services p)"
    by (rule ForEachService_fails)
next
  assume "neverFails fn \<and> set names \<subseteq> keys (Services p) \<and>
            (\<forall>x \<in> closure p names options. depsResolve p options x)"
  then have "neverFails fn" "set names \<subseteq> keys (Services p)"
    "\<forall>x \<in> closure p names options. depsResolve p options x" by simp_all
  then show "\<exists>st'. ForEachService p names fn options st = Inr st'"
    by (rule ForEachService_succeeds[OF assms])
next
  assume "policyOf options = includeDependencies"
  then show "edges p options = dependsOn p" by (rule edges_includeDependencies)
next
  fix x assume "policyOf options = includeDependencies"
  then show "depsResolve p options x \<longleftrightarrow>
               (\<forall>s. map_of (Services p) x = Some s \<longrightarrow>
                  (\<forall>d \<in> keys (DependsOn s). d \<in> keys (Services p) \<or>
                     (\<exists>dep. map_of (DependsOn s) d = Some dep \<and> \<not> Required dep)))"
    by (rule depsResolve_includeDependencies)
qed

lemmas eval_walk = ForEachService_def withServices.simps getServicesByNames_def
  notFoundError_def serviceDependencies_def MapsAppend_def MapKeys_def
  ServiceConfig_deepCopy_def recording_def noop_def Let_def
  mkProject_def mkService_def required_def optional_def

lemma neverFails_noop: "neverFails noop"
  by (simp add: neverFails_def noop_def)

lemma stack_resolves: "depsResolve stack [] x"
  by (auto simp: depsResolve_def stack_def mkProject_def mkService_def serviceDependencies_def
        MapsAppend_def keys_def optionalIn_def required_def optional_def)

lemma broken_unresolved: "''web'' \<in> closure broken [''web''] [] \<and> \<not> depsResolve broken [] ''web''"
  by (auto simp: closure_def roots_def depsResolve_def broken_def mkProject_def mkService_def
        serviceDependencies_def MapsAppend_def keys_def optionalIn_def required_def)

theorem ForEachService_missing_services_witness:
  "gomap (Services stack) \<and> gomap (Services broken) \<and> neverFails noop \<and>
   ''nope'' \<notin> keys (Services stack) \<and>
   ForEachService stack [''web'', ''nope''] noop [] () = Inl (NoSuchService ''nope'') \<and>
   \<not> depsResolve broken [] ''web'' \<and>
   ForEachService broken [''web''] noop [] () = Inl (NoSuchService ''db'') \<and>
   set [''web''] \<subseteq> keys (Services stack) \<and> depsResolve stack [] ''web'' \<and>
   ForEachService stack [''web''] noop [] () = Inr ()"
proof -
  have g: "gomap (Services stack)" "gomap (Services broken)"
    by (simp_all add: gomap_def stack_def broken_def mkProject_def)
  have n: "''nope'' \<notin> keys (Services stack)" "set [''web''] \<subseteq> keys (Services stack)"
    by (simp_all add: keys_def stack_def mkProject_def)
  have a: "\<exists>z \<in> set [''web'', ''nope'']. z \<notin> keys (Services stack) \<and>
             ForEachService stack [''web'', ''nope''] noop [] () = Inl (NoSuchService z)"
    using ForEachService_missing_services[OF g(1), where names="[''web'', ''nope'']" and fn=noop
            and options="[]" and st="()"] n(1)
    by simp
  have a': "ForEachService stack [''web'', ''nope''] noop [] () = Inl (NoSuchService ''nope'')"
    using a by (auto simp: keys_def stack_def mkProject_def)
  have b: "\<exists>e. ForEachService broken [''web''] noop [] () = Inl e"
    using ForEachService_missing_services[OF g(2), where names="[''web'']" and fn=noop
            and options="[]" and st="()"] broken_unresolved
    by blast
  have b': "ForEachService broken [''web''] noop [] () = Inl (NoSuchService ''db'')"
    using b by (simp add: eval_walk broken_def)
  have c: "\<exists>st'. ForEachService stack [''web''] noop [] () = Inr st'"
    using ForEachService_missing_services[OF g(1), where names="[''web'']" and fn=noop
            and options="[]" and st="()"] n(2) neverFails_noop stack_resolves
    by blast
  show ?thesis using g n a' b' c neverFails_noop broken_unresolved stack_resolves by simp
qed

lemma acyclic_rank:
  assumes "\<And>x y. (x, y) \<in> r \<Longrightarrow> f y < (f x :: nat)"
  shows "acyclic r"
proof -
  have "r \<subseteq> (inv_image less_than f)\<inverse>" using assms by auto
  moreover have "acyclic ((inv_image less_than f)\<inverse>)"
  proof -
    have "wf (inv_image less_than f)" by (intro wf_inv_image wf_less_than)
    then have "acyclic (inv_image less_than f)" by (rule wf_acyclic)
    then show ?thesis by (simp only: acyclic_converse)
  qed
  ultimately show ?thesis by (rule acyclic_subset[rotated])
qed

text \<open>In a diamond each service is visited once, after the services it needs.\<close>

lemma ForEachService_diamond:
  "map_sum id (map fst \<circ> fst) (ForEachService diamond [''a''] (recording noop) [] ([], ())) =
     Inr [''d'', ''b'', ''c'', ''a'']"
  by (simp add: eval_walk diamond_def)

lemma WithSelectedServices_walk:
  assumes "gomap (Services p)"
  shows "(names = [] \<longrightarrow> WithSelectedServices p names options = Inr p) \<and>
         (names \<noteq> [] \<and> set names \<subseteq> keys (Services p) \<and>
          (\<forall>x \<in> closure p names options. depsResolve p options x) \<longrightarrow>
            (\<exists>np. WithSelectedServices p names options = Inr np \<and>
               keys (Services np) = closure p names options \<and>
               (\<forall>k. map_of (Services np) k =
                  (if k \<in> closure p names options
                   then map_option (dropEdges (- closure p names options)) (map_of (Services p) k)
                   else None)) \<and>
               (\<forall>k. map_of (DisabledServices np) k =
                  (if k \<in> keys (Services p) - closure p names options
                   then map_option
                          (dropEdges (set (upToFirst k
                             (filter (\<lambda>n. n \<notin> closure p names options) (map fst (Services p))))))
                          (map_of (Services p) k)
                   else map_of (DisabledServices p) k)) \<and>
               np\<lparr>Services := Services p, DisabledServices := DisabledServices p\<rparr> = p)) \<and>
         (policyOf options = includeDependencies \<longrightarrow> edges p options = dependsOn p) \<and>
         (policyOf options = includeDependents \<and> namesMatch p \<longrightarrow>
            edges p options = (dependsOn p)\<inverse>)"
proof (intro conjI impI)
  show "WithSelectedServices p names options = Inr p" if "names = []"
    using that by (simp add: WithSelectedServices_def deepCopy_def)
  show "edges p options = dependsOn p" if "policyOf options = includeDependencies"
    using that by (rule edges_includeDependencies)
  show "edges p options = (dependsOn p)\<inverse>" if "policyOf options = includeDependents \<and> namesMatch p"
    using that assms(1) by (simp add: edges_includeDependents)
next
  let ?C = "closure p names options"
  let ?collect = "\<lambda>(name::string) (service::ServiceConfig) (selected::string set).
                    (Inr (insert name selected) :: error + string set)"
  assume h: "names \<noteq> [] \<and> set names \<subseteq> keys (Services p) \<and> (\<forall>x \<in> ?C. depsResolve p options x)"
  have "neverFails ?collect" by (simp add: neverFails_def)
  then obtain sel where fe: "ForEachService p names ?collect options {} = Inr sel"
    using ForEachService_succeeds[OF assms, of ?collect names options "{}"] h by blast
  have sel: "sel = ?C" using ForEachService_collect[OF assms fe] .
  let ?unsel = "filter (\<lambda>n. n \<notin> ?C) (map fst (Services p))"
  let ?dis = "fold disableService ?unsel p"
  let ?en = "fold (\<lambda>(k, v) m. AList.update k v m)
               (map (\<lambda>(n, s). (n, dropEdges (- ?C) s)) (filter (\<lambda>(n, s). n \<in> ?C) (Services p))) []"
  let ?np = "?dis\<lparr>Services := ?en\<rparr>"
  have res: "WithSelectedServices p names options = Inr ?np"
    using WithSelectedServices_result[OF _ fe] h sel by simp
  have d: "distinct (map fst (Services p))" using assms by (simp add: gomap_def)
  have en: "map_of ?en k = (if k \<in> ?C then map_option (dropEdges (- ?C)) (map_of (Services p) k) else None)" for k
  proof -
    let ?xs = "map (\<lambda>(n, s). (n, dropEdges (- ?C) s)) (filter (\<lambda>(n, s). n \<in> ?C) (Services p))"
    have "distinct (map fst ?xs)" using d by (rule distinct_map_filter_keys)
    then have "map_of ?en k = map_of ?xs k" by (simp add: fold_update_map_of)
    also have "\<dots> = (if k \<in> ?C then map_option (dropEdges (- ?C)) (map_of (Services p) k) else None)"
      using d by (rule map_of_map_filter_keys)
    finally show ?thesis .
  qed
  have Csub: "?C \<subseteq> keys (Services p)"
  proof
    fix x assume "x \<in> ?C"
    then obtain r where r: "r \<in> roots p names" "(r, x) \<in> (edges p options)\<^sup>*"
      by (auto simp: closure_def)
    from r(2) r(1) show "x \<in> keys (Services p)"
      by (induction rule: rtrancl_induct) (auto simp: roots_def edges_def split: if_splits)
  qed
  have ken: "keys ?en = ?C"
  proof -
    have "keys ?en = {k. map_of ?en k \<noteq> None}" by (auto simp: keys_map_of)
    also have "\<dots> = ?C" using en Csub by (auto simp: keys_map_of)
    finally show ?thesis .
  qed
  note fd = fold_disableService[OF assms, of ?unsel]
  have us: "set ?unsel = keys (Services p) - ?C" by (auto simp: keys_def)
  have dis: "map_of (DisabledServices ?np) k =
                  (if k \<in> keys (Services p) - ?C
                   then map_option (dropEdges (set (upToFirst k ?unsel))) (map_of (Services p) k)
                   else map_of (DisabledServices p) k)" for k
    using fd us by auto
  have oth: "?np\<lparr>Services := Services p, DisabledServices := DisabledServices p\<rparr> = p"
    using fd by simp
  show "\<exists>np. WithSelectedServices p names options = Inr np \<and>
               keys (Services np) = ?C \<and>
               (\<forall>k. map_of (Services np) k =
                  (if k \<in> ?C then map_option (dropEdges (- ?C)) (map_of (Services p) k) else None)) \<and>
               (\<forall>k. map_of (DisabledServices np) k =
                  (if k \<in> keys (Services p) - ?C
                   then map_option (dropEdges (set (upToFirst k ?unsel))) (map_of (Services p) k)
                   else map_of (DisabledServices p) k)) \<and>
               np\<lparr>Services := Services p, DisabledServices := DisabledServices p\<rparr> = p"
    using res en dis ken oth by (intro exI[of _ ?np]) simp
qed

lemma pipeline_resolvable: "resolvable pipeline options x"
  by (auto simp: resolvable_def pipeline_def mkProject_def mkService_def keys_def required_def
        split: if_splits)

lemmas eval_select = eval_walk pipeline_def WithSelectedServices_def selectStep_def
  pruneDependencies_def WithServicesDisabled_def disableService_def stripDependency_def
  deepCopy_def dependentsForService_def

text \<open>
  C6. With no name \<open>WithSelectedServices\<close> returns the copy as it is. With names
  that are enabled services, each service reached from them being resolvable, it returns
  a project whose \<open>Services\<close> are exactly the services that the requested names
  reach: over the \<open>DependsOn\<close> edges under \<open>IncludeDependencies\<close> (the default),
  over the same edges backwards under \<open>IncludeDependents\<close>, and the requested names
  alone under \<open>IgnoreDependencies\<close>, the last option deciding. Each of these services
  is without the \<open>DependsOn\<close> edges that lead to a name outside that set, required
  or not; every other service that was enabled is in \<open>DisabledServices\<close>, without the
  edges to the services that were disabled up to it in the order of the loop; the
  services that were disabled before and all other fields are as they were. Under
  \<open>IncludeDependents\<close> the enabled services are taken to carry their key as their
  \<open>Name\<close>, which is how \<open>dependentsForService\<close> names a dependent.
\<close>

theorem WithSelectedServices_closure:
  assumes "gomap (Services p)" and "policyFor options = includeDependents \<longrightarrow> namesMatch p"
  shows "(names = [] \<longrightarrow> WithSelectedServices p names options = Inr p) \<and>
         (names \<noteq> [] \<and> set names \<subseteq> keys (Services p) \<and>
          (\<forall>x \<in> reach p names options. resolvable p options x) \<longrightarrow>
            (\<exists>np. WithSelectedServices p names options = Inr np \<and>
               keys (Services np) = reach p names options \<and>
               (\<forall>k. map_of (Services np) k =
                  (if k \<in> reach p names options
                   then map_option (dropEdges (- reach p names options)) (map_of (Services p) k)
                   else None)) \<and>
               (\<forall>k. map_of (DisabledServices np) k =
                  (if k \<in> keys (Services p) - reach p names options
                   then map_option
                          (dropEdges (set (upToFirst k
                             (filter (\<lambda>n. n \<notin> reach p names options) (map fst (Services p))))))
                          (map_of (Services p) k)
                   else map_of (DisabledServices p) k)) \<and>
               np\<lparr>Services := Services p, DisabledServices := DisabledServices p\<rparr> = p))"
  using WithSelectedServices_walk[OF assms(1), of names options]
  unfolding closure_reach[OF assms] depsResolve_resolvable[OF assms]
  by blast

theorem WithSelectedServices_closure_witness:
  "gomap (Services pipeline) \<and> namesMatch pipeline \<and>
   WithSelectedServices pipeline [''a''] [] =
     Inr (mkProject [(''a'', mkService ''a'' [] [(''b'', required)]),
                     (''b'', mkService ''b'' [] [(''c'', required)]),
                     (''c'', mkService ''c'' [] [])]
                    [(''x'', mkService ''x'' [] [(''a'', required)])]) \<and>
   reach pipeline [''a''] [] = {''a'', ''b'', ''c''} \<and>
   WithSelectedServices pipeline [''b''] [IncludeDependents] =
     Inr (mkProject [(''x'', mkService ''x'' [] [(''a'', required)]),
                     (''a'', mkService ''a'' [] [(''b'', required)]),
                     (''b'', mkService ''b'' [] [])]
                    [(''c'', mkService ''c'' [] [])]) \<and>
   reach pipeline [''b''] [IncludeDependents] = {''x'', ''a'', ''b''} \<and>
   WithSelectedServices pipeline [''a''] [IncludeDependents, IgnoreDependencies] =
     Inr (mkProject [(''a'', mkService ''a'' [] [])]
                    [(''x'', mkService ''x'' [] [(''a'', required)]),
                     (''b'', mkService ''b'' [] [(''c'', required)]),
                     (''c'', mkService ''c'' [] [])]) \<and>
   reach pipeline [''a''] [IncludeDependents, IgnoreDependencies] = {''a''} \<and>
   WithSelectedServices pipeline [] [] = Inr pipeline"
proof -
  have g: "gomap (Services pipeline)" by (simp add: gomap_def pipeline_def mkProject_def)
  have m: "namesMatch pipeline" by (simp add: namesMatch_def pipeline_def mkProject_def mkService_def)
  have n: "set [''a''] \<subseteq> keys (Services pipeline)" "set [''b''] \<subseteq> keys (Services pipeline)"
    by (simp_all add: keys_def pipeline_def mkProject_def)
  have ev1: "WithSelectedServices pipeline [''a''] [] =
     Inr (mkProject [(''a'', mkService ''a'' [] [(''b'', required)]),
                     (''b'', mkService ''b'' [] [(''c'', required)]),
                     (''c'', mkService ''c'' [] [])]
                    [(''x'', mkService ''x'' [] [(''a'', required)])])"
    by (simp add: eval_select)
  have ev2: "WithSelectedServices pipeline [''b''] [IncludeDependents] =
     Inr (mkProject [(''x'', mkService ''x'' [] [(''a'', required)]),
                     (''a'', mkService ''a'' [] [(''b'', required)]),
                     (''b'', mkService ''b'' [] [])]
                    [(''c'', mkService ''c'' [] [])])"
    by (simp add: eval_select)
  have ev3: "WithSelectedServices pipeline [''a''] [IncludeDependents, IgnoreDependencies] =
     Inr (mkProject [(''a'', mkService ''a'' [] [])]
                    [(''x'', mkService ''x'' [] [(''a'', required)]),
                     (''b'', mkService ''b'' [] [(''c'', required)]),
                     (''c'', mkService ''c'' [] [])])"
    by (simp add: eval_select)
  have k: "keys (Services np) = reach pipeline names options"
    if "names \<noteq> []" "set names \<subseteq> keys (Services pipeline)"
       "WithSelectedServices pipeline names options = Inr np" for names options np
    using WithSelectedServices_closure[of pipeline options names] g m that pipeline_resolvable
    by auto
  have c1: "reach pipeline [''a''] [] = {''a'', ''b'', ''c''}"
    using k[OF _ n(1) ev1] by (auto simp: mkProject_def keys_def)
  have c2: "reach pipeline [''b''] [IncludeDependents] = {''x'', ''a'', ''b''}"
    using k[OF _ n(2) ev2] by (auto simp: mkProject_def keys_def)
  have c3: "reach pipeline [''a''] [IncludeDependents, IgnoreDependencies] = {''a''}"
    using k[OF _ n(1) ev3] by (auto simp: mkProject_def keys_def)
  have e: "WithSelectedServices pipeline [] [] = Inr pipeline"
    using WithSelectedServices_closure[of pipeline "[]" "[]"] g m by simp
  show ?thesis using g m ev1 ev2 ev3 c1 c2 c3 e by simp
qed

subsection \<open>Environment resolution\<close>

lemma fold_update_Some_distinct:
  "distinct (map fst acc) \<Longrightarrow> distinct (map fst (fold (\<lambda>(k, v) mwe. AList.update k (Some v) mwe) m acc))"
  by (induction m arbitrary: acc) (auto simp: distinct_update)

lemma ToMappingWithEquals_gomap: "gomap (ToMappingWithEquals m)"
  by (simp add: ToMappingWithEquals_def gomap_def fold_update_Some_distinct)

lemma OverrideBy_map_of:
  "gomap other \<Longrightarrow> map_of (OverrideBy m other) = map_of m ++ map_of other"
  by (simp add: OverrideBy_def gomap_def fold_update_map_of)

lemma OverrideBy_gomap: "gomap m \<Longrightarrow> gomap (OverrideBy m other)"
  by (simp add: OverrideBy_def gomap_def fold_update_distinct)

lemma foldl_map_add:
  "foldl (\<lambda>m other. m ++ map_of other) (a ++ b) ms = a ++ foldl (\<lambda>m other. m ++ map_of other) b ms"
proof (induction ms arbitrary: b)
  case Nil
  then show ?case by simp
next
  case (Cons x ms)
  have "foldl (\<lambda>m other. m ++ map_of other) (a ++ b) (x # ms)
          = foldl (\<lambda>m other. m ++ map_of other) (a ++ (b ++ map_of x)) ms"
    by (simp add: map_add_assoc)
  then show ?case using Cons.IH[of "b ++ map_of x"] by simp
qed

lemma lastWriterWins_Cons: "lastWriterWins (m # ms) = map_of m ++ lastWriterWins ms"
  using foldl_map_add[of "map_of m" Map.empty ms] by (simp add: lastWriterWins_def)

lemma resolveEnvFiles_success:
  "resolveEnvFiles io p files environment = Inr env \<Longrightarrow>
   map_of env = map_of environment ++ lastWriterWins (parsedEnvFiles io p files environment)"
proof (induction files arbitrary: environment)
  case Nil
  then show ?case by (simp add: lastWriterWins_def)
next
  case (Cons f rest)
  show ?case
  proof (cases "notExist io (Path f)")
    case True
    then show ?thesis using Cons by (auto split: if_splits)
  next
    case False
    then obtain b fileVars where b: "ReadFile io (Path f) = Some b"
      and fv: "ParseWithLookup io b (resolve environment p) = Some fileVars"
      and r: "resolveEnvFiles io p rest (OverrideBy environment (ToMappingWithEquals fileVars)) = Inr env"
      using Cons.prems by (auto split: option.splits)
    have "gomap (ToMappingWithEquals fileVars)" by (rule ToMappingWithEquals_gomap)
    then show ?thesis using Cons.IH[OF r] False b fv
      by (simp add: OverrideBy_map_of lastWriterWins_Cons map_add_assoc)
  qed
qed

lemma resolveEnvFiles_failure:
  "resolveEnvFiles io p files environment = Inl e \<longleftrightarrow>
     (\<exists>pre f post env. files = pre @ f # post \<and>
        resolveEnvFiles io p pre environment = Inr env \<and> badFile io p env f \<and> e = fileError io f)"
proof (induction files arbitrary: environment)
  case Nil
  then show ?case by simp
next
  case (Cons f rest)
  let ?R = "\<lambda>files environment. \<exists>pre f post env. files = pre @ f # post \<and>
        resolveEnvFiles io p pre environment = Inr env \<and> badFile io p env f \<and> e = fileError io f"
  have here: "badFile io p environment f \<Longrightarrow> resolveEnvFiles io p (f # rest) environment = Inl (fileError io f)"
    by (auto simp: badFile_def fileError_def split: option.splits if_splits)
  show ?case
  proof (cases "badFile io p environment f")
    case True
    have "?R (f # rest) environment \<longleftrightarrow> e = fileError io f"
    proof
      assume "?R (f # rest) environment"
      then obtain pre f' post env where x: "f # rest = pre @ f' # post"
        "resolveEnvFiles io p pre environment = Inr env" "badFile io p env f'" "e = fileError io f'"
        by blast
      show "e = fileError io f"
      proof (cases pre)
        case Nil
        then show ?thesis using x by simp
      next
        case (Cons a pre')
        then have "a = f" using x by simp
        then have "resolveEnvFiles io p pre environment = Inl (fileError io f)"
          using here[OF True] Cons True
          by (auto simp: badFile_def fileError_def split: option.splits if_splits)
        then show ?thesis using x by simp
      qed
    next
      assume "e = fileError io f"
      then show "?R (f # rest) environment"
        using True by (intro exI[of _ "[]"] exI[of _ f] exI[of _ rest] exI[of _ environment]) simp
    qed
    then show ?thesis using here[OF True] by auto
  next
    case False
    define env1 where "env1 =
      (if notExist io (Path f) then environment
       else OverrideBy environment (ToMappingWithEquals
              (the (ParseWithLookup io (the (ReadFile io (Path f))) (resolve environment p)))))"
    have step: "resolveEnvFiles io p (f # rest) environment = resolveEnvFiles io p rest env1"
      using False by (auto simp: badFile_def env1_def split: option.splits if_splits)
    have one: "resolveEnvFiles io p [f] environment = Inr env1"
      using False by (auto simp: badFile_def env1_def split: option.splits if_splits)
    have pre_step: "resolveEnvFiles io p (f # pre) environment = resolveEnvFiles io p pre env1" for pre
      using False by (auto simp: badFile_def env1_def split: option.splits if_splits)
    have "?R (f # rest) environment \<longleftrightarrow> ?R rest env1"
    proof
      assume "?R (f # rest) environment"
      then obtain pre f' post env where x: "f # rest = pre @ f' # post"
        "resolveEnvFiles io p pre environment = Inr env" "badFile io p env f'" "e = fileError io f'"
        by blast
      show "?R rest env1"
      proof (cases pre)
        case Nil
        then show ?thesis using x False by simp
      next
        case (Cons a pre')
        then have "a = f" "rest = pre' @ f' # post" using x by simp_all
        moreover have "resolveEnvFiles io p pre' env1 = Inr env"
          using x(2) Cons \<open>a = f\<close> pre_step[of pre'] by simp
        ultimately show ?thesis using x by blast
      qed
    next
      assume "?R rest env1"
      then obtain pre f' post env where x: "rest = pre @ f' # post"
        "resolveEnvFiles io p pre env1 = Inr env" "badFile io p env f'" "e = fileError io f'"
        by blast
      have "f # rest = (f # pre) @ f' # post" using x by simp
      moreover have "resolveEnvFiles io p (f # pre) environment = Inr env"
        using x(2) pre_step[of pre] by simp
      ultimately show "?R (f # rest) environment" using x by blast
    qed
    then show ?thesis using step Cons.IH[of env1] by simp
  qed
qed


lemma fold_key_update_map_of:
  "distinct (map fst xs) \<Longrightarrow>
   map_of (fold (\<lambda>(i, s) m. if Q i s then AList.update i (f i s) m else m) xs m) k =
     (case map_of xs k of
        Some s \<Rightarrow> if Q k s then Some (f k s) else map_of m k
      | None \<Rightarrow> map_of m k)"
proof (induction xs arbitrary: m)
  case Nil then show ?case by simp
next
  case (Cons x xs)
  obtain i s where x: "x = (i, s)" by (cases x)
  have n: "map_of xs i = None" using Cons.prems x by (simp add: map_of_eq_None_iff)
  show ?case using Cons x n by (auto simp: update_conv' split: option.splits)
qed

lemma fold_key_update_keys:
  "fst ` set xs \<subseteq> fst ` set m \<Longrightarrow>
   map fst (fold (\<lambda>(i, s) m. if Q i s then AList.update i (f i s) m else m) xs m) = map fst m"
proof (induction xs arbitrary: m)
  case Nil then show ?case by simp
next
  case (Cons x xs)
  obtain i s where x: "x = (i, s)" by (cases x)
  have i: "i \<in> fst ` set m" using Cons.prems x by auto
  then have k: "map fst (AList.update i (f i s) m) = map fst m"
    by (simp add: update_keys)
  have "fst ` set xs \<subseteq> fst ` set (AList.update i (f i s) m)"
    using Cons.prems by (auto simp: dom_update)
  then show ?case using Cons.IH[of "AList.update i (f i s) m"] Cons.IH[of m] Cons.prems x k
    by auto
qed

lemma fold_all_update_map_of:
  "distinct (map fst xs) \<Longrightarrow>
   map_of (fold (\<lambda>(i, s) m. AList.update i (f i s) m) xs m) k =
     (case map_of xs k of Some s \<Rightarrow> Some (f k s) | None \<Rightarrow> map_of m k)"
  using fold_key_update_map_of[where Q="\<lambda>_ _. True" and f=f and xs=xs and m=m and k=k]
  by (simp split: option.splits)

lemma fold_all_update_keys:
  "fst ` set xs \<subseteq> fst ` set m \<Longrightarrow>
   map fst (fold (\<lambda>(i, s) m. AList.update i (f i s) m) xs m) = map fst m"
  using fold_key_update_keys[where Q="\<lambda>_ _. True" and f=f and xs=xs and m=m] by simp

lemma MappingWithEquals_Resolve_fold:
  "MappingWithEquals_Resolve m lookupFn =
     fold (\<lambda>(k, v) m. if v = None \<and> lookupFn k \<noteq> None then AList.update k (Some (the (lookupFn k))) m else m) m m"
proof -
  have "(\<lambda>(k, v) m. case v of
               None \<Rightarrow> (case lookupFn k of Some x \<Rightarrow> AList.update k (Some x) m | None \<Rightarrow> m)
             | Some _ \<Rightarrow> m)
      = (\<lambda>(k, v) m. if v = None \<and> lookupFn k \<noteq> None then AList.update k (Some (the (lookupFn k))) m else m)"
    by (auto simp: fun_eq_iff split: option.splits)
  then show ?thesis unfolding MappingWithEquals_Resolve_def by (rule arg_cong[where f="\<lambda>g. fold g m m"])
qed

lemma MappingWithEquals_Resolve_keys:
  "map fst (MappingWithEquals_Resolve m lookupFn) = map fst m"
  unfolding MappingWithEquals_Resolve_fold by (rule fold_key_update_keys) simp

lemma MappingWithEquals_Resolve_map_of:
  "gomap m \<Longrightarrow>
   map_of (MappingWithEquals_Resolve m lookupFn) k =
     (case map_of m k of
        Some None \<Rightarrow> (case lookupFn k of Some x \<Rightarrow> Some (Some x) | None \<Rightarrow> Some None)
      | other \<Rightarrow> other)"
  unfolding MappingWithEquals_Resolve_fold gomap_def
  by (simp add: fold_key_update_map_of split: option.splits)

lemma resolve_Services: "resolve environment (np\<lparr>Services := x\<rparr>) = resolve environment np"
  by (rule ext) (simp add: resolve_def split: option.splits)

lemma resolveEnvFiles_Services:
  "resolveEnvFiles io (np\<lparr>Services := x\<rparr>) files environment = resolveEnvFiles io np files environment"
  by (induction files arbitrary: environment) (auto simp: resolve_Services split: option.splits)

lemma resolveService_Services:
  "resolveService io d (np\<lparr>Services := x\<rparr>) s = resolveService io d np s"
  by (simp add: resolveService_def resolveEnvFiles_Services)

lemma resolveService_Inl:
  "resolveService io d p s = Inl e \<longleftrightarrow> resolveEnvFiles io p (EnvFiles s) [] = Inl e"
  by (auto simp: resolveService_def Let_def split: sum.splits)

lemma resolveService_Inr:
  assumes "resolveService io d p s = Inr s'" and "gomap (sEnvironment s)"
  shows "map_of (sEnvironment s') =
           lastWriterWins (parsedEnvFiles io p (EnvFiles s) []) ++
           map_of (MappingWithEquals_Resolve (sEnvironment s) (Mapping_Resolve (Environment p)))"
    and "EnvFiles s' = (if d then [] else EnvFiles s)"
    and "s'\<lparr>sEnvironment := sEnvironment s, EnvFiles := EnvFiles s\<rparr> = s"
proof -
  let ?decl = "MappingWithEquals_Resolve (sEnvironment s) (Mapping_Resolve (Environment p))"
  from assms(1) obtain env where
    env: "resolveEnvFiles io p (EnvFiles s) [] = Inr env"
    and s': "s' = (if d then s\<lparr>sEnvironment := OverrideBy env ?decl, EnvFiles := []\<rparr>
                   else s\<lparr>sEnvironment := OverrideBy env ?decl\<rparr>)"
    by (auto simp: resolveService_def Let_def split: sum.splits if_splits)
  have g: "gomap ?decl" using assms(2) by (simp add: gomap_def MappingWithEquals_Resolve_keys)
  have "map_of env = lastWriterWins (parsedEnvFiles io p (EnvFiles s) [])"
    using resolveEnvFiles_success[OF env] by simp
  then show "map_of (sEnvironment s') =
           lastWriterWins (parsedEnvFiles io p (EnvFiles s) []) ++ map_of ?decl"
    using s' g by (simp add: OverrideBy_map_of)
  show "EnvFiles s' = (if d then [] else EnvFiles s)" using s' by simp
  show "s'\<lparr>sEnvironment := sEnvironment s, EnvFiles := EnvFiles s\<rparr> = s" using s' by simp
qed

lemma resolveServices_Inl:
  "resolveServices io d xs np = Inl e \<Longrightarrow> \<exists>(k, s) \<in> set xs. resolveService io d np s = Inl e"
proof (induction xs arbitrary: np)
  case Nil
  then show ?case by simp
next
  case (Cons x xs)
  obtain k s where x: "x = (k, s)" by (cases x)
  show ?case
  proof (cases "resolveService io d np s")
    case (Inl e')
    then show ?thesis using Cons.prems x by auto
  next
    case (Inr s')
    then have "resolveServices io d xs (np\<lparr>Services := AList.update k s' (Services np)\<rparr>) = Inl e"
      using Cons.prems x by simp
    from Cons.IH[OF this] show ?thesis by (auto simp: resolveService_Services)
  qed
qed

lemma resolveServices_fails:
  "(k, s) \<in> set xs \<Longrightarrow> resolveService io d np s = Inl e \<Longrightarrow> \<exists>e'. resolveServices io d xs np = Inl e'"
proof (induction xs arbitrary: np)
  case Nil
  then show ?case by simp
next
  case (Cons x xs)
  obtain k' s' where x: "x = (k', s')" by (cases x)
  show ?case
  proof (cases "resolveService io d np s'")
    case (Inl e')
    then show ?thesis using x by simp
  next
    case (Inr s'')
    then have "(k, s) \<in> set xs" using Cons.prems x by auto
    from Cons.IH[OF this, of "np\<lparr>Services := AList.update k' s'' (Services np)\<rparr>"] Cons.prems(2)
    show ?thesis using x Inr by (simp add: resolveService_Services)
  qed
qed

lemma resolveServices_Inr:
  "resolveServices io d xs np = Inr np' \<Longrightarrow>
     np' = np\<lparr>Services := fold (\<lambda>(k, s) m. AList.update k (projr (resolveService io d np s)) m)
                              xs (Services np)\<rparr> \<and>
     (\<forall>(k, s) \<in> set xs. \<exists>s'. resolveService io d np s = Inr s')"
proof (induction xs arbitrary: np)
  case Nil
  then show ?case by simp
next
  case (Cons x xs)
  obtain k s where x: "x = (k, s)" by (cases x)
  from Cons.prems x obtain s' where s': "resolveService io d np s = Inr s'"
    and r: "resolveServices io d xs (np\<lparr>Services := AList.update k s' (Services np)\<rparr>) = Inr np'"
    by (auto split: sum.splits)
  from Cons.IH[OF r] show ?case using x s' by (simp add: resolveService_Services)
qed

lemma WithServicesEnvironmentResolved_unfold:
  "WithServicesEnvironmentResolved io p d = resolveServices io d (Services p) p"
  by (simp add: WithServicesEnvironmentResolved_def deepCopy_def)

text \<open>
  C8. \<open>WithServicesEnvironmentResolved\<close>, for a project whose service map and
  environment maps are maps. The call fails exactly when the env files of some enabled
  service fail, and with the error of such a service; the env files of a service fail
  exactly at the first file that is missing and required, or cannot be read, or cannot be
  parsed, and the error names the path of that file. When the call succeeds, nothing but
  the services changes, no service is gained or lost, and for each service the
  environment is the last-writer-wins merge of the parsed env files in the order of the
  list, overridden by the service's own declared mapping (its empty entries resolved from
  the project environment, as line 603 does); the env-file list is cleared when
  \<open>discardEnvFiles\<close> is set and kept otherwise, and the rest of the service is as it was.
\<close>

theorem WithServicesEnvironmentResolved_merge:
  assumes "gomap (Services p)" and "\<forall>(k, s) \<in> set (Services p). gomap (sEnvironment s)"
  shows "(\<forall>e. WithServicesEnvironmentResolved io p d = Inl e \<longrightarrow>
            (\<exists>(k, s) \<in> set (Services p). resolveEnvFiles io p (EnvFiles s) [] = Inl e)) \<and>
         ((\<exists>(k, s) \<in> set (Services p). \<exists>e. resolveEnvFiles io p (EnvFiles s) [] = Inl e) \<longrightarrow>
            (\<exists>e. WithServicesEnvironmentResolved io p d = Inl e)) \<and>
         (\<forall>files environment e.
            resolveEnvFiles io p files environment = Inl e \<longleftrightarrow>
              (\<exists>pre f post env. files = pre @ f # post \<and>
                 resolveEnvFiles io p pre environment = Inr env \<and>
                 badFile io p env f \<and> e = fileError io f)) \<and>
         (\<forall>np. WithServicesEnvironmentResolved io p d = Inr np \<longrightarrow>
            np\<lparr>Services := Services p\<rparr> = p \<and>
            map fst (Services np) = map fst (Services p) \<and>
            (\<forall>k s. map_of (Services p) k = Some s \<longrightarrow>
               (\<exists>s'. map_of (Services np) k = Some s' \<and>
                  map_of (sEnvironment s') =
                    lastWriterWins (parsedEnvFiles io p (EnvFiles s) []) ++
                    map_of (MappingWithEquals_Resolve (sEnvironment s) (Mapping_Resolve (Environment p))) \<and>
                  EnvFiles s' = (if d then [] else EnvFiles s) \<and>
                  s'\<lparr>sEnvironment := sEnvironment s, EnvFiles := EnvFiles s\<rparr> = s)))"
proof (intro conjI allI impI)
  fix e assume "WithServicesEnvironmentResolved io p d = Inl e"
  then have "\<exists>(k, s) \<in> set (Services p). resolveService io d p s = Inl e"
    using resolveServices_Inl[of io d "Services p" p e]
    by (simp add: WithServicesEnvironmentResolved_unfold)
  then show "\<exists>(k, s) \<in> set (Services p). resolveEnvFiles io p (EnvFiles s) [] = Inl e"
    by (auto simp: resolveService_Inl)
next
  assume "\<exists>(k, s) \<in> set (Services p). \<exists>e. resolveEnvFiles io p (EnvFiles s) [] = Inl e"
  then obtain k s e where "(k, s) \<in> set (Services p)" "resolveService io d p s = Inl e"
    by (auto simp: resolveService_Inl)
  then show "\<exists>e. WithServicesEnvironmentResolved io p d = Inl e"
    using resolveServices_fails[of k s "Services p" io d p e]
    by (simp add: WithServicesEnvironmentResolved_unfold)
next
  fix files environment e
  show "resolveEnvFiles io p files environment = Inl e \<longleftrightarrow>
              (\<exists>pre f post env. files = pre @ f # post \<and>
                 resolveEnvFiles io p pre environment = Inr env \<and>
                 badFile io p env f \<and> e = fileError io f)"
    by (rule resolveEnvFiles_failure)
next
  fix np assume ok: "WithServicesEnvironmentResolved io p d = Inr np"
  let ?f = "\<lambda>(k::string) s. projr (resolveService io d p s)"
  from ok have r: "resolveServices io d (Services p) p = Inr np"
    by (simp add: WithServicesEnvironmentResolved_unfold)
  note spec = resolveServices_Inr[OF r]
  have np: "np = p\<lparr>Services := fold (\<lambda>(k, s) m. AList.update k (?f k s) m)
                                   (Services p) (Services p)\<rparr>"
    using spec by simp
  show "np\<lparr>Services := Services p\<rparr> = p" by (subst np) simp
  show "map fst (Services np) = map fst (Services p)"
    by (subst np) (simp add: fold_all_update_keys)
  fix k s assume ks: "map_of (Services p) k = Some s"
  then have in_set: "(k, s) \<in> set (Services p)" by (rule map_of_SomeD)
  then obtain s' where s': "resolveService io d p s = Inr s'" using spec by blast
  have d: "distinct (map fst (Services p))" using assms(1) by (simp add: gomap_def)
  have "map_of (Services np) k = Some (?f k s)"
    by (subst np) (simp add: fold_all_update_map_of[OF d] ks)
  then have m: "map_of (Services np) k = Some s'" using s' by simp
  have g: "gomap (sEnvironment s)" using assms(2) in_set by auto
  show "\<exists>s'. map_of (Services np) k = Some s' \<and>
                  map_of (sEnvironment s') =
                    lastWriterWins (parsedEnvFiles io p (EnvFiles s) []) ++
                    map_of (MappingWithEquals_Resolve (sEnvironment s) (Mapping_Resolve (Environment p))) \<and>
                  EnvFiles s' = (if d then [] else EnvFiles s) \<and>
                  s'\<lparr>sEnvironment := sEnvironment s, EnvFiles := EnvFiles s\<rparr> = s"
    using m resolveService_Inr[OF s' g] by blast
qed

lemmas eval_env = WithServicesEnvironmentResolved_def deepCopy_def resolveService_def
  MappingWithEquals_Resolve_def Mapping_Resolve_def OverrideBy_def ToMappingWithEquals_def
  resolve_def demoFiles_def envService_def mkProject_def mkService_def Let_def

theorem WithServicesEnvironmentResolved_merge_witness:
  "gomap (Services envDemo) \<and> gomap (Services envBroken) \<and>
   WithServicesEnvironmentResolved demoFiles envDemo True =
     Inr ((mkProject [(''web'', envService ''web'' [(''FOO'', Some ''2'')] []),
                      (''api'', envService ''api'' [(''FOO'', Some ''3'')] [])] [])
            \<lparr>Environment := [(''FOO'', ''1'')]\<rparr>) \<and>
   WithServicesEnvironmentResolved demoFiles envBroken False = Inl (EnvFileNotFound ''missing.env'') \<and>
   badFile demoFiles envBroken [] \<lparr>Path = ''missing.env'', envRequired = True\<rparr> \<and>
   fileError demoFiles \<lparr>Path = ''missing.env'', envRequired = True\<rparr> = EnvFileNotFound ''missing.env''"
proof -
  have g: "gomap (Services envDemo)" "gomap (Services envBroken)"
    by (simp_all add: gomap_def envDemo_def envBroken_def mkProject_def)
  have h: "\<forall>(k, s) \<in> set (Services envDemo). gomap (sEnvironment s)"
    "\<forall>(k, s) \<in> set (Services envBroken). gomap (sEnvironment s)"
    by (simp_all add: gomap_def envDemo_def envBroken_def mkProject_def envService_def)
  have ev: "WithServicesEnvironmentResolved demoFiles envDemo True =
     Inr ((mkProject [(''web'', envService ''web'' [(''FOO'', Some ''2'')] []),
                      (''api'', envService ''api'' [(''FOO'', Some ''3'')] [])] [])
            \<lparr>Environment := [(''FOO'', ''1'')]\<rparr>)"
    by (simp add: eval_env envDemo_def)
  have bad: "\<exists>(k, s) \<in> set (Services envBroken). \<exists>e. resolveEnvFiles demoFiles envBroken (EnvFiles s) [] = Inl e"
    by (simp add: envBroken_def mkProject_def envService_def demoFiles_def)
  from WithServicesEnvironmentResolved_merge[OF g(2) h(2), of demoFiles False] bad
  obtain e where e: "WithServicesEnvironmentResolved demoFiles envBroken False = Inl e"
    by blast
  then have "e = EnvFileNotFound ''missing.env''"
    by (simp add: eval_env envBroken_def)
  moreover have "badFile demoFiles envBroken [] \<lparr>Path = ''missing.env'', envRequired = True\<rparr>"
    "fileError demoFiles \<lparr>Path = ''missing.env'', envRequired = True\<rparr> = EnvFileNotFound ''missing.env''"
    by (simp_all add: badFile_def fileError_def demoFiles_def)
  ultimately show ?thesis using g ev e by simp
qed

subsection \<open>Image digests\<close>

lemma imageStep_fold:
  "fold (imageStep lib resolver) xs (np, err) =
     (np\<lparr>Services := fold (\<lambda>(k, s) m. if sImage s \<noteq> [] \<and> \<not> isl (resolveImage lib resolver s)
                                      then AList.update k (afterResolve lib resolver s) m else m)
                           xs (Services np)\<rparr>,
      (case err of
         Some e \<Rightarrow> Some e
       | None \<Rightarrow> map_option (\<lambda>(k, s). projl (resolveImage lib resolver s))
                   (find (\<lambda>(k, s). \<not> resolves lib resolver s) xs)))"
proof (induction xs arbitrary: np err)
  case Nil
  then show ?case by (simp split: option.splits)
next
  case (Cons x xs)
  obtain k s where x: "x = (k, s)" by (cases x)
  show ?case
  proof (cases "sImage s = []")
    case True
    then show ?thesis unfolding x using Cons.IH[of np err]
      by (simp add: imageStep_def resolves_def split: option.splits)
  next
    case False
    show ?thesis
    proof (cases "resolveImage lib resolver s")
      case (Inl e)
      then show ?thesis unfolding x
        using Cons.IH[of np "case err of None \<Rightarrow> Some e | Some e' \<Rightarrow> Some e'"] False
        by (simp add: imageStep_def resolves_def split: option.splits)
    next
      case (Inr s')
      then show ?thesis unfolding x
        using Cons.IH[of "np\<lparr>Services := AList.update k s' (Services np)\<rparr>" err] False
        by (simp add: imageStep_def resolves_def afterResolve_def split: option.splits)
    qed
  qed
qed

lemma afterResolve_unchanged:
  "\<not> (sImage s \<noteq> [] \<and> \<not> isl (resolveImage lib resolver s)) \<Longrightarrow> afterResolve lib resolver s = s"
  by (auto simp: afterResolve_def split: sum.splits)


lemmas eval_images = WithImagesResolved_def deepCopy_def imageStep_def resolveImage_def
  demoRefs_def demoResolver_def imageService_def mkProject_def mkService_def



subsection \<open>The partition of the services\<close>

lemma keys_eq_dom: "keys m = dom (map_of m)"
  by (auto simp: keys_map_of)

lemma keys_map_fst: "keys m = set (map fst m)"
  by (simp add: keys_def)

lemma WithProfiles_names:
  assumes "gomap (Services p)" "partitioned p" "WithProfiles p P = Inr np"
  shows "partitioned np \<and> serviceNames np = serviceNames p"
proof (cases "''*'' \<in> set P")
  case True
  then show ?thesis using assms WithProfiles_wildcard[OF True, of p] by simp
next
  case False
  let ?all = "AllServices p"
  let ?en = "fold (\<lambda>(k, v) m. AList.update k v m) (filter (\<lambda>(k, s). HasProfile s P) ?all) []"
  let ?dis = "fold (\<lambda>(k, v) m. AList.update k v m) (filter (\<lambda>(k, s). \<not> HasProfile s P) ?all) []"
  have np: "np = p\<lparr>Services := ?en, DisabledServices := ?dis, Profiles := P\<rparr>"
    using assms(3) WithProfiles_filter[OF False, of p] by simp
  have d: "distinct (map fst ?all)" using AllServices_gomap[of p] by (simp add: gomap_def)
  have en: "keys ?en = keys (filter (\<lambda>(k, s). HasProfile s P) ?all)"
    by (simp add: fold_update_keys keys_Nil)
  have dis: "keys ?dis = keys (filter (\<lambda>(k, s). \<not> HasProfile s P) ?all)"
    by (simp add: fold_update_keys keys_Nil)
  have disj: "keys (filter (\<lambda>(k, s). HasProfile s P) ?all) \<inter> keys (filter (\<lambda>(k, s). \<not> HasProfile s P) ?all) = {}"
  proof (rule ccontr)
    assume "\<not> ?thesis"
    then obtain k s s' where "(k, s) \<in> set ?all" "HasProfile s P" "(k, s') \<in> set ?all" "\<not> HasProfile s' P"
      by (auto simp: keys_def)
    then show False using d by (metis map_of_is_SomeI option.inject)
  qed
  have un: "keys (filter (\<lambda>(k, s). HasProfile s P) ?all) \<union> keys (filter (\<lambda>(k, s). \<not> HasProfile s P) ?all) = keys ?all"
    by (auto simp: keys_def)
  show ?thesis
    using en dis disj un by (simp add: np partitioned_def serviceNames_def AllServices_keys)
qed

lemma fold_disableService_keys:
  assumes "gomap (Services p)"
  shows "keys (Services (fold disableService ns p)) = keys (Services p) - set ns"
    and "keys (DisabledServices (fold disableService ns p)) =
           keys (DisabledServices p) \<union> (keys (Services p) \<inter> set ns)"
proof -
  note m = fold_disableService[OF assms, of ns]
  from m have "map fst (Services (fold disableService ns p)) =
                 filter (\<lambda>k. k \<notin> set ns) (map fst (Services p))" by blast
  then show "keys (Services (fold disableService ns p)) = keys (Services p) - set ns"
    by (auto simp: keys_map_fst)
  from m have d: "map_of (DisabledServices (fold disableService ns p)) k =
            (if k \<in> set ns \<and> k \<in> keys (Services p)
             then map_option (dropEdges (set (upToFirst k ns))) (map_of (Services p) k)
             else map_of (DisabledServices p) k)" for k
    by blast
  show "keys (DisabledServices (fold disableService ns p)) =
           keys (DisabledServices p) \<union> (keys (Services p) \<inter> set ns)"
  proof (rule set_eqI)
    fix k
    show "k \<in> keys (DisabledServices (fold disableService ns p)) \<longleftrightarrow>
          k \<in> keys (DisabledServices p) \<union> (keys (Services p) \<inter> set ns)"
    proof (cases "k \<in> set ns \<and> k \<in> keys (Services p)")
      case True
      then have "map_of (Services p) k \<noteq> None" by (simp add: keys_map_of)
      then have "map_of (DisabledServices (fold disableService ns p)) k \<noteq> None"
        using d[of k] True by auto
      then show ?thesis using True by (simp add: keys_map_of)
    next
      case False
      have "map_of (DisabledServices (fold disableService ns p)) k = map_of (DisabledServices p) k"
        by (subst d, rule if_not_P, rule False)
      then show ?thesis using False by (auto simp: keys_map_of)
    qed
  qed
qed

lemma WithServicesDisabled_names:
  assumes "gomap (Services p)" "partitioned p"
  shows "partitioned (WithServicesDisabled p names) \<and>
         serviceNames (WithServicesDisabled p names) = serviceNames p"
  using fold_disableService_keys[OF assms(1), of names] assms(2)
  by (auto simp: partitioned_def serviceNames_def WithServicesDisabled_fold)

lemma WithSelectedServices_names:
  assumes "gomap (Services p)" "partitioned p" "WithSelectedServices p names options = Inr np"
  shows "partitioned np \<and> serviceNames np = serviceNames p"
proof (cases "names = []")
  case True
  then show ?thesis using assms by (simp add: WithSelectedServices_def deepCopy_def)
next
  case False
  let ?collect = "\<lambda>(name::string) (service::ServiceConfig) (selected::string set).
                    (Inr (insert name selected) :: error + string set)"
  from assms(3) False obtain sel where fe: "ForEachService p names ?collect options {} = Inr sel"
    by (auto simp: WithSelectedServices_def deepCopy_def split: sum.splits)
  let ?unsel = "filter (\<lambda>n. n \<notin> sel) (map fst (Services p))"
  let ?en = "fold (\<lambda>(k, v) m. AList.update k v m)
               (map (\<lambda>(n, s). (n, dropEdges (- sel) s)) (filter (\<lambda>(n, s). n \<in> sel) (Services p))) []"
  have np: "np = (fold disableService ?unsel p)\<lparr>Services := ?en\<rparr>"
    using WithSelectedServices_result[OF False fe] assms(3) by simp
  have en: "keys ?en = keys (Services p) \<inter> sel"
    unfolding fold_update_keys keys_Nil by (force simp: keys_def image_iff)
  have dis: "keys (DisabledServices np) = keys (DisabledServices p) \<union> (keys (Services p) - sel)"
    using fold_disableService_keys(2)[OF assms(1), of ?unsel] by (auto simp: np keys_def)
  show ?thesis using en dis assms(2) by (auto simp: np partitioned_def serviceNames_def)
qed

lemma resolveServices_names:
  assumes "WithServicesEnvironmentResolved io p d = Inr np"
  shows "keys (Services np) = keys (Services p) \<and> DisabledServices np = DisabledServices p \<and>
         gomap (Services np) = gomap (Services p)"
proof -
  from assms have r: "resolveServices io d (Services p) p = Inr np"
    by (simp add: WithServicesEnvironmentResolved_unfold)
  from resolveServices_Inr[OF r]
  have np: "np = p\<lparr>Services := fold (\<lambda>(k, s) m. AList.update k (projr (resolveService io d p s)) m)
                                   (Services p) (Services p)\<rparr>" by simp
  have "map fst (Services np) = map fst (Services p)"
    by (subst np) (simp add: fold_all_update_keys)
  then show ?thesis by (auto simp: keys_map_fst gomap_def) (subst np, simp)
qed

lemma WithImagesResolved_names:
  "keys (Services (fst (WithImagesResolved lib p resolver))) = keys (Services p) \<and>
   DisabledServices (fst (WithImagesResolved lib p resolver)) = DisabledServices p"
  by (simp add: WithImagesResolved_def deepCopy_def imageStep_fold keys_map_fst fold_cond_update_keys)

lemma WithoutUnnecessaryResources_names:
  "Services (WithoutUnnecessaryResources p) = Services p \<and>
   DisabledServices (WithoutUnnecessaryResources p) = DisabledServices p"
  by (simp add: WithoutUnnecessaryResources_def deepCopy_def split: prod.splits)

lemma WithProfiles_gomap:
  assumes "gomap (Services p)" "WithProfiles p P = Inr np"
  shows "gomap (Services np)"
proof (cases "''*'' \<in> set P")
  case True
  then show ?thesis using assms WithProfiles_wildcard[OF True, of p] by simp
next
  case False
  then show ?thesis using assms(2) WithProfiles_filter[OF False, of p]
    by (auto simp: gomap_def fold_update_distinct)
qed

lemma WithServicesEnabled_names:
  assumes "gomap (Services p)" "partitioned p" "WithServicesEnabled io p names = Inr np"
  shows "partitioned np \<and> serviceNames np = serviceNames p"
proof (cases "names = []")
  case True
  then show ?thesis using assms by (simp add: WithServicesEnabled_def deepCopy_def)
next
  case False
  from assms(3) False obtain profiles np1 where
    p1: "WithProfiles p profiles = Inr np1" and
    r: "WithServicesEnvironmentResolved io np1 True = Inr np"
    by (auto simp: WithServicesEnabled_def deepCopy_def Let_def split: sum.splits)
  have a: "partitioned np1 \<and> serviceNames np1 = serviceNames p"
    using WithProfiles_names[OF assms(1,2) p1] .
  have b: "keys (Services np) = keys (Services np1) \<and> DisabledServices np = DisabledServices np1"
    using resolveServices_names[OF r] by simp
  show ?thesis using a b by (simp add: partitioned_def serviceNames_def)
qed

text \<open>
  C3. From a project whose enabled and disabled services share no name, every operation
  returns a project whose enabled and disabled services share no name, and the names of
  the two maps taken together are those of the receiver: \<open>WithProfiles\<close>,
  \<open>WithServicesEnabled\<close>, \<open>WithServicesDisabled\<close> and \<open>WithSelectedServices\<close> move names
  between the maps and neither gain nor lose one; \<open>WithoutUnnecessaryResources\<close>,
  \<open>WithServicesEnvironmentResolved\<close> and \<open>WithImagesResolved\<close> leave the names of both
  maps as they are.
\<close>

theorem Services_partition_preserved:
  assumes "gomap (Services p)" and "partitioned p"
  shows "(\<forall>np. WithProfiles p P = Inr np \<longrightarrow> partitioned np \<and> serviceNames np = serviceNames p) \<and>
         (\<forall>np. WithServicesEnabled io p names = Inr np \<longrightarrow>
            partitioned np \<and> serviceNames np = serviceNames p) \<and>
         partitioned (WithServicesDisabled p names) \<and>
         serviceNames (WithServicesDisabled p names) = serviceNames p \<and>
         (\<forall>np. WithSelectedServices p names options = Inr np \<longrightarrow>
            partitioned np \<and> serviceNames np = serviceNames p) \<and>
         partitioned (WithoutUnnecessaryResources p) \<and>
         serviceNames (WithoutUnnecessaryResources p) = serviceNames p \<and>
         (\<forall>np. WithServicesEnvironmentResolved io p d = Inr np \<longrightarrow>
            partitioned np \<and> serviceNames np = serviceNames p) \<and>
         partitioned (fst (WithImagesResolved lib p resolver)) \<and>
         serviceNames (fst (WithImagesResolved lib p resolver)) = serviceNames p"
proof (intro conjI allI impI)
  fix np assume "WithProfiles p P = Inr np"
  from WithProfiles_names[OF assms this]
  show "partitioned np" "serviceNames np = serviceNames p" by simp_all
next
  fix np assume "WithServicesEnabled io p names = Inr np"
  from WithServicesEnabled_names[OF assms this]
  show "partitioned np" "serviceNames np = serviceNames p" by simp_all
next
  from WithServicesDisabled_names[OF assms, of names]
  show "partitioned (WithServicesDisabled p names)"
    "serviceNames (WithServicesDisabled p names) = serviceNames p" by simp_all
next
  fix np assume "WithSelectedServices p names options = Inr np"
  from WithSelectedServices_names[OF assms this]
  show "partitioned np" "serviceNames np = serviceNames p" by simp_all
next
  show "partitioned (WithoutUnnecessaryResources p)"
    "serviceNames (WithoutUnnecessaryResources p) = serviceNames p"
    using assms(2) WithoutUnnecessaryResources_names[of p]
    by (simp_all add: partitioned_def serviceNames_def)
next
  fix np assume "WithServicesEnvironmentResolved io p d = Inr np"
  from resolveServices_names[OF this] assms(2)
  show "partitioned np" "serviceNames np = serviceNames p"
    by (simp_all add: partitioned_def serviceNames_def)
next
  show "partitioned (fst (WithImagesResolved lib p resolver))"
    "serviceNames (fst (WithImagesResolved lib p resolver)) = serviceNames p"
    using assms(2) WithImagesResolved_names[of lib p resolver]
    by (simp_all add: partitioned_def serviceNames_def)
qed

theorem Services_partition_preserved_witness:
  "gomap (Services profiled) \<and> partitioned profiled \<and>
   WithProfiles profiled [''dbg''] =
     Inr (mkProject [(''web'', mkService ''web'' [] []), (''debug'', mkService ''debug'' [''dbg''] [])] []
            \<lparr>Profiles := [''dbg'']\<rparr>) \<and>
   serviceNames (mkProject [(''web'', mkService ''web'' [] []), (''debug'', mkService ''debug'' [''dbg''] [])] []
            \<lparr>Profiles := [''dbg'']\<rparr>) = serviceNames profiled \<and>
   serviceNames profiled = {''web'', ''debug''} \<and>
   partitioned (WithServicesDisabled profiled [''web'']) \<and>
   serviceNames (WithServicesDisabled profiled [''web'']) = {''web'', ''debug''}"
proof -
  have g: "gomap (Services profiled)" by (simp add: gomap_def profiled_def mkProject_def)
  have q: "partitioned profiled" by (simp add: partitioned_def profiled_def mkProject_def keys_def)
  have ev: "WithProfiles profiled [''dbg''] =
     Inr (mkProject [(''web'', mkService ''web'' [] []), (''debug'', mkService ''debug'' [''dbg''] [])] []
            \<lparr>Profiles := [''dbg'']\<rparr>)"
    by (simp add: profiled_def mkProject_def mkService_def WithProfiles_def deepCopy_def
        AllServices_def HasProfile_def)
  have n: "serviceNames profiled = {''web'', ''debug''}"
    by (auto simp: serviceNames_def profiled_def mkProject_def keys_def)
  note t = Services_partition_preserved[OF g q, of "[''dbg'']" demoFiles "[''web'']" "[]" True demoRefs demoResolver]
  from t have t1: "\<forall>np. WithProfiles profiled [''dbg''] = Inr np \<longrightarrow>
                     partitioned np \<and> serviceNames np = serviceNames profiled"
    by (rule conjunct1)
  from t have t3: "partitioned (WithServicesDisabled profiled [''web''])"
    by (rule conjunct2[THEN conjunct2, THEN conjunct1])
  from t have t4: "serviceNames (WithServicesDisabled profiled [''web'']) = serviceNames profiled"
    by (rule conjunct2[THEN conjunct2, THEN conjunct2, THEN conjunct1])
  from t1 ev have t2: "serviceNames (mkProject [(''web'', mkService ''web'' [] []), (''debug'', mkService ''debug'' [''dbg''] [])] []
            \<lparr>Profiles := [''dbg'']\<rparr>) = serviceNames profiled"
    by blast
  show ?thesis
    apply (intro conjI)
          apply (rule g)
         apply (rule q)
        apply (rule ev)
       apply (rule t2)
      apply (rule n)
     apply (rule t3)
    apply (simp only: t4 n)
    done
qed

subsection \<open>The store\<close>

lemma grown_refl: "grown s s"
  by (auto simp: grown_def unchanged_def apart_def)

lemma grown_le: "grown s0 s \<Longrightarrow> nextAddr s0 \<le> nextAddr s"
  by (simp add: grown_def unchanged_def)

lemma alloc_fst [simp]: "fst (alloc obj s) = nextAddr s"
  by (simp add: alloc_def)

lemma alloc_next [simp]: "nextAddr (snd (alloc obj s)) = Suc (nextAddr s)"
  by (simp add: alloc_def)

lemma assign_next [simp]: "nextAddr (assign a obj s) = nextAddr s"
  by (simp add: assign_def)

lemma within_mono:
  "R \<subseteq> {a..<b} \<Longrightarrow> a' \<le> a \<Longrightarrow> b \<le> (b'::nat) \<Longrightarrow> R \<subseteq> {a'..<b'}"
  by (auto simp: subset_iff)

lemma grown_alloc:
  assumes "grown s0 s" "refsOf obj \<subseteq> {nextAddr s0..<nextAddr s}"
  shows "grown s0 (snd (alloc obj s))"
proof -
  let ?s' = "snd (alloc obj s)"
  have le: "nextAddr s0 \<le> nextAddr s" using assms(1) by (rule grown_le)
  have old: "objectAt s a = objectAt s0 a" if "a < nextAddr s0" for a
    using assms(1) that by (simp add: grown_def unchanged_def)
  have ap: "refsOf x \<subseteq> {nextAddr s0..<nextAddr s}"
    if "nextAddr s0 \<le> a" "a < nextAddr s" "objectAt s a = Some x" for a x
    using assms(1) that by (simp add: grown_def apart_def)
  have obj: "objectAt ?s' a = (if a = nextAddr s then Some obj else objectAt s a)" for a
    by (simp add: alloc_def)
  have u: "unchanged s0 ?s'"
    unfolding unchanged_def
  proof (intro conjI allI impI)
    show "nextAddr s0 \<le> nextAddr ?s'" using le by simp
    fix a assume "a < nextAddr s0"
    then show "objectAt ?s' a = objectAt s0 a" using le old[of a] by (simp add: obj)
  qed
  have a: "apart (nextAddr s0) ?s'"
    unfolding apart_def
  proof (intro allI impI)
    fix a x assume h: "nextAddr s0 \<le> a \<and> a < nextAddr ?s' \<and> objectAt ?s' a = Some x"
    have "refsOf x \<subseteq> {nextAddr s0..<nextAddr s}"
    proof (cases "a = nextAddr s")
      case True
      then show ?thesis using h assms(2) by (simp add: obj)
    next
      case False
      then show ?thesis using h ap[of a x] by (simp add: obj)
    qed
    then show "refsOf x \<subseteq> {nextAddr s0..<nextAddr ?s'}"
      by (rule within_mono) simp_all
  qed
  show ?thesis unfolding grown_def using u a by (rule conjI)
qed

lemma grown_assign:
  assumes "grown s0 s" "nextAddr s0 \<le> a" "a < nextAddr s" "refsOf obj \<subseteq> {nextAddr s0..<nextAddr s}"
  shows "grown s0 (assign a obj s)"
proof -
  let ?s' = "assign a obj s"
  have le: "nextAddr s0 \<le> nextAddr s" using assms(1) by (rule grown_le)
  have old: "objectAt s b = objectAt s0 b" if "b < nextAddr s0" for b
    using assms(1) that by (simp add: grown_def unchanged_def)
  have ap: "refsOf x \<subseteq> {nextAddr s0..<nextAddr s}"
    if "nextAddr s0 \<le> b" "b < nextAddr s" "objectAt s b = Some x" for b x
    using assms(1) that by (simp add: grown_def apart_def)
  have obj: "objectAt ?s' b = (if b = a then Some obj else objectAt s b)" for b
    by (simp add: assign_def)
  have u: "unchanged s0 ?s'"
    unfolding unchanged_def
  proof (intro conjI allI impI)
    show "nextAddr s0 \<le> nextAddr ?s'" using le by simp
    fix b assume "b < nextAddr s0"
    then show "objectAt ?s' b = objectAt s0 b" using assms(2) old[of b] by (simp add: obj)
  qed
  have a: "apart (nextAddr s0) ?s'"
    unfolding apart_def
  proof (intro allI impI)
    fix b x assume h: "nextAddr s0 \<le> b \<and> b < nextAddr ?s' \<and> objectAt ?s' b = Some x"
    have "refsOf x \<subseteq> {nextAddr s0..<nextAddr s}"
    proof (cases "b = a")
      case True
      then show ?thesis using h assms(4) by (simp add: obj)
    next
      case False
      then show ?thesis using h ap[of b x] by (simp add: obj)
    qed
    then show "refsOf x \<subseteq> {nextAddr s0..<nextAddr ?s'}" by simp
  qed
  show ?thesis unfolding grown_def using u a by (rule conjI)
qed

text \<open>What is read from an object that was built since refers to such objects.\<close>

lemma grown_projectOf:
  assumes "grown s0 s" "nextAddr s0 \<le> a" "a < nextAddr s"
  shows "refsOf (ProjectObj (projectOf s a)) \<subseteq> {nextAddr s0..<nextAddr s}"
proof (cases "objectAt s a")
  case None
  then show ?thesis by (simp add: projectOf_def zeroProject_def)
next
  case (Some obj)
  then have "refsOf obj \<subseteq> {nextAddr s0..<nextAddr s}"
    using assms by (auto simp: grown_def apart_def)
  then show ?thesis using Some by (cases obj) (auto simp: projectOf_def zeroProject_def)
qed

lemma grown_servicesOf:
  assumes "grown s0 s" "set_option r \<subseteq> {nextAddr s0..<nextAddr s}"
  shows "refsOf (ServicesObj (servicesOf s r)) \<subseteq> {nextAddr s0..<nextAddr s}"
proof (cases r)
  case None
  then show ?thesis by (simp add: servicesOf_def)
next
  case r: (Some a)
  show ?thesis
  proof (cases "objectAt s a")
    case None
    then show ?thesis using r by (simp add: servicesOf_def)
  next
    case (Some obj)
    then have "refsOf obj \<subseteq> {nextAddr s0..<nextAddr s}"
      using assms r by (auto simp: grown_def apart_def)
    then show ?thesis using Some r by (cases obj) (auto simp: servicesOf_def)
  qed
qed

lemma grown_serviceOf:
  assumes "grown s0 s" "nextAddr s0 \<le> a" "a < nextAddr s"
  shows "refsOf (ServiceObj (serviceOf s a)) \<subseteq> {nextAddr s0..<nextAddr s}"
proof (cases "objectAt s a")
  case None
  then show ?thesis by (simp add: serviceOf_def zeroService_def)
next
  case (Some obj)
  then have "refsOf obj \<subseteq> {nextAddr s0..<nextAddr s}"
    using assms by (auto simp: grown_def apart_def)
  then show ?thesis using Some by (cases obj) (auto simp: serviceOf_def zeroService_def)
qed

lemma refsOf_update:
  "refsOf (ServicesObj (AList.update k v m)) \<subseteq> refsOf (ServicesObj m) \<union> set_option (dependsOnRef v)"
  by (induction m) (auto split: if_splits)

lemma refsOf_delete:
  "refsOf (ServicesObj (AList.delete k m)) \<subseteq> refsOf (ServicesObj m)"
  by (induction m) (auto split: if_splits)

lemma refsOf_entry:
  "(k, c) \<in> set m \<Longrightarrow> set_option (dependsOnRef c) \<subseteq> refsOf (ServicesObj m)"
  by auto

lemma refsOf_map_of:
  "map_of m k = Some c \<Longrightarrow> set_option (dependsOnRef c) \<subseteq> refsOf (ServicesObj m)"
  by (auto dest!: map_of_SomeD)

text \<open>The writers.\<close>

lemma putService_next [simp]: "nextAddr (putService a k v s) = nextAddr s"
  by (simp add: putService_def)

lemma deleteService_next [simp]: "nextAddr (deleteService a k s) = nextAddr s"
  by (simp add: deleteService_def)

lemma deleteDependsOn_next [simp]: "nextAddr (deleteDependsOn r k s) = nextAddr s"
  by (simp add: deleteDependsOn_def split: option.splits)

lemma setProject_next [simp]: "nextAddr (setProject p f s) = nextAddr s"
  by (simp add: setProject_def)

lemma grown_putService:
  assumes "grown s0 s" "nextAddr s0 \<le> a" "a < nextAddr s"
    "set_option (dependsOnRef v) \<subseteq> {nextAddr s0..<nextAddr s}"
  shows "grown s0 (putService a k v s)"
  unfolding putService_def
proof (rule grown_assign[OF assms(1-3)])
  have "refsOf (ServicesObj (servicesOf s (Some a))) \<subseteq> {nextAddr s0..<nextAddr s}"
    using assms(1-3) by (intro grown_servicesOf) auto
  then show "refsOf (ServicesObj (AList.update k v (servicesOf s (Some a)))) \<subseteq> {nextAddr s0..<nextAddr s}"
    using refsOf_update[of k v "servicesOf s (Some a)"] assms(4) by blast
qed

lemma grown_deleteService:
  assumes "grown s0 s" "nextAddr s0 \<le> a" "a < nextAddr s"
  shows "grown s0 (deleteService a k s)"
  unfolding deleteService_def
proof (rule grown_assign[OF assms(1-3)])
  have "refsOf (ServicesObj (servicesOf s (Some a))) \<subseteq> {nextAddr s0..<nextAddr s}"
    using assms(1-3) by (intro grown_servicesOf) auto
  then show "refsOf (ServicesObj (AList.delete k (servicesOf s (Some a)))) \<subseteq> {nextAddr s0..<nextAddr s}"
    using refsOf_delete[of k "servicesOf s (Some a)"] by blast
qed

lemma grown_deleteDependsOn:
  assumes "grown s0 s" "set_option r \<subseteq> {nextAddr s0..<nextAddr s}"
  shows "grown s0 (deleteDependsOn r k s)"
proof (cases r)
  case None
  then show ?thesis using assms(1) by (simp add: deleteDependsOn_def)
next
  case (Some a)
  have "grown s0 (assign a (DependsOnObj (AList.delete k (dependsOnOf s r))) s)"
    using assms(2) Some by (intro grown_assign[OF assms(1)]) simp_all
  then show ?thesis using Some by (simp add: deleteDependsOn_def)
qed

lemma grown_setProject:
  assumes "grown s0 s" "nextAddr s0 \<le> p" "p < nextAddr s"
    "refsOf (ProjectObj (f (projectOf s p))) \<subseteq> {nextAddr s0..<nextAddr s}"
  shows "grown s0 (setProject p f s)"
  unfolding setProject_def using assms by (intro grown_assign)

text \<open>Copies.\<close>

lemma copyService_frame:
  assumes "grown s0 s" "copyService c s = (c', s')"
  shows "grown s0 s'" and "nextAddr s \<le> nextAddr s'"
    and "set_option (dependsOnRef c') \<subseteq> {nextAddr s..<nextAddr s'}"
proof -
  have "grown s0 s' \<and> nextAddr s \<le> nextAddr s' \<and>
        set_option (dependsOnRef c') \<subseteq> {nextAddr s..<nextAddr s'}"
  proof (cases "dependsOnRef c")
    case None
    then show ?thesis using assms by (simp add: copyService_def)
  next
    case (Some a)
    let ?obj = "DependsOnObj (dependsOnOf s (Some a))"
    from assms(2) Some have e: "c' = c\<lparr>dependsOnRef := Some (nextAddr s)\<rparr>" "s' = snd (alloc ?obj s)"
      by (auto simp: copyService_def newDependsOn_def alloc_def)
    have "grown s0 (snd (alloc ?obj s))" by (rule grown_alloc[OF assms(1)]) simp
    then show ?thesis unfolding e by simp
  qed
  then show "grown s0 s'" "nextAddr s \<le> nextAddr s'"
    "set_option (dependsOnRef c') \<subseteq> {nextAddr s..<nextAddr s'}" by blast+
qed

lemma refsOf_Cons:
  "refsOf (ServicesObj ((k, c) # m)) = set_option (dependsOnRef c) \<union> refsOf (ServicesObj m)"
  by simp

lemma copyEntries_frame:
  assumes "grown s0 s" "copyEntries m s = (m', s')"
  shows "grown s0 s' \<and> nextAddr s \<le> nextAddr s' \<and>
         refsOf (ServicesObj m') \<subseteq> {nextAddr s..<nextAddr s'}"
  using assms
proof (induction m arbitrary: s m' s')
  case Nil
  then show ?case by simp
next
  case (Cons x m)
  obtain k c where x: "x = (k, c)" by (cases x)
  obtain c' s1 where c: "copyService c s = (c', s1)" by (cases "copyService c s")
  obtain r s2 where r: "copyEntries m s1 = (r, s2)" by (cases "copyEntries m s1")
  from Cons.prems(2) x c r have e: "m' = (k, c') # r" "s' = s2" by simp_all
  note f = copyService_frame[OF Cons.prems(1) c]
  from Cons.IH[OF f(1) r] have g: "grown s0 s2" "nextAddr s1 \<le> nextAddr s2"
    "refsOf (ServicesObj r) \<subseteq> {nextAddr s1..<nextAddr s2}" by simp_all
  have a: "set_option (dependsOnRef c') \<subseteq> {nextAddr s..<nextAddr s2}"
    by (rule within_mono[OF f(3) le_refl g(2)])
  have b: "refsOf (ServicesObj r) \<subseteq> {nextAddr s..<nextAddr s2}"
    by (rule within_mono[OF g(3) f(2) le_refl])
  have 1: "refsOf (ServicesObj m') \<subseteq> {nextAddr s..<nextAddr s2}"
    unfolding e refsOf_Cons using a b by (rule Un_least)
  have 2: "nextAddr s \<le> nextAddr s2" using f(2) g(2) by (rule le_trans)
  show ?case unfolding e(2) by (intro conjI g(1) 1 2)
qed

lemma copyServices_frame:
  assumes "grown s0 s" "copyServices r s = (r', s')"
  shows "grown s0 s'" and "nextAddr s \<le> nextAddr s'"
    and "set_option r' \<subseteq> {nextAddr s..<nextAddr s'}"
proof -
  have "grown s0 s' \<and> nextAddr s \<le> nextAddr s' \<and> set_option r' \<subseteq> {nextAddr s..<nextAddr s'}"
  proof (cases r)
    case None
    then show ?thesis using assms by (simp add: copyServices_def)
  next
    case (Some a)
    obtain m s1 where m: "copyEntries (servicesOf s r) s = (m, s1)"
      by (cases "copyEntries (servicesOf s r) s")
    from copyEntries_frame[OF assms(1) m]
    have f: "grown s0 s1" "nextAddr s \<le> nextAddr s1"
      "refsOf (ServicesObj m) \<subseteq> {nextAddr s..<nextAddr s1}" by simp_all
    from assms(2) Some m have e: "r' = Some (nextAddr s1)" "s' = snd (alloc (ServicesObj m) s1)"
      by (auto simp: copyServices_def newServices_def alloc_def)
    have "refsOf (ServicesObj m) \<subseteq> {nextAddr s0..<nextAddr s1}"
      by (rule within_mono[OF f(3) grown_le[OF assms(1)] le_refl])
    from grown_alloc[OF f(1) this] have 1: "grown s0 s'" unfolding e .
    have 2: "nextAddr s \<le> nextAddr s'" unfolding e using f(2) by simp
    have 3: "set_option r' \<subseteq> {nextAddr s..<nextAddr s'}" unfolding e using f(2) by simp
    show ?thesis using 1 2 3 by blast
  qed
  then show "grown s0 s'" "nextAddr s \<le> nextAddr s'" "set_option r' \<subseteq> {nextAddr s..<nextAddr s'}"
    by blast+
qed

lemma deepCopy_at_frame:
  assumes "grown s0 s" "deepCopy_at p s = (np, s')"
  shows "grown s0 s'" and "nextAddr s \<le> np" and "np < nextAddr s'"
proof -
  obtain r1 s1 where c1: "copyServices (servicesRef (projectOf s p)) s = (r1, s1)"
    by (cases "copyServices (servicesRef (projectOf s p)) s")
  obtain r2 s2 where c2: "copyServices (disabledServicesRef (projectOf s p)) s1 = (r2, s2)"
    by (cases "copyServices (disabledServicesRef (projectOf s p)) s1")
  note f1 = copyServices_frame[OF assms(1) c1]
  note f2 = copyServices_frame[OF f1(1) c2]
  let ?P = "(projectOf s p)\<lparr>servicesRef := r1, disabledServicesRef := r2\<rparr>"
  from assms(2) c1 c2 have e: "np = nextAddr s2" "s' = snd (alloc (ProjectObj ?P) s2)"
    by (auto simp: deepCopy_at_def newProject_def alloc_def)
  have a: "set_option r1 \<subseteq> {nextAddr s0..<nextAddr s2}"
    by (rule within_mono[OF f1(3) grown_le[OF assms(1)] f2(2)])
  have b: "set_option r2 \<subseteq> {nextAddr s0..<nextAddr s2}"
    by (rule within_mono[OF f2(3) grown_le[OF f1(1)] le_refl])
  have "refsOf (ProjectObj ?P) \<subseteq> {nextAddr s0..<nextAddr s2}"
    using a b by simp
  from grown_alloc[OF f2(1) this] show "grown s0 s'" unfolding e .
  show "nextAddr s \<le> np" unfolding e using f1(2) f2(2) by (rule le_trans)
  show "np < nextAddr s'" unfolding e by simp
qed

lemma fold_inv:
  assumes "\<And>x s. x \<in> set xs \<Longrightarrow> Q s \<Longrightarrow> Q (f x s)" and "Q s"
  shows "Q (fold f xs s)"
  using assms by (induction xs arbitrary: s) auto

lemma grown_servicesRef:
  assumes "grown s0 s" "nextAddr s0 \<le> np" "np < nextAddr s"
  shows "set_option (servicesRef (projectOf s np)) \<subseteq> {nextAddr s0..<nextAddr s}"
    and "set_option (disabledServicesRef (projectOf s np)) \<subseteq> {nextAddr s0..<nextAddr s}"
  using grown_projectOf[OF assms] by simp_all

lemma grown_services:
  assumes "grown s0 s" "nextAddr s0 \<le> np" "np < nextAddr s"
  shows "refsOf (ServicesObj (servicesOf s (servicesRef (projectOf s np)))) \<subseteq> {nextAddr s0..<nextAddr s}"
    and "refsOf (ServicesObj (servicesOf s (disabledServicesRef (projectOf s np)))) \<subseteq> {nextAddr s0..<nextAddr s}"
  by (rule grown_servicesOf[OF assms(1) grown_servicesRef(1)[OF assms]])
     (rule grown_servicesOf[OF assms(1) grown_servicesRef(2)[OF assms]])

lemma entry_within:
  assumes "refsOf (ServicesObj m) \<subseteq> R" "(k, c) \<in> set m"
  shows "set_option (dependsOnRef c) \<subseteq> R"
  using assms by auto

lemma fold_putService_frame:
  assumes "grown s0 s"
    and "refsOf (ServicesObj xs) \<subseteq> {nextAddr s0..<nextAddr s}"
    and g: "\<And>name service. nextAddr s0 \<le> g name service \<and> g name service < nextAddr s"
  shows "grown s0 (fold (\<lambda>(name, service) s. putService (g name service) name service s) xs s) \<and>
         nextAddr (fold (\<lambda>(name, service) s. putService (g name service) name service s) xs s) = nextAddr s"
proof (rule fold_inv[where Q = "\<lambda>t. grown s0 t \<and> nextAddr t = nextAddr s"])
  show "grown s0 s \<and> nextAddr s = nextAddr s" using assms(1) by simp
next
  fix x t assume x: "x \<in> set xs" and q: "grown s0 t \<and> nextAddr t = nextAddr s"
  obtain k c where kc: "x = (k, c)" by (cases x)
  have "set_option (dependsOnRef c) \<subseteq> {nextAddr s0..<nextAddr t}"
    using entry_within[OF assms(2)] x kc q by simp
  then have "grown s0 (putService (g k c) k c t)"
    using q g[of k c] by (intro grown_putService) simp_all
  then show "grown s0 ((\<lambda>(name, service) s. putService (g name service) name service s) x t) \<and>
             nextAddr ((\<lambda>(name, service) s. putService (g name service) name service s) x t) = nextAddr s"
    using q kc by simp
qed

lemma AllServices_at_frame:
  assumes "grown s0 s" "nextAddr s0 \<le> np" "np < nextAddr s" "AllServices_at np s = (all, s')"
  shows "grown s0 s'" and "all = nextAddr s" and "nextAddr s' = Suc (nextAddr s)"
proof -
  let ?s1 = "snd (alloc (ServicesObj []) s)"
  let ?put = "\<lambda>(name, service) s. putService (nextAddr s) name service s"
  let ?f = "\<lambda>(name, service) t. putService (nextAddr s) name service t"
  let ?s2 = "fold ?f (servicesOf ?s1 (servicesRef (projectOf ?s1 np))) ?s1"
  let ?s3 = "fold ?f (servicesOf ?s2 (disabledServicesRef (projectOf ?s2 np))) ?s2"
  from assms(4) have e: "all = nextAddr s" "s' = ?s3"
    by (auto simp: AllServices_at_def newServices_def alloc_def Let_def)
  have g1: "grown s0 ?s1" by (rule grown_alloc[OF assms(1)]) simp
  have le: "nextAddr s0 \<le> nextAddr s" using assms(1) by (rule grown_le)
  have np1: "nextAddr s0 \<le> np" "np < nextAddr ?s1" using assms(2,3) by simp_all
  have a1: "\<And>name service. nextAddr s0 \<le> (\<lambda>(_::string) (_::ServiceStruct). nextAddr s) name service \<and>
      (\<lambda>(_::string) (_::ServiceStruct). nextAddr s) name service < nextAddr ?s1"
    using le by simp
  from fold_putService_frame[OF g1 grown_services(1)[OF g1 np1] a1]
  have g2: "grown s0 ?s2" "nextAddr ?s2 = nextAddr ?s1" by simp_all
  have np2: "nextAddr s0 \<le> np" "np < nextAddr ?s2" using assms(2,3) g2(2) by simp_all
  have a2: "\<And>name service. nextAddr s0 \<le> (\<lambda>(_::string) (_::ServiceStruct). nextAddr s) name service \<and>
      (\<lambda>(_::string) (_::ServiceStruct). nextAddr s) name service < nextAddr ?s2"
    using le g2(2) by simp
  from fold_putService_frame[OF g2(1) grown_services(2)[OF g2(1) np2] a2]
  have g3: "grown s0 ?s3" "nextAddr ?s3 = nextAddr ?s2" by simp_all
  show "grown s0 s'" using g3(1) e(2) by simp
  show "all = nextAddr s" by (rule e(1))
  show "nextAddr s' = Suc (nextAddr s)" using g3(2) g2(2) e(2) by simp
qed

lemma alloc_case:
  "(case alloc obj s of (a, t) \<Rightarrow> F a t) = F (nextAddr s) (snd (alloc obj s))"
  by (simp add: alloc_def)

lemma grown_setProject_refs:
  assumes "grown s0 s" "nextAddr s0 \<le> np" "np < nextAddr s"
    and "refsOf (ProjectObj (f (projectOf s np))) \<subseteq> refsOf (ProjectObj (projectOf s np)) \<union> R"
    and "R \<subseteq> {nextAddr s0..<nextAddr s}"
  shows "grown s0 (setProject np f s)"
proof (rule grown_setProject[OF assms(1-3)])
  show "refsOf (ProjectObj (f (projectOf s np))) \<subseteq> {nextAddr s0..<nextAddr s}"
    using assms(4,5) grown_projectOf[OF assms(1-3)] by blast
qed

lemma WithProfiles_at_frame:
  assumes "grown s0 s" "WithProfiles_at p profiles s = (r, s')"
  shows "grown s0 s' \<and> (\<exists>np. r = Inr np \<and> nextAddr s \<le> np \<and> np < nextAddr s')"
proof -
  obtain np s1 where c: "deepCopy_at p s = (np, s1)" by (cases "deepCopy_at p s")
  note f1 = deepCopy_at_frame[OF assms(1) c]
  have le0: "nextAddr s0 \<le> nextAddr s" using assms(1) by (rule grown_le)
  have np0: "nextAddr s0 \<le> np" using le0 f1(2) by simp
  show ?thesis
  proof (cases "list_ex (\<lambda>q. q = ''*'') profiles")
    case True
    then have "r = Inr np" "s' = s1" using assms(2) c by (simp_all add: WithProfiles_at_def)
    then show ?thesis using f1 by simp
  next
    case False
    let ?enabled = "nextAddr s1"
    let ?s2 = "snd (alloc (ServicesObj []) s1)"
    let ?disabled = "nextAddr ?s2"
    let ?s3 = "snd (alloc (ServicesObj []) ?s2)"
    obtain all s4 where a: "AllServices_at np ?s3 = (all, s4)" by (cases "AllServices_at np ?s3")
    let ?g = "\<lambda>(name::string) service. if HasProfile (body service) profiles then ?enabled else ?disabled"
    let ?s5 = "fold (\<lambda>(name, service) s.
                 if HasProfile (body service) profiles
                 then putService ?enabled name service s
                 else putService ?disabled name service s) (servicesOf s4 (Some all)) s4"
    let ?s6 = "setProject np (\<lambda>P. P\<lparr>servicesRef := Some ?enabled\<rparr>) ?s5"
    let ?s7 = "setProject np (\<lambda>P. P\<lparr>disabledServicesRef := Some ?disabled\<rparr>) ?s6"
    let ?s8 = "setProject np (\<lambda>P. P\<lparr>header := (header P)\<lparr>Profiles := profiles\<rparr>\<rparr>) ?s7"
    have fe: "(\<lambda>(name, service) s.
                 if HasProfile (body service) profiles
                 then putService ?enabled name service s
                 else putService ?disabled name service s) =
              (\<lambda>(name, service) s. putService (?g name service) name service s)"
      by (auto simp: fun_eq_iff)
    from assms(2) c a False have e: "r = Inr np" "s' = ?s8"
      by (simp_all add: WithProfiles_at_def newServices_def alloc_case Let_def del: alloc_next)
    have g2: "grown s0 ?s2" by (rule grown_alloc[OF f1(1)]) simp
    have g3: "grown s0 ?s3" by (rule grown_alloc[OF g2]) simp
    have np3: "np < nextAddr ?s3" using f1(3) by simp
    note f4 = AllServices_at_frame[OF g3 np0 np3 a]
    have n4: "nextAddr s4 = Suc (Suc (Suc (nextAddr s1)))" using f4(3) by simp
    have le1: "nextAddr s0 \<le> nextAddr s1" using np0 f1(3) by simp
    have all: "set_option (Some all) \<subseteq> {nextAddr s0..<nextAddr s4}"
      using f4(2) n4 le1 by simp
    have gg: "\<And>name service. nextAddr s0 \<le> ?g name service \<and> ?g name service < nextAddr s4"
      using n4 le1 by simp
    from fold_putService_frame[OF f4(1) grown_servicesOf[OF f4(1) all], of ?g, OF gg]
    have g5: "grown s0 ?s5" "nextAddr ?s5 = nextAddr s4" unfolding fe by simp_all
    have np5: "np < nextAddr ?s5" using g5(2) n4 f1(3) by simp
    have g6: "grown s0 ?s6"
      by (rule grown_setProject_refs[OF g5(1) np0 np5, where R = "{?enabled}"])
         (use g5(2) n4 le1 in auto)
    have np6: "np < nextAddr ?s6" using np5 by simp
    have g7: "grown s0 ?s7"
      by (rule grown_setProject_refs[OF g6 np0 np6, where R = "{?disabled}"])
         (use g5(2) n4 le1 in auto)
    have np7: "np < nextAddr ?s7" using np6 by simp
    have g8: "grown s0 ?s8"
      by (rule grown_setProject_refs[OF g7 np0 np7, where R = "{}"]) auto
    have "nextAddr ?s8 = nextAddr s4" using g5(2) by simp
    then show ?thesis using g8 e f1(2) np5 g5(2) by simp
  qed
qed

lemma grown_putService_ref:
  assumes "grown s0 s" "nextAddr s0 \<le> np" "np < nextAddr s"
    and "set_option (dependsOnRef c) \<subseteq> {nextAddr s0..<nextAddr s}"
  shows "grown s0 (case servicesRef (projectOf s np) of None \<Rightarrow> s | Some a \<Rightarrow> putService a k c s)"
    and "grown s0 (case disabledServicesRef (projectOf s np) of None \<Rightarrow> s | Some a \<Rightarrow> putService a k c s)"
proof -
  note r = grown_servicesRef[OF assms(1-3)]
  show "grown s0 (case servicesRef (projectOf s np) of None \<Rightarrow> s | Some a \<Rightarrow> putService a k c s)"
  proof (cases "servicesRef (projectOf s np)")
    case None
    then show ?thesis using assms(1) by simp
  next
    case (Some a)
    then have "grown s0 (putService a k c s)"
      using r(1) assms(4) by (intro grown_putService[OF assms(1)]) simp_all
    then show ?thesis using Some by simp
  qed
  show "grown s0 (case disabledServicesRef (projectOf s np) of None \<Rightarrow> s | Some a \<Rightarrow> putService a k c s)"
  proof (cases "disabledServicesRef (projectOf s np)")
    case None
    then show ?thesis using assms(1) by simp
  next
    case (Some a)
    then have "grown s0 (putService a k c s)"
      using r(2) assms(4) by (intro grown_putService[OF assms(1)]) simp_all
    then show ?thesis using Some by simp
  qed
qed

lemma putService_ref_next [simp]:
  "nextAddr (case r of None \<Rightarrow> s | Some a \<Rightarrow> putService a k c s) = nextAddr s"
  by (cases r) simp_all

lemma resolveServices_at_frame:
  assumes "grown s0 s" "nextAddr s0 \<le> np" "np < nextAddr s"
    and "refsOf (ServicesObj xs) \<subseteq> {nextAddr s0..<nextAddr s}"
    and "resolveServices_at io d np xs s = (r, s')"
  shows "grown s0 s' \<and> nextAddr s' = nextAddr s \<and> (\<forall>a. r = Inr a \<longrightarrow> a = np)"
  using assms
proof (induction xs arbitrary: s)
  case Nil
  then show ?case by auto
next
  case (Cons x xs)
  obtain i c where x: "x = (i, c)" by (cases x)
  show ?case
  proof (cases "resolveService io d (header (projectOf s np)) (body c)")
    case (Inl err)
    then show ?thesis using Cons.prems x by auto
  next
    case (Inr b)
    let ?t = "case servicesRef (projectOf s np) of None \<Rightarrow> s | Some a \<Rightarrow> putService a i (c\<lparr>body := b\<rparr>) s"
    have c: "set_option (dependsOnRef (c\<lparr>body := b\<rparr>)) \<subseteq> {nextAddr s0..<nextAddr s}"
      using Cons.prems(4) x by (simp add: refsOf_Cons)
    have g: "grown s0 ?t" by (rule grown_putService_ref(1)[OF Cons.prems(1-3) c])
    have n: "nextAddr ?t = nextAddr s" by simp
    have xs: "refsOf (ServicesObj xs) \<subseteq> {nextAddr s0..<nextAddr ?t}"
      using Cons.prems(4) x unfolding n by (simp add: refsOf_Cons)
    have r: "resolveServices_at io d np xs ?t = (r, s')"
      using Cons.prems(5) x Inr by simp
    from Cons.IH[OF g Cons.prems(2) _ xs r] Cons.prems(3)
    show ?thesis unfolding n by simp
  qed
qed

lemma WithServicesEnvironmentResolved_at_frame:
  assumes "grown s0 s" "WithServicesEnvironmentResolved_at io p d s = (r, s')"
  shows "grown s0 s' \<and> nextAddr s \<le> nextAddr s' \<and>
         (\<forall>np. r = Inr np \<longrightarrow> nextAddr s \<le> np \<and> np < nextAddr s')"
proof -
  obtain np s1 where c: "deepCopy_at p s = (np, s1)" by (cases "deepCopy_at p s")
  note f1 = deepCopy_at_frame[OF assms(1) c]
  have np0: "nextAddr s0 \<le> np" using grown_le[OF assms(1)] f1(2) by simp
  have r: "resolveServices_at io d np (servicesOf s1 (servicesRef (projectOf s1 np))) s1 = (r, s')"
    using assms(2) c by (simp add: WithServicesEnvironmentResolved_at_def)
  from resolveServices_at_frame[OF f1(1) np0 f1(3) grown_services(1)[OF f1(1) np0 f1(3)] r]
  show ?thesis using f1(2,3) by auto
qed

lemma WithServicesEnabled_at_frame:
  assumes "grown s0 s" "WithServicesEnabled_at io p names s = (r, s')"
  shows "grown s0 s' \<and> nextAddr s \<le> nextAddr s' \<and>
         (\<forall>np. r = Inr np \<longrightarrow> nextAddr s \<le> np \<and> np < nextAddr s')"
proof -
  obtain np s1 where c: "deepCopy_at p s = (np, s1)" by (cases "deepCopy_at p s")
  note f1 = deepCopy_at_frame[OF assms(1) c]
  have le1: "nextAddr s \<le> nextAddr s1" using f1(2,3) by simp
  show ?thesis
  proof (cases "length names = 0")
    case True
    then have "r = Inr np" "s' = s1" using assms(2) c by (simp_all add: WithServicesEnabled_at_def)
    then show ?thesis using f1 by simp
  next
    case False
    let ?profiles = "fold (\<lambda>name profiles.
                           if map_of (servicesOf s1 (servicesRef (projectOf s1 np))) name \<noteq> None then profiles
                           else profiles @
                                  (case map_of (servicesOf s1 (disabledServicesRef (projectOf s1 p))) name of
                                     None \<Rightarrow> []
                                   | Some service \<Rightarrow> sProfiles (body service)))
                     names ([] @ Profiles (header (projectOf s1 p)))"
    obtain r2 s2 where w: "WithProfiles_at np ?profiles s1 = (r2, s2)"
      by (cases "WithProfiles_at np ?profiles s1")
    from WithProfiles_at_frame[OF f1(1) w] obtain np2 where
      g2: "grown s0 s2" and r2: "r2 = Inr np2" and np2: "nextAddr s1 \<le> np2" "np2 < nextAddr s2"
      by blast
    have e: "WithServicesEnvironmentResolved_at io np2 True s2 = (r, s')"
      using assms(2) c False w r2 by (simp add: WithServicesEnabled_at_def Let_def)
    from WithServicesEnvironmentResolved_at_frame[OF g2 e] np2 le1
    show ?thesis by auto
  qed
qed

lemma WithoutUnnecessaryResources_at_frame:
  assumes "grown s0 s" "WithoutUnnecessaryResources_at p s = (np, s')"
  shows "grown s0 s' \<and> nextAddr s \<le> np \<and> np < nextAddr s'"
proof -
  obtain np1 s1 where c: "deepCopy_at p s = (np1, s1)" by (cases "deepCopy_at p s")
  note f1 = deepCopy_at_frame[OF assms(1) c]
  have np0: "nextAddr s0 \<le> np1" using grown_le[OF assms(1)] f1(2) by simp
  have step: "grown s0 (setProject np1 (\<lambda>P. P\<lparr>header := h P\<rparr>) t)"
    if "grown s0 t" "np1 < nextAddr t" for t h
    by (rule grown_setProject_refs[OF that(1) np0 that(2), where R = "{}"]) auto
  let ?req = "fold (\<lambda>(_, c) (requiredNetworks, requiredVolumes, requiredSecrets, requiredConfigs).
                   (requireAll (map fst (sNetworks (body c))) requiredNetworks,
                    requireAll (map volSource
                                  (filter (\<lambda>v. \<not> (volType v \<noteq> VolumeTypeVolume \<or> volSource v = []))
                                     (sVolumes (body c)))) requiredVolumes,
                    (let requiredSecrets = requireAll (map refSource (sSecrets (body c))) requiredSecrets
                     in case Build (body c) of
                          None \<Rightarrow> requiredSecrets
                        | Some b \<Rightarrow> requireAll (map refSource (buildSecrets b)) requiredSecrets),
                    requireAll (map refSource (sConfigs (body c))) requiredConfigs))
                 (servicesOf s1 (servicesRef (projectOf s1 np1))) ([], [], [], [])"
  obtain rn rv rs rc where q: "?req = (rn, rv, rs, rc)" by (cases ?req)
  let ?t1 = "setProject np1 (\<lambda>P. P\<lparr>header := (header P)
                           \<lparr>Networks := pick (Networks (header (projectOf s1 p))) rn\<rparr>\<rparr>) s1"
  let ?t2 = "setProject np1 (\<lambda>P. P\<lparr>header := (header P)
                           \<lparr>Volumes := pick (Volumes (header (projectOf ?t1 p))) rv\<rparr>\<rparr>) ?t1"
  let ?t3 = "setProject np1 (\<lambda>P. P\<lparr>header := (header P)
                           \<lparr>Secrets := pick (Secrets (header (projectOf ?t2 p))) rs\<rparr>\<rparr>) ?t2"
  let ?t4 = "setProject np1 (\<lambda>P. P\<lparr>header := (header P)
                           \<lparr>Configs := pick (Configs (header (projectOf ?t3 p))) rc\<rparr>\<rparr>) ?t3"
  from assms(2) c q have e: "np = np1" "s' = ?t4"
    by (auto simp: WithoutUnnecessaryResources_at_def Let_def)
  have g1: "grown s0 ?t1" by (rule step[OF f1(1,3)])
  have g2: "grown s0 ?t2" by (rule step[OF g1]) (simp add: f1(3))
  have g3: "grown s0 ?t3" by (rule step[OF g2]) (simp add: f1(3))
  have g4: "grown s0 ?t4" by (rule step[OF g3]) (simp add: f1(3))
  show ?thesis unfolding e using g4 f1(2,3) by simp
qed

lemma WithImagesResolved_at_frame:
  assumes "grown s0 s" "WithImagesResolved_at lib p resolver s = ((np, err), s')"
  shows "grown s0 s' \<and> nextAddr s \<le> np \<and> np < nextAddr s'"
proof -
  obtain np1 s1 where c: "deepCopy_at p s = (np1, s1)" by (cases "deepCopy_at p s")
  note f1 = deepCopy_at_frame[OF assms(1) c]
  have np0: "nextAddr s0 \<le> np1" using grown_le[OF assms(1)] f1(2) by simp
  let ?xs = "servicesOf s1 (servicesRef (projectOf s1 np1))"
  let ?Q = "\<lambda>(e::error option, t). grown s0 t \<and> nextAddr t = nextAddr s1"
  have "?Q (fold (imageStep_at lib resolver np1) ?xs (None, s1))"
  proof (rule fold_inv[where Q = ?Q])
    show "?Q (None, s1)" using f1(1) by simp
  next
    fix x et assume x: "x \<in> set ?xs" and q: "?Q et"
    obtain idx c where xc: "x = (idx, c)" by (cases x)
    obtain e t where et: "et = (e, t)" by (cases et)
    have gt: "grown s0 t" "nextAddr t = nextAddr s1" using q et by simp_all
    have npt: "np1 < nextAddr t" using gt(2) f1(3) by simp
    have "set_option (dependsOnRef c) \<subseteq> {nextAddr s0..<nextAddr s1}"
      using entry_within[OF grown_services(1)[OF f1(1) np0 f1(3)]] x xc by simp
    then have cr: "set_option (dependsOnRef (c\<lparr>body := b\<rparr>)) \<subseteq> {nextAddr s0..<nextAddr t}" for b
      using gt(2) by simp
    show "?Q (imageStep_at lib resolver np1 x et)"
      using gt grown_putService_ref(1)[OF gt(1) np0 npt cr]
      by (auto simp: imageStep_at_def xc et split: sum.splits)
  qed
  moreover from assms(2) c have "np = np1"
    "s' = snd (fold (imageStep_at lib resolver np1) ?xs (None, s1))"
    by (auto simp: WithImagesResolved_at_def split: prod.splits)
  ultimately show ?thesis using f1(2,3) by (auto split: prod.splits)
qed

lemma stripDependency_at_frame:
  assumes "grown s0 s" "nextAddr s0 \<le> np" "np < nextAddr s"
  shows "grown s0 (stripDependency_at np name s) \<and> nextAddr (stripDependency_at np name s) = nextAddr s"
  unfolding stripDependency_at_def
proof (rule fold_inv[where Q = "\<lambda>t. grown s0 t \<and> nextAddr t = nextAddr s"])
  show "grown s0 s \<and> nextAddr s = nextAddr s" using assms(1) by simp
next
  fix x t assume x: "x \<in> set (servicesOf s (servicesRef (projectOf s np)))"
    and q: "grown s0 t \<and> nextAddr t = nextAddr s"
  obtain i c where xc: "x = (i, c)" by (cases x)
  have cr: "set_option (dependsOnRef c) \<subseteq> {nextAddr s0..<nextAddr t}"
    using entry_within[OF grown_services(1)[OF assms]] x xc q by simp
  let ?t1 = "deleteDependsOn (dependsOnRef c) name t"
  have g1: "grown s0 ?t1" using q cr by (intro grown_deleteDependsOn) simp_all
  have cr1: "set_option (dependsOnRef c) \<subseteq> {nextAddr s0..<nextAddr ?t1}" using cr by simp
  have np1: "np < nextAddr ?t1" using q assms(3) by simp
  note g2 = grown_putService_ref(1)[OF g1 assms(2) np1 cr1, of i]
  show "grown s0 ((\<lambda>(i, c) s.
             if map_of (dependsOnOf s (dependsOnRef c)) name \<noteq> None
             then (let s = deleteDependsOn (dependsOnRef c) name s
                   in case servicesRef (projectOf s np) of
                        None \<Rightarrow> s
                      | Some a \<Rightarrow> putService a i c s)
             else s) x t) \<and>
        nextAddr ((\<lambda>(i, c) s.
             if map_of (dependsOnOf s (dependsOnRef c)) name \<noteq> None
             then (let s = deleteDependsOn (dependsOnRef c) name s
                   in case servicesRef (projectOf s np) of
                        None \<Rightarrow> s
                      | Some a \<Rightarrow> putService a i c s)
             else s) x t) = nextAddr s"
    using q g2 by (simp add: xc Let_def)
qed

lemma disableService_at_frame:
  assumes "grown s0 s" "nextAddr s0 \<le> np" "np < nextAddr s"
  shows "grown s0 (disableService_at np name s) \<and> nextAddr (disableService_at np name s) = nextAddr s"
proof -
  let ?t = "stripDependency_at np name s"
  from stripDependency_at_frame[OF assms] have g: "grown s0 ?t" and n: "nextAddr ?t = nextAddr s"
    by simp_all
  have npt: "np < nextAddr ?t" using n assms(3) by simp
  show ?thesis
  proof (cases "map_of (servicesOf ?t (servicesRef (projectOf ?t np))) name")
    case None
    then show ?thesis using g n by (simp add: disableService_at_def Let_def)
  next
    case (Some service)
    have cr: "set_option (dependsOnRef service) \<subseteq> {nextAddr s0..<nextAddr ?t}"
      using refsOf_map_of[OF Some] grown_services(1)[OF g assms(2) npt] by blast
    let ?t1 = "case disabledServicesRef (projectOf ?t np) of None \<Rightarrow> ?t | Some a \<Rightarrow> putService a name service ?t"
    have g1: "grown s0 ?t1" by (rule grown_putService_ref(2)[OF g assms(2) npt cr])
    have n1: "nextAddr ?t1 = nextAddr s" using n by simp
    have np1: "np < nextAddr ?t1" using n1 assms(3) by simp
    let ?t2 = "case servicesRef (projectOf ?t1 np) of None \<Rightarrow> ?t1 | Some a \<Rightarrow> deleteService a name ?t1"
    have g2: "grown s0 ?t2 \<and> nextAddr ?t2 = nextAddr s"
    proof (cases "servicesRef (projectOf ?t1 np)")
      case None
      then show ?thesis using g1 n1 by simp
    next
      case (Some a)
      have "grown s0 (deleteService a name ?t1)"
        using grown_servicesRef(1)[OF g1 assms(2) np1] Some
        by (intro grown_deleteService[OF g1]) simp_all
      then show ?thesis using Some n1 by simp
    qed
    have "disableService_at np name s = ?t2"
      using Some by (simp add: disableService_at_def Let_def)
    then show ?thesis using g2 by simp
  qed
qed

lemma WithServicesDisabled_at_frame:
  assumes "grown s0 s" "WithServicesDisabled_at p names s = (np, s')"
  shows "grown s0 s' \<and> nextAddr s \<le> np \<and> np < nextAddr s'"
proof -
  obtain np1 s1 where c: "deepCopy_at p s = (np1, s1)" by (cases "deepCopy_at p s")
  note f1 = deepCopy_at_frame[OF assms(1) c]
  have np0: "nextAddr s0 \<le> np1" using grown_le[OF assms(1)] f1(2) by simp
  show ?thesis
  proof (cases "length names = 0")
    case True
    then have "np = np1" "s' = s1" using assms(2) c by (auto simp: WithServicesDisabled_at_def)
    then show ?thesis using f1 by simp
  next
    case False
    let ?a = "nextAddr s1"
    let ?t1 = "snd (alloc (ServicesObj []) s1)"
    let ?t2 = "setProject np1 (\<lambda>P. P\<lparr>disabledServicesRef := Some ?a\<rparr>) ?t1"
    let ?s2 = "if disabledServicesRef (projectOf s1 np1) = None then ?t2 else s1"
    have g2: "grown s0 ?s2 \<and> nextAddr s1 \<le> nextAddr ?s2"
    proof (cases "disabledServicesRef (projectOf s1 np1) = None")
      case True
      have gt1: "grown s0 ?t1" by (rule grown_alloc[OF f1(1)]) simp
      have "grown s0 ?t2"
        by (rule grown_setProject_refs[OF gt1 np0, where R = "{?a}"])
           (use f1(3) np0 in auto)
      then show ?thesis using True by simp
    next
      case False
      then show ?thesis using f1(1) by auto
    qed
    have np2: "np1 < nextAddr ?s2" using g2 f1(3) by simp
    have "grown s0 (fold (disableService_at np1) names ?s2) \<and>
          nextAddr (fold (disableService_at np1) names ?s2) = nextAddr ?s2"
    proof (rule fold_inv[where Q = "\<lambda>t. grown s0 t \<and> nextAddr t = nextAddr ?s2"])
      show "grown s0 ?s2 \<and> nextAddr ?s2 = nextAddr ?s2" using g2 by simp
    next
      fix x t assume "grown s0 t \<and> nextAddr t = nextAddr ?s2"
      then show "grown s0 (disableService_at np1 x t) \<and> nextAddr (disableService_at np1 x t) = nextAddr ?s2"
        using disableService_at_frame[of s0 t np1 x] np0 np2 by simp
    qed
    moreover from assms(2) c False have "np = np1" "s' = fold (disableService_at np1) names ?s2"
      by (auto simp: WithServicesDisabled_at_def newServices_def alloc_case Let_def)
    ultimately show ?thesis using f1(2) np2 by simp
  qed
qed

lemma lookup_fold_keys:
  "keys (fst (fold (\<lambda>name (services, servicesNotFound).
                   case map_of m name of
                     None \<Rightarrow> (services, servicesNotFound @ [name])
                   | Some service \<Rightarrow> (AList.update name service services, servicesNotFound))
             names (acc, nf))) \<subseteq> keys acc \<union> keys m"
proof (induction names arbitrary: acc nf)
  case Nil then show ?case by simp
next
  case (Cons n ns)
  show ?case
  proof (cases "map_of m n")
    case None
    then show ?thesis using Cons.IH[of acc "nf @ [n]"] by simp
  next
    case (Some x)
    then have "n \<in> keys m" by (simp add: keys_map_of)
    then show ?thesis using Cons.IH[of "AList.update n x acc" nf] Some
      by (auto simp: keys_update)
  qed
qed

lemma getServicesByNames_at_keys:
  "keys (fst (getServicesByNames_at s p names)) \<subseteq> keys (servicesOf s (servicesRef (projectOf s p)))"
  using lookup_fold_keys[of "servicesOf s (servicesRef (projectOf s p))" names "[]" "[]"]
  by (auto simp: getServicesByNames_at_def keys_Nil)

text \<open>
  What holds of the store before a walk holds after it, when the copies for the visitor
  and the visitor keep it; and the set \<open>seen\<close> only grows.
\<close>

lemma withServices_range_at_inv:
  fixes fn :: "'st ServiceFunc_at"
  assumes copy: "\<And>c s a s'. Q s \<Longrightarrow> ServiceConfig_deepCopy_at c s = (a, s') \<Longrightarrow> Q s' \<and> V a s'"
    and visit: "\<And>name a st s. Q s \<Longrightarrow> V a s \<Longrightarrow> Q (snd (fn name a st s))"
    and inner: "\<And>names seen dependencies st s r s'.
        withServices_at n p names fn seen options dependencies st s = Some (r, s') \<Longrightarrow> Q s \<Longrightarrow>
           Q s' \<and> (\<forall>seen' st'. r = Inr (seen', st') \<longrightarrow> seen \<subseteq> seen')"
  shows "withServices_range_at n p xs fn seen options st s = Some (r, s') \<Longrightarrow> Q s \<Longrightarrow>
           Q s' \<and> (\<forall>seen' st'. r = Inr (seen', st') \<longrightarrow> seen \<subseteq> seen')"
proof (induction xs arbitrary: seen st s)
  case Nil
  then show ?case by auto
next
  case (Cons x rest)
  obtain name service where x: "x = (name, service)" by (cases x)
  show ?case
  proof (cases "name \<in> seen")
    case True
    then have "withServices_range_at n p rest fn seen options st s = Some (r, s')"
      using Cons.prems(1) x by simp
    from Cons.IH[OF this Cons.prems(2)] show ?thesis .
  next
    case False
    let ?seen1 = "insert name seen"
    let ?deps = "serviceDependencies (theProject s p) options (theService s service)"
    let ?inner = "if length ?deps > 0
                  then withServices_at n p (MapKeys ?deps) fn ?seen1 options ?deps st s
                  else Some (Inr (?seen1, st), s)"
    from Cons.prems(1) False x obtain r1 s1 where i: "?inner = Some (r1, s1)"
      by (cases ?inner) (auto simp: Let_def)
    have q1: "Q s1 \<and> (\<forall>seen' st'. r1 = Inr (seen', st') \<longrightarrow> ?seen1 \<subseteq> seen')"
    proof (cases "length ?deps > 0")
      case True
      then have "withServices_at n p (MapKeys ?deps) fn ?seen1 options ?deps st s = Some (r1, s1)"
        using i by simp
      from inner[OF this Cons.prems(2)] show ?thesis .
    next
      case False
      then show ?thesis using i Cons.prems(2) by auto
    qed
    show ?thesis
    proof (cases r1)
      case (Inl err)
      then have "r = Inl err" "s' = s1" using Cons.prems(1) False i x by (auto simp: Let_def)
      then show ?thesis using q1 by simp
    next
      case (Inr y)
      obtain seen2 st2 where y: "y = (seen2, st2)" by (cases y)
      obtain a s2 where c: "ServiceConfig_deepCopy_at service s1 = (a, s2)"
        by (cases "ServiceConfig_deepCopy_at service s1")
      obtain r3 s3 where v: "fn name a st2 s2 = (r3, s3)" by (cases "fn name a st2 s2")
      have q2: "Q s2 \<and> V a s2" using copy[OF _ c] q1 by simp
      have q3: "Q s3" using visit[of s2 a name st2] q2 unfolding v by simp
      have sub: "?seen1 \<subseteq> seen2" using q1 Inr y by simp
      show ?thesis
      proof (cases r3)
        case (Inl err)
        then have "r = Inl err" "s' = s3"
          using Cons.prems(1) False i Inr x y c v by (auto simp: Let_def)
        then show ?thesis using q3 by simp
      next
        case r3: (Inr st3)
        have rest: "withServices_range_at n p rest fn seen2 options st3 s3 = Some (r, s')"
          using Cons.prems(1) False i Inr x y c v r3 by (simp add: Let_def)
        from Cons.IH[OF rest q3]
        have "Q s' \<and> (\<forall>seen' st'. r = Inr (seen', st') \<longrightarrow> seen2 \<subseteq> seen')" .
        then show ?thesis using sub by auto
      qed
    qed
  qed
qed

lemma withServices_at_inv:
  fixes fn :: "'st ServiceFunc_at"
  assumes copy: "\<And>c s a s'. Q s \<Longrightarrow> ServiceConfig_deepCopy_at c s = (a, s') \<Longrightarrow> Q s' \<and> V a s'"
    and visit: "\<And>name a st s. Q s \<Longrightarrow> V a s \<Longrightarrow> Q (snd (fn name a st s))"
  shows "withServices_at n p names fn seen options dependencies st s = Some (r, s') \<Longrightarrow> Q s \<Longrightarrow>
           Q s' \<and> (\<forall>seen' st'. r = Inr (seen', st') \<longrightarrow> seen \<subseteq> seen')"
proof (induction n arbitrary: names seen dependencies st s r s')
  case 0
  then show ?case by simp
next
  case (Suc n)
  obtain services nf where g: "getServicesByNames_at s p names = (services, nf)"
    by (cases "getServicesByNames_at s p names")
  show ?case
  proof (cases "notFoundError nf dependencies")
    case (Some err)
    then show ?thesis using Suc.prems g by auto
  next
    case None
    then have "withServices_range_at n p services fn seen options st s = Some (r, s')"
      using Suc.prems(1) g by simp
    from withServices_range_at_inv[of Q V fn n p options, OF copy visit Suc.IH this Suc.prems(2)]
    show ?thesis .
  qed
qed

text \<open>
  The walk returns when the bound exceeds the number of services that are not yet seen,
  as long as the services of the project stay the ones they were.
\<close>

lemma card_unseen_insert:
  assumes "name \<in> keys m" "name \<notin> seen"
  shows "card (keys m - insert name seen) < card (keys m - seen)"
proof -
  have "finite (keys m - seen)" by (simp add: keys_def)
  moreover have "keys m - insert name seen \<subset> keys m - seen" using assms by auto
  ultimately show ?thesis by (rule psubset_card_mono)
qed

lemma card_unseen_mono:
  assumes "seen \<subseteq> seen'"
  shows "card (keys m - seen') \<le> card (keys m - seen)"
proof -
  have "finite (keys m - seen)" by (simp add: keys_def)
  moreover have "keys m - seen' \<subseteq> keys m - seen" using assms by auto
  ultimately show ?thesis by (rule card_mono)
qed

lemma withServices_range_at_returns:
  fixes fn :: "'st ServiceFunc_at"
  assumes copy: "\<And>c s a s'. Q s \<Longrightarrow> ServiceConfig_deepCopy_at c s = (a, s') \<Longrightarrow> Q s' \<and> V a s'"
    and visit: "\<And>name a st s. Q s \<Longrightarrow> V a s \<Longrightarrow> Q (snd (fn name a st s))"
    and inner: "\<And>names seen dependencies st s.
        Q s \<Longrightarrow> card (keys m0 - seen) < n \<Longrightarrow>
          withServices_at n p names fn seen options dependencies st s \<noteq> None"
  shows "Q s \<Longrightarrow> keys xs \<subseteq> keys m0 \<Longrightarrow> card (keys m0 - seen) \<le> n \<Longrightarrow>
           withServices_range_at n p xs fn seen options st s \<noteq> None"
proof (induction xs arbitrary: seen st s)
  case Nil
  then show ?case by simp
next
  case (Cons x rest)
  obtain name service where x: "x = (name, service)" by (cases x)
  have rest: "keys rest \<subseteq> keys m0" using Cons.prems(2) by (auto simp: keys_def)
  show ?case
  proof (cases "name \<in> seen")
    case True
    then show ?thesis using Cons.IH[OF Cons.prems(1) rest Cons.prems(3), of st] x by simp
  next
    case False
    let ?seen1 = "insert name seen"
    let ?deps = "serviceDependencies (theProject s p) options (theService s service)"
    let ?inner = "if length ?deps > 0
                  then withServices_at n p (MapKeys ?deps) fn ?seen1 options ?deps st s
                  else Some (Inr (?seen1, st), s)"
    have "name \<in> keys m0" using Cons.prems(2) x by (auto simp: keys_def)
    then have less: "card (keys m0 - ?seen1) < n"
      using card_unseen_insert[of name m0 seen] False Cons.prems(3) by simp
    have "?inner \<noteq> None" using inner[OF Cons.prems(1) less] by simp
    then obtain r1 s1 where i: "?inner = Some (r1, s1)" by (cases ?inner) auto
    have q1: "Q s1 \<and> (\<forall>seen' st'. r1 = Inr (seen', st') \<longrightarrow> ?seen1 \<subseteq> seen')"
    proof (cases "length ?deps > 0")
      case True
      then have "withServices_at n p (MapKeys ?deps) fn ?seen1 options ?deps st s = Some (r1, s1)"
        using i by simp
      from withServices_at_inv[of Q V fn, OF copy visit this Cons.prems(1)] show ?thesis .
    next
      case False
      then show ?thesis using i Cons.prems(1) by auto
    qed
    show ?thesis
    proof (cases r1)
      case (Inl err)
      then show ?thesis using False i x by (simp add: Let_def)
    next
      case (Inr y)
      obtain seen2 st2 where y: "y = (seen2, st2)" by (cases y)
      obtain a s2 where c: "ServiceConfig_deepCopy_at service s1 = (a, s2)"
        by (cases "ServiceConfig_deepCopy_at service s1")
      obtain r3 s3 where v: "fn name a st2 s2 = (r3, s3)" by (cases "fn name a st2 s2")
      have q2: "Q s2 \<and> V a s2" using copy[OF _ c] q1 by simp
      have q3: "Q s3" using visit[of s2 a name st2] q2 unfolding v by simp
      have sub: "seen \<subseteq> seen2" using q1 Inr y by auto
      have le: "card (keys m0 - seen2) \<le> n"
        using card_unseen_mono[OF sub, of m0] Cons.prems(3) by simp
      show ?thesis
      proof (cases r3)
        case (Inl err)
        then show ?thesis using False i Inr x y c v by (simp add: Let_def)
      next
        case r3: (Inr st3)
        have "withServices_range_at n p rest fn seen2 options st3 s3 \<noteq> None"
          by (rule Cons.IH[OF q3 rest le])
        then show ?thesis using False i Inr x y c v r3 by (simp add: Let_def)
      qed
    qed
  qed
qed

lemma withServices_at_returns:
  fixes fn :: "'st ServiceFunc_at"
  assumes copy: "\<And>c s a s'. Q s \<Longrightarrow> ServiceConfig_deepCopy_at c s = (a, s') \<Longrightarrow> Q s' \<and> V a s'"
    and visit: "\<And>name a st s. Q s \<Longrightarrow> V a s \<Longrightarrow> Q (snd (fn name a st s))"
    and stable: "\<And>s. Q s \<Longrightarrow> servicesOf s (servicesRef (projectOf s p)) = m0"
  shows "Q s \<Longrightarrow> card (keys m0 - seen) < n \<Longrightarrow>
           withServices_at n p names fn seen options dependencies st s \<noteq> None"
proof (induction n arbitrary: names seen dependencies st s)
  case 0
  then show ?case by simp
next
  case (Suc n)
  obtain services nf where g: "getServicesByNames_at s p names = (services, nf)"
    by (cases "getServicesByNames_at s p names")
  have k: "keys services \<subseteq> keys m0"
    using getServicesByNames_at_keys[of s p names] g stable[OF Suc.prems(1)] by simp
  show ?case
  proof (cases "notFoundError nf dependencies")
    case (Some err)
    then show ?thesis using g by simp
  next
    case None
    have "card (keys m0 - seen) \<le> n" using Suc.prems(2) by simp
    from withServices_range_at_returns[of Q V fn m0 n p options, OF copy visit Suc.IH Suc.prems(1) k this]
    show ?thesis using g None by simp
  qed
qed

lemma ServiceConfig_deepCopy_at_frame:
  assumes "grown s0 s" "ServiceConfig_deepCopy_at c s = (a, s')"
  shows "grown s0 s'" and "nextAddr s \<le> a" and "a < nextAddr s'"
    and "set_option (dependsOnRef (serviceOf s' a)) \<subseteq> {nextAddr s..<nextAddr s'}"
proof -
  obtain c' s1 where c: "copyService c s = (c', s1)" by (cases "copyService c s")
  note f = copyService_frame[OF assms(1) c]
  from assms(2) c have e: "a = nextAddr s1" "s' = snd (alloc (ServiceObj c') s1)"
    by (auto simp: ServiceConfig_deepCopy_at_def newService_def alloc_def)
  have "refsOf (ServiceObj c') \<subseteq> {nextAddr s0..<nextAddr s1}"
    using within_mono[OF f(3) grown_le[OF assms(1)] le_refl] by simp
  from grown_alloc[OF f(1) this] show "grown s0 s'" unfolding e .
  show "nextAddr s \<le> a" unfolding e by (rule f(2))
  show "a < nextAddr s'" unfolding e by simp
  have "serviceOf s' a = c'" unfolding e by (simp add: serviceOf_def alloc_def)
  then show "set_option (dependsOnRef (serviceOf s' a)) \<subseteq> {nextAddr s..<nextAddr s'}"
    using within_mono[OF f(3) le_refl, of "nextAddr s'"] unfolding e by simp
qed

lemma pruneDependencies_at_frame:
  assumes "grown s0 s" "set_option r \<subseteq> {nextAddr s0..<nextAddr s}"
  shows "grown s0 (pruneDependencies_at selected r s) \<and>
         nextAddr (pruneDependencies_at selected r s) = nextAddr s"
  unfolding pruneDependencies_at_def
proof (rule fold_inv[where Q = "\<lambda>t. grown s0 t \<and> nextAddr t = nextAddr s"])
  show "grown s0 s \<and> nextAddr s = nextAddr s" using assms(1) by simp
next
  fix x :: "string \<times> ServiceDependency" and t
  assume q: "grown s0 t \<and> nextAddr t = nextAddr s"
  obtain d v where x: "x = (d, v)" by (cases x)
  have "grown s0 (deleteDependsOn r d t)"
    using q assms(2) by (intro grown_deleteDependsOn) simp_all
  then show "grown s0 ((\<lambda>(d, _) s. if d \<notin> selected then deleteDependsOn r d s else s) x t) \<and>
        nextAddr ((\<lambda>(d, _) s. if d \<notin> selected then deleteDependsOn r d s else s) x t) = nextAddr s"
    using q x by simp
qed

lemma ForEachService_at_Some:
  assumes "ForEachService_at fuel p names fn options st s = Some (r, s')"
  obtains r0 where
    "withServices_at fuel p names fn {} (if length options = 0 then [IncludeDependencies] else options) [] st s = Some (r0, s')"
    "r = map_sum id snd r0"
proof -
  let ?w = "withServices_at fuel p names fn {} (if length options = 0 then [IncludeDependencies] else options) [] st s"
  from assms obtain r0 where w: "?w = Some (r0, s')" and r: "r = map_sum id snd r0"
    by (cases ?w) (auto simp: ForEachService_at_def Let_def split: sum.splits prod.splits)
  then show ?thesis using that by blast
qed

lemma WithSelectedServices_at_frame:
  assumes "grown s0 s" "WithSelectedServices_at fuel p names options s = Some (r, s')"
  shows "grown s0 s' \<and> (\<forall>np. r = Inr np \<longrightarrow> nextAddr s \<le> np \<and> np < nextAddr s')"
proof -
  obtain np s1 where c: "deepCopy_at p s = (np, s1)" by (cases "deepCopy_at p s")
  note f1 = deepCopy_at_frame[OF assms(1) c]
  have np0: "nextAddr s0 \<le> np" using grown_le[OF assms(1)] f1(2) by simp
  show ?thesis
  proof (cases "length names = 0")
    case True
    then have "r = Inr np" "s' = s1" using assms(2) c by (auto simp: WithSelectedServices_at_def)
    then show ?thesis using f1 by simp
  next
    case False
    let ?visit = "\<lambda>(name::string) (service::addr) (selected::string set) (s::store).
                    (Inr (insert name selected) :: error + string set, s)"
    let ?Q = "\<lambda>t. grown s0 t \<and> nextAddr s1 \<le> nextAddr t"
    from assms(2) c False obtain r1 s2 where
      fe: "ForEachService_at fuel p names ?visit options {} s1 = Some (r1, s2)"
      by (cases "ForEachService_at fuel p names ?visit options {} s1")
         (auto simp: WithSelectedServices_at_def)
    from fe obtain r0 where w: "withServices_at fuel p names ?visit {}
        (if length options = 0 then [IncludeDependencies] else options) [] {} s1 = Some (r0, s2)"
      by (rule ForEachService_at_Some)
    have copy: "\<And>c s a s'. ?Q s \<Longrightarrow> ServiceConfig_deepCopy_at c s = (a, s') \<Longrightarrow> ?Q s' \<and> True"
      using ServiceConfig_deepCopy_at_frame(1-3) by (metis le_trans less_imp_le_nat)
    have visit: "\<And>name a st s. ?Q s \<Longrightarrow> True \<Longrightarrow> ?Q (snd (?visit name a st s))" by simp
    from withServices_at_inv[of ?Q "\<lambda>a s. True" ?visit, OF copy visit w] f1(1)
    have q2: "grown s0 s2" "nextAddr s1 \<le> nextAddr s2" by simp_all
    show ?thesis
    proof (cases r1)
      case (Inl err)
      then have "r = Inl err" "s' = s2"
        using assms(2) c False fe by (auto simp: WithSelectedServices_at_def)
      then show ?thesis using q2 by simp
    next
      case (Inr selected)
      let ?enabled = "nextAddr s2"
      let ?s3 = "snd (alloc (ServicesObj []) s2)"
      let ?xs = "servicesOf ?s3 (servicesRef (projectOf ?s3 np))"
      obtain np' s4 where fo: "fold (selectStep_at selected ?enabled) ?xs (np, ?s3) = (np', s4)"
        by (cases "fold (selectStep_at selected ?enabled) ?xs (np, ?s3)")
      have e: "r = Inr np'" "s' = setProject np' (\<lambda>P. P\<lparr>servicesRef := Some ?enabled\<rparr>) s4"
        using assms(2) c False fe Inr fo
        by (auto simp: WithSelectedServices_at_def newServices_def alloc_case)
      have g3: "grown s0 ?s3" by (rule grown_alloc[OF q2(1)]) simp
      have np3: "np < nextAddr ?s3" using f1(3) q2(2) by simp
      have le2: "nextAddr s0 \<le> nextAddr s2" using q2(1) by (rule grown_le)
      note xs = grown_services(1)[OF g3 np0 np3]
      let ?I = "\<lambda>(a, t). grown s0 t \<and> nextAddr s \<le> a \<and> a < nextAddr t \<and> nextAddr ?s3 \<le> nextAddr t"
      have "?I (fold (selectStep_at selected ?enabled) ?xs (np, ?s3))"
      proof (rule fold_inv[where Q = ?I])
        show "?I (np, ?s3)" using g3 np3 f1(2) by simp
      next
        fix x at assume x: "x \<in> set ?xs" and i: "?I at"
        obtain name c where xc: "x = (name, c)" by (cases x)
        obtain a t where at: "at = (a, t)" by (cases at)
        have it: "grown s0 t" "nextAddr s \<le> a" "a < nextAddr t" "nextAddr ?s3 \<le> nextAddr t"
          using i at by simp_all
        have a0: "nextAddr s0 \<le> a" using it(2) grown_le[OF assms(1)] by simp
        have cr: "set_option (dependsOnRef c) \<subseteq> {nextAddr s0..<nextAddr t}"
          by (rule within_mono[OF entry_within[OF xs] le_refl it(4)]) (use x xc in simp)
        show "?I (selectStep_at selected ?enabled x at)"
        proof (cases "name \<in> selected")
          case True
          let ?t1 = "pruneDependencies_at selected (dependsOnRef c) t"
          from pruneDependencies_at_frame[OF it(1) cr]
          have g1: "grown s0 ?t1" and n1: "nextAddr ?t1 = nextAddr t" by simp_all
          have "grown s0 (putService ?enabled name c ?t1)"
            using le2 it(4) cr n1 by (intro grown_putService[OF g1]) simp_all
          then show ?thesis using True it n1 by (simp add: selectStep_at_def xc at)
        next
          case False
          obtain a' t' where d: "WithServicesDisabled_at a [name] t = (a', t')"
            by (cases "WithServicesDisabled_at a [name] t")
          from WithServicesDisabled_at_frame[OF it(1) d]
          have "grown s0 t'" "nextAddr t \<le> a'" "a' < nextAddr t'" by simp_all
          then show ?thesis using False it d f1(2,3) q2(2) by (simp add: selectStep_at_def xc at)
        qed
      qed
      then have i4: "grown s0 s4" "nextAddr s \<le> np'" "np' < nextAddr s4" "nextAddr ?s3 \<le> nextAddr s4"
        unfolding fo by simp_all
      have np'0: "nextAddr s0 \<le> np'" using i4(2) grown_le[OF assms(1)] by simp
      have "grown s0 (setProject np' (\<lambda>P. P\<lparr>servicesRef := Some ?enabled\<rparr>) s4)"
        by (rule grown_setProject_refs[OF i4(1) np'0 i4(3), where R = "{?enabled}"])
           (use le2 i4(4) in auto)
      then show ?thesis unfolding e using i4 by simp
    qed
  qed
qed

lemma unchanged_projectOf:
  "unchanged s t \<Longrightarrow> a < nextAddr s \<Longrightarrow> projectOf t a = projectOf s a"
  by (simp add: unchanged_def projectOf_def)

lemma unchanged_servicesOf:
  "unchanged s t \<Longrightarrow> set_option r \<subseteq> {0..<nextAddr s} \<Longrightarrow> servicesOf t r = servicesOf s r"
  by (cases r) (simp_all add: unchanged_def servicesOf_def)

lemma unchanged_dependsOnOf:
  "unchanged s t \<Longrightarrow> set_option r \<subseteq> {0..<nextAddr s} \<Longrightarrow> dependsOnOf t r = dependsOnOf s r"
  by (cases r) (simp_all add: unchanged_def dependsOnOf_def)

lemma closed_projectOf:
  assumes "closed s" "a < nextAddr s"
  shows "refsOf (ProjectObj (projectOf s a)) \<subseteq> {0..<nextAddr s}"
proof (cases "objectAt s a")
  case None
  then show ?thesis by (simp add: projectOf_def zeroProject_def)
next
  case (Some obj)
  then have "refsOf obj \<subseteq> {0..<nextAddr s}"
    using assms by (auto simp: closed_def apart_def)
  then show ?thesis using Some by (cases obj) (auto simp: projectOf_def zeroProject_def)
qed

lemma closed_servicesOf:
  assumes "closed s" "set_option r \<subseteq> {0..<nextAddr s}"
  shows "refsOf (ServicesObj (servicesOf s r)) \<subseteq> {0..<nextAddr s}"
proof (cases r)
  case None
  then show ?thesis by (simp add: servicesOf_def)
next
  case r: (Some a)
  show ?thesis
  proof (cases "objectAt s a")
    case None
    then show ?thesis using r by (simp add: servicesOf_def)
  next
    case (Some obj)
    then have "refsOf obj \<subseteq> {0..<nextAddr s}"
      using assms r by (auto simp: closed_def apart_def)
    then show ?thesis using Some r by (cases obj) (auto simp: servicesOf_def)
  qed
qed

lemma unchanged_theServices:
  assumes "closed s" "unchanged s t" "set_option r \<subseteq> {0..<nextAddr s}"
  shows "theServices t r = theServices s r"
proof -
  have m: "servicesOf t r = servicesOf s r" by (rule unchanged_servicesOf[OF assms(2,3)])
  have "theService t c = theService s c" if "(k, c) \<in> set (servicesOf s r)" for k c
  proof -
    have "set_option (dependsOnRef c) \<subseteq> {0..<nextAddr s}"
      using entry_within[OF closed_servicesOf[OF assms(1,3)] that] .
    from unchanged_dependsOnOf[OF assms(2) this] show ?thesis by (simp add: theService_def)
  qed
  then show ?thesis unfolding theServices_def m by auto
qed

lemma unchanged_theProject:
  assumes "closed s" "p < nextAddr s" "unchanged s t"
  shows "theProject t p = theProject s p"
    and "servicesOf t (servicesRef (projectOf t p)) = servicesOf s (servicesRef (projectOf s p))"
proof -
  have P: "projectOf t p = projectOf s p" by (rule unchanged_projectOf[OF assms(3,2)])
  have r: "set_option (servicesRef (projectOf s p)) \<subseteq> {0..<nextAddr s}"
    "set_option (disabledServicesRef (projectOf s p)) \<subseteq> {0..<nextAddr s}"
    using closed_projectOf[OF assms(1,2)] by simp_all
  show "theProject t p = theProject s p"
    unfolding theProject_def P
    by (simp add: unchanged_theServices[OF assms(1,3) r(1)] unchanged_theServices[OF assms(1,3) r(2)])
  show "servicesOf t (servicesRef (projectOf t p)) = servicesOf s (servicesRef (projectOf s p))"
    unfolding P by (rule unchanged_servicesOf[OF assms(3) r(1)])
qed

lemma grown_leavesReceiver:
  assumes "closed s" "p < nextAddr s" "grown s s'" "returned \<subseteq> {nextAddr s..<nextAddr s'}"
  shows "leavesReceiver s p returned s'"
  using assms unchanged_theProject(1)[OF assms(1,2), of s']
  by (simp add: leavesReceiver_def grown_def)

lemma resultOf_within:
  "(\<And>np. r = Inr np \<Longrightarrow> a \<le> np \<and> np < b) \<Longrightarrow> resultOf r \<subseteq> {a..<b}"
  by (cases r) (auto simp: resultOf_def)

lemma card_keys_le: "card (keys m) \<le> length m"
  unfolding keys_def by (rule le_trans[OF card_image_le card_length]) simp

lemma WithSelectedServices_at_returns:
  assumes "closed s" "p < nextAddr s"
    and "length (Services (theProject s p)) < fuel"
  shows "WithSelectedServices_at fuel p names options s \<noteq> None"
proof -
  obtain np s1 where c: "deepCopy_at p s = (np, s1)" by (cases "deepCopy_at p s")
  note f1 = deepCopy_at_frame[OF grown_refl c]
  let ?m0 = "servicesOf s (servicesRef (projectOf s p))"
  let ?visit = "\<lambda>(name::string) (service::addr) (selected::string set) (s::store).
                  (Inr (insert name selected) :: error + string set, s)"
  let ?options = "if length options = 0 then [IncludeDependencies] else options"
  have copy: "\<And>c t a t'. grown s t \<Longrightarrow> ServiceConfig_deepCopy_at c t = (a, t') \<Longrightarrow> grown s t' \<and> True"
    using ServiceConfig_deepCopy_at_frame(1) by blast
  have visit: "\<And>name a st t. grown s t \<Longrightarrow> True \<Longrightarrow> grown s (snd (?visit name a st t))" by simp
  have stable: "\<And>t. grown s t \<Longrightarrow> servicesOf t (servicesRef (projectOf t p)) = ?m0"
    using unchanged_theProject(2)[OF assms(1,2)] by (simp add: grown_def)
  have "length ?m0 < fuel" using assms(3) by (simp add: theProject_def theServices_def)
  then have "card (keys ?m0 - {}) < fuel" using card_keys_le[of ?m0] by simp
  from withServices_at_returns[of "grown s" "\<lambda>a s. True" ?visit p ?m0, OF copy visit stable f1(1) this]
  have "withServices_at fuel p names ?visit {} ?options [] {} s1 \<noteq> None" .
  then obtain r0 s2 where
    "withServices_at fuel p names ?visit {} ?options [] {} s1 = Some (r0, s2)" by auto
  then have "ForEachService_at fuel p names ?visit options {} s1 \<noteq> None"
    unfolding ForEachService_at_def Let_def
    by (cases r0) (simp_all split: prod.splits split del: if_split)
  then show ?thesis
    using c by (auto simp: WithSelectedServices_at_def newServices_def alloc_case
                  split: option.splits sum.splits prod.splits)
qed


lemma demoStore_closed: "closed demoStore"
  unfolding closed_def apart_def demoStore_def
  by (auto split: if_splits)


subsection \<open>The walk on the store\<close>

lemma unchanged_refl: "unchanged s s"
  by (simp add: unchanged_def)

lemma unchanged_trans: "unchanged s t \<Longrightarrow> unchanged t u \<Longrightarrow> unchanged s u"
  by (auto simp: unchanged_def)

lemma ServiceConfig_deepCopy_at_value:
  assumes "ServiceConfig_deepCopy_at c s = (a, s')"
  shows "theService s' (serviceOf s' a) = theService s c"
proof (cases "dependsOnRef c")
  case None
  then have "a = nextAddr s" "s' = snd (alloc (ServiceObj c) s)"
    using assms by (auto simp: ServiceConfig_deepCopy_at_def copyService_def newService_def alloc_def)
  then show ?thesis using None
    by (simp add: theService_def serviceOf_def alloc_def dependsOnOf_def)
next
  case (Some d)
  let ?s1 = "snd (alloc (DependsOnObj (dependsOnOf s (Some d))) s)"
  let ?c' = "c\<lparr>dependsOnRef := Some (nextAddr s)\<rparr>"
  have "a = nextAddr ?s1" "s' = snd (alloc (ServiceObj ?c') ?s1)"
    using assms Some
    by (auto simp: ServiceConfig_deepCopy_at_def copyService_def newService_def newDependsOn_def alloc_def)
  then show ?thesis using Some
    by (simp add: theService_def serviceOf_def alloc_def dependsOnOf_def)
qed

lemma ServiceConfig_deepCopy_at_unchanged:
  assumes "ServiceConfig_deepCopy_at c s = (a, s')"
  shows "unchanged s s'" and "nextAddr s \<le> a" and "a < nextAddr s'"
    and "set_option (dependsOnRef (serviceOf s' a)) \<subseteq> {nextAddr s..<nextAddr s'}"
  using ServiceConfig_deepCopy_at_frame[OF grown_refl assms] by (simp_all add: grown_def)

lemma recording_at_store:
  "snd (recording_at fn name a logst s) = snd (fn name a (snd logst) s)"
  by (cases logst) (auto simp: recording_at_def split: prod.splits sum.splits)

lemma mutatesArgumentOnly_unchanged:
  assumes m: "mutatesArgumentOnly fn"
    and u: "unchanged s0 s"
    and a: "nextAddr s0 \<le> a"
    and r: "set_option (dependsOnRef (serviceOf s a)) \<subseteq> {nextAddr s0..<nextAddr s}"
  shows "unchanged s0 (snd (fn name a st s))"
proof -
  let ?s' = "snd (fn name a st s)"
  from m have n: "nextAddr s \<le> nextAddr ?s'"
    and o: "\<And>b. b < nextAddr s \<Longrightarrow> b \<noteq> a \<Longrightarrow> Some b \<noteq> dependsOnRef (serviceOf s a) \<Longrightarrow>
              objectAt ?s' b = objectAt s b"
    unfolding mutatesArgumentOnly_def by blast+
  have le: "nextAddr s0 \<le> nextAddr s" using u by (simp add: unchanged_def)
  have "objectAt ?s' b = objectAt s0 b" if "b < nextAddr s0" for b
  proof -
    have "b \<noteq> a" using that a by simp
    moreover have "Some b \<noteq> dependsOnRef (serviceOf s a)"
    proof
      assume "Some b = dependsOnRef (serviceOf s a)"
      then have "b \<in> set_option (dependsOnRef (serviceOf s a))" by (metis option.set_intros)
      then show False using r that by auto
    qed
    ultimately have "objectAt ?s' b = objectAt s b" using o[of b] that le by simp
    then show ?thesis using u that by (simp add: unchanged_def)
  qed
  then show ?thesis using n le by (simp add: unchanged_def)
qed

text \<open>The walk of such a visitor leaves the store it started from unchanged.\<close>

lemma walk_copy:
  assumes "unchanged s0 s" "ServiceConfig_deepCopy_at c s = (a, s')"
  shows "unchanged s0 s' \<and> handed s0 a s'"
proof -
  note f = ServiceConfig_deepCopy_at_unchanged[OF assms(2)]
  have le: "nextAddr s0 \<le> nextAddr s" using assms(1) by (simp add: unchanged_def)
  have "set_option (dependsOnRef (serviceOf s' a)) \<subseteq> {nextAddr s0..<nextAddr s'}"
    by (rule within_mono[OF f(4) le le_refl])
  then show ?thesis using unchanged_trans[OF assms(1) f(1)] f(2) le by (simp add: handed_def)
qed

lemma walk_visit:
  assumes "mutatesArgumentOnly fn" "unchanged s0 s" "handed s0 a s"
  shows "unchanged s0 (snd (recording_at fn name a logst s))"
  unfolding recording_at_store
  using mutatesArgumentOnly_unchanged[OF assms(1,2)] assms(3) by (simp add: handed_def)

lemma walk_unchanged:
  assumes "mutatesArgumentOnly fn" "unchanged s0 s"
    and "withServices_at n p names (recording_at fn) seen options dependencies logst s = Some (r, s')"
  shows "unchanged s0 s'"
  using withServices_at_inv[of "unchanged s0" "handed s0" "recording_at fn", OF walk_copy walk_visit[OF assms(1)] assms(3,2)]
  by simp

lemma range_unchanged:
  assumes "mutatesArgumentOnly fn" "unchanged s0 s"
    and "withServices_range_at n p xs (recording_at fn) seen options logst s = Some (r, s')"
  shows "unchanged s0 s'"
proof -
  have inner: "\<And>names seen dependencies st s r s'.
        withServices_at n p names (recording_at fn) seen options dependencies st s = Some (r, s') \<Longrightarrow>
        unchanged s0 s \<Longrightarrow>
           unchanged s0 s' \<and> (\<forall>seen' st'. r = Inr (seen', st') \<longrightarrow> seen \<subseteq> seen')"
    by (rule withServices_at_inv[of "unchanged s0" "handed s0" "recording_at fn", OF walk_copy walk_visit[OF assms(1)]])
  from withServices_range_at_inv[of "unchanged s0" "handed s0" "recording_at fn" n p options,
      OF walk_copy walk_visit[OF assms(1)] inner assms(3,2)]
  show ?thesis by simp
qed

lemma update_map_values:
  "AList.update k (f v) (map (\<lambda>(k, v). (k, f v)) al) = map (\<lambda>(k, v). (k, f v)) (AList.update k v al)"
  by (induction al) auto

lemma map_of_map_values:
  "map_of (map (\<lambda>(k, v). (k, f v)) al) k = map_option f (map_of al k)"
  by (induction al) auto

lemma stored_theService:
  assumes "closed s0" "p < nextAddr s0" "unchanged s0 t"
    and "(k, c) \<in> set (servicesOf s0 (servicesRef (projectOf s0 p)))"
  shows "theService t c = theService s0 c"
proof -
  have r: "set_option (servicesRef (projectOf s0 p)) \<subseteq> {0..<nextAddr s0}"
    using closed_projectOf[OF assms(1,2)] by simp
  have "set_option (dependsOnRef c) \<subseteq> {0..<nextAddr s0}"
    using entry_within[OF closed_servicesOf[OF assms(1) r] assms(4)] .
  from unchanged_dependsOnOf[OF assms(3) this] show ?thesis by (simp add: theService_def)
qed

lemma theProject_Services:
  "Services (theProject s p) = map (\<lambda>(k, c). (k, theService s c)) (servicesOf s (servicesRef (projectOf s p)))"
  by (simp add: theProject_def theServices_def)

lemma lookup_fold_values:
  assumes "\<forall>(k, c) \<in> set acc. map_of m k = Some c"
  shows "fold (\<lambda>name (services, servicesNotFound).
                   case map_of (map (\<lambda>(k, v). (k, f v)) m) name of
                     None \<Rightarrow> (services, servicesNotFound @ [name])
                   | Some service \<Rightarrow> (AList.update name service services, servicesNotFound))
             names (map (\<lambda>(k, v). (k, f v)) acc, nf) =
         (map (\<lambda>(k, v). (k, f v))
            (fst (fold (\<lambda>name (services, servicesNotFound).
                   case map_of m name of
                     None \<Rightarrow> (services, servicesNotFound @ [name])
                   | Some service \<Rightarrow> (AList.update name service services, servicesNotFound))
             names (acc, nf))),
          snd (fold (\<lambda>name (services, servicesNotFound).
                   case map_of m name of
                     None \<Rightarrow> (services, servicesNotFound @ [name])
                   | Some service \<Rightarrow> (AList.update name service services, servicesNotFound))
             names (acc, nf))) \<and>
         (\<forall>(k, c) \<in> set (fst (fold (\<lambda>name (services, servicesNotFound).
                   case map_of m name of
                     None \<Rightarrow> (services, servicesNotFound @ [name])
                   | Some service \<Rightarrow> (AList.update name service services, servicesNotFound))
             names (acc, nf))). map_of m k = Some c)"
  using assms
proof (induction names arbitrary: acc nf)
  case Nil
  then show ?case by simp
next
  case (Cons n ns)
  show ?case
  proof (cases "map_of m n")
    case None
    then show ?thesis using Cons.IH[OF Cons.prems, of "nf @ [n]"]
      by (simp add: map_of_map_values)
  next
    case (Some c)
    have "\<forall>(k, c) \<in> set (AList.update n c acc). map_of m k = Some c"
      using Cons.prems Some set_update_subset[of n c acc] by auto
    from Cons.IH[OF this, of nf] show ?thesis using Some
      by (simp add: map_of_map_values update_map_values)
  qed
qed

lemma getServicesByNames_at_values:
  assumes "gomap (servicesOf s (servicesRef (projectOf s p)))"
    and "getServicesByNames_at s p names = (xs, nf)"
  shows "getServicesByNames (theProject s p) names = (map (\<lambda>(k, c). (k, theService s c)) xs, nf)"
    and "\<forall>(k, c) \<in> set xs. map_of (servicesOf s (servicesRef (projectOf s p))) k = Some c"
proof -
  let ?m = "servicesOf s (servicesRef (projectOf s p))"
  have "getServicesByNames (theProject s p) names = (map (\<lambda>(k, c). (k, theService s c)) xs, nf) \<and>
        (\<forall>(k, c) \<in> set xs. map_of ?m k = Some c)"
  proof (cases "length names = 0")
    case True
    then have "xs = ?m" "nf = []" using assms(2) by (auto simp: getServicesByNames_at_def)
    then show ?thesis using True assms(1)
      by (auto simp: getServicesByNames_def theProject_Services gomap_def)
  next
    case False
    have e: "\<forall>(k, c) \<in> set ([] :: (string \<times> ServiceStruct) list). map_of ?m k = Some c" by simp
    from lookup_fold_values[OF e, of "theService s" names "[]"] assms(2) False
    show ?thesis
      by (auto simp: getServicesByNames_def getServicesByNames_at_def theProject_Services)
  qed
  then show "getServicesByNames (theProject s p) names = (map (\<lambda>(k, c). (k, theService s c)) xs, nf)"
    and "\<forall>(k, c) \<in> set xs. map_of (servicesOf s (servicesRef (projectOf s p))) k = Some c"
    by blast+
qed

lemma range_onValues:
  fixes fn :: "'st ServiceFunc_at"
  assumes m: "mutatesArgumentOnly fn" and cl: "closed s0" and lt: "p < nextAddr s0"
    and inner: "\<And>names seen dependencies log st t r t'.
        unchanged s0 t \<Longrightarrow>
        withServices_at n p names (recording_at fn) seen options dependencies (log, st) t = Some (r, t') \<Longrightarrow>
        withServices (theProject s0 p) names
          (recording (onValues (servicesOf s0 (servicesRef (projectOf s0 p))) fn))
          seen options dependencies (pack log st t) = onValuesResult r t'"
  shows "unchanged s0 t \<Longrightarrow>
         \<forall>(k, c) \<in> set xs. map_of (servicesOf s0 (servicesRef (projectOf s0 p))) k = Some c \<Longrightarrow>
         withServices_range_at n p xs (recording_at fn) seen options (log, st) t = Some (r, t') \<Longrightarrow>
         withServices_range (theProject s0 p) (map (\<lambda>(k, c). (k, theService s0 c)) xs)
           (recording (onValues (servicesOf s0 (servicesRef (projectOf s0 p))) fn))
           seen options (pack log st t) = onValuesResult r t'"
proof (induction xs arbitrary: seen log st t)
  case Nil
  then show ?case by (auto simp: withServices_range.simps(1) onValuesResult_def)
next
  case (Cons x rest)
  let ?m0 = "servicesOf s0 (servicesRef (projectOf s0 p))"
  let ?P = "theProject s0 p"
  let ?G = "recording (onValues ?m0 fn)"
  let ?abs = "\<lambda>(k, c). (k, theService s0 c)"
  obtain name c where x: "x = (name, c)" by (cases x)
  have mc: "map_of ?m0 name = Some c" using Cons.prems(2) x by simp
  have rest: "\<forall>(k, c) \<in> set rest. map_of ?m0 k = Some c" using Cons.prems(2) by simp
  show ?case
  proof (cases "name \<in> seen")
    case True
    then have "withServices_range_at n p rest (recording_at fn) seen options (log, st) t = Some (r, t')"
      using Cons.prems(3) x by simp
    from Cons.IH[OF Cons.prems(1) rest this] show ?thesis using True x
      by (simp add: withServices_range.simps(2))
  next
    case False
    let ?seen1 = "insert name seen"
    let ?deps = "serviceDependencies ?P options (theService s0 c)"
    have tp: "theProject t p = ?P" by (rule unchanged_theProject(1)[OF cl lt Cons.prems(1)])
    have tc: "theService t c = theService s0 c"
      by (rule stored_theService[OF cl lt Cons.prems(1) map_of_SomeD[OF mc]])
    let ?inner = "if length ?deps > 0
                  then withServices_at n p (MapKeys ?deps) (recording_at fn) ?seen1 options ?deps (log, st) t
                  else Some (Inr (?seen1, (log, st)), t)"
    let ?vinner = "if length ?deps > 0
                  then withServices ?P (MapKeys ?deps) ?G ?seen1 options ?deps (pack log st t)
                  else Inr (?seen1, pack log st t)"
    have nn: "?inner \<noteq> None"
    proof
      assume "?inner = None"
      then show False using Cons.prems(3) False x by (simp add: Let_def tp tc)
    qed
    then obtain r1 t1 where i: "?inner = Some (r1, t1)" by (cases ?inner) auto
    have vi: "?vinner = onValuesResult r1 t1"
    proof (cases "length ?deps > 0")
      case True
      then have "withServices_at n p (MapKeys ?deps) (recording_at fn) ?seen1 options ?deps (log, st) t = Some (r1, t1)"
        using i by simp
      from inner[OF Cons.prems(1) this] show ?thesis using True by simp
    next
      case False
      then show ?thesis using i by (auto simp: onValuesResult_def)
    qed
    have u1: "unchanged s0 t1"
    proof (cases "length ?deps > 0")
      case True
      then have "withServices_at n p (MapKeys ?deps) (recording_at fn) ?seen1 options ?deps (log, st) t = Some (r1, t1)"
        using i by simp
      from walk_unchanged[OF m Cons.prems(1) this] show ?thesis .
    next
      case False
      then show ?thesis using i Cons.prems(1) by auto
    qed
    have vstep: "withServices_range ?P (map ?abs (x # rest)) ?G seen options (pack log st t) =
       (case ?vinner of
          Inl err \<Rightarrow> Inl err
        | Inr (seen2, st2) \<Rightarrow>
            (case ?G name (ServiceConfig_deepCopy (theService s0 c)) st2 of
               Inl err \<Rightarrow> Inl err
             | Inr st3 \<Rightarrow> withServices_range ?P (map ?abs rest) ?G seen2 options st3))"
      using False x by (simp add: withServices_range.simps(2) Let_def)
    have step: "withServices_range_at n p (x # rest) (recording_at fn) seen options (log, st) t =
       (case ?inner of
          None \<Rightarrow> None
        | Some (Inl err, s) \<Rightarrow> Some (Inl err, s)
        | Some (Inr (seen2, st2), s) \<Rightarrow>
            (case ServiceConfig_deepCopy_at c s of
               (a, s) \<Rightarrow>
                 (case recording_at fn name a st2 s of
                    (Inl err, s) \<Rightarrow> Some (Inl err, s)
                  | (Inr st3, s) \<Rightarrow> withServices_range_at n p rest (recording_at fn) seen2 options st3 s)))"
      using False x by (simp add: Let_def tp tc)
    note run = Cons.prems(3)[unfolded step i]
    show ?thesis
    proof (cases r1)
      case (Inl err)
      then have "r = Inl err" "t' = t1" using run by simp_all
      then show ?thesis unfolding vstep vi using Inl by (simp add: onValuesResult_def)
    next
      case (Inr y)
      obtain seen2 log1 st1 where y: "y = (seen2, log1, st1)" by (cases y)
      obtain a t2 where cp: "ServiceConfig_deepCopy_at c t1 = (a, t2)"
        by (cases "ServiceConfig_deepCopy_at c t1")
      obtain r3 t3 where v: "fn name a st1 t2 = (r3, t3)" by (cases "fn name a st1 t2")
      note w2 = walk_copy[OF u1 cp]
      have u3: "unchanged s0 t3"
        using walk_visit[OF m, of s0 t2 a name "(log1, st1)"] w2 v
        by (simp add: recording_at_store)
      have val: "theService t2 (serviceOf t2 a) = theService s0 c"
        using ServiceConfig_deepCopy_at_value[OF cp]
          stored_theService[OF cl lt u1 map_of_SomeD[OF mc]] by simp
      have ra: "recording_at fn name a (log1, st1) t2 =
          (case r3 of
             Inl err \<Rightarrow> (Inl err, t3)
           | Inr st3 \<Rightarrow> (Inr (log1 @ [(name, a, dependsOnRef (serviceOf t2 a), theService s0 c)], st3), t3))"
        using v val by (simp add: recording_at_def split: sum.splits)
      have run2: "(case r3 of
             Inl err \<Rightarrow> Some (Inl err, t3)
           | Inr st3 \<Rightarrow> withServices_range_at n p rest (recording_at fn) seen2 options
                          (log1 @ [(name, a, dependsOnRef (serviceOf t2 a), theService s0 c)], st3) t3) = Some (r, t')"
        using run unfolding Inr y by (simp add: cp ra split: sum.splits)
      have vi': "?vinner = Inr (seen2, pack log1 st1 t1)"
        using vi Inr y by (simp add: onValuesResult_def)
      show ?thesis
      proof (cases r3)
        case (Inl err)
        then have "r = Inl err" "t' = t3" using run2 by simp_all
        moreover have "?G name (ServiceConfig_deepCopy (theService s0 c)) (pack log1 st1 t1) = Inl err"
          using Inl cp v mc by (simp add: recording_def onValues_def pack_def)
        ultimately show ?thesis unfolding vstep vi' by (simp add: onValuesResult_def)
      next
        case r3: (Inr st3)
        let ?log3 = "log1 @ [(name, a, dependsOnRef (serviceOf t2 a), theService s0 c)]"
        have rest3: "withServices_range_at n p rest (recording_at fn) seen2 options (?log3, st3) t3 = Some (r, t')"
          using run2 r3 by simp
        have g: "?G name (ServiceConfig_deepCopy (theService s0 c)) (pack log1 st1 t1) = Inr (pack ?log3 st3 t3)"
          using r3 cp v mc by (simp add: recording_def onValues_def pack_def ServiceConfig_deepCopy_def)
        from Cons.IH[OF u3 rest rest3] show ?thesis unfolding vstep vi' by (simp add: g)
      qed
    qed
  qed
qed

lemma withServices_onValues:
  fixes fn :: "'st ServiceFunc_at"
  assumes m: "mutatesArgumentOnly fn" and cl: "closed s0" and lt: "p < nextAddr s0"
    and g: "gomap (servicesOf s0 (servicesRef (projectOf s0 p)))"
  shows "unchanged s0 t \<Longrightarrow>
        withServices_at n p names (recording_at fn) seen options dependencies (log, st) t = Some (r, t') \<Longrightarrow>
        withServices (theProject s0 p) names
          (recording (onValues (servicesOf s0 (servicesRef (projectOf s0 p))) fn))
          seen options dependencies (pack log st t) = onValuesResult r t'"
proof (induction n arbitrary: names seen dependencies log st t r t')
  case 0
  then show ?case by simp
next
  case (Suc n)
  let ?m0 = "servicesOf s0 (servicesRef (projectOf s0 p))"
  obtain xs nf where gs: "getServicesByNames_at t p names = (xs, nf)"
    by (cases "getServicesByNames_at t p names")
  have tm: "servicesOf t (servicesRef (projectOf t p)) = ?m0"
    by (rule unchanged_theProject(2)[OF cl lt Suc.prems(1)])
  have tp: "theProject t p = theProject s0 p"
    by (rule unchanged_theProject(1)[OF cl lt Suc.prems(1)])
  note v = getServicesByNames_at_values[OF _ gs, unfolded tm, OF g]
  have abs: "map (\<lambda>(k, c). (k, theService t c)) xs = map (\<lambda>(k, c). (k, theService s0 c)) xs"
  proof (rule map_cong[OF refl])
    fix x assume x: "x \<in> set xs"
    obtain k c where kc: "x = (k, c)" by (cases x)
    then have "map_of ?m0 k = Some c" using v(2) x by auto
    from stored_theService[OF cl lt Suc.prems(1) map_of_SomeD[OF this]]
    show "(case x of (k, c) \<Rightarrow> (k, theService t c)) = (case x of (k, c) \<Rightarrow> (k, theService s0 c))"
      using kc by simp
  qed
  have vg: "getServicesByNames (theProject s0 p) names = (map (\<lambda>(k, c). (k, theService s0 c)) xs, nf)"
    using v(1) unfolding tp abs .
  show ?case
  proof (cases "notFoundError nf dependencies")
    case (Some err)
    then have "r = Inl err" using Suc.prems(2) gs by auto
    then show ?thesis using Some vg by (subst withServices.simps) (simp add: onValuesResult_def)
  next
    case None
    then have rg: "withServices_range_at n p xs (recording_at fn) seen options (log, st) t = Some (r, t')"
      using Suc.prems(2) gs by simp
    have "withServices_range (theProject s0 p) (map (\<lambda>(k, c). (k, theService s0 c)) xs)
           (recording (onValues ?m0 fn)) seen options (pack log st t) = onValuesResult r t'"
      by (rule range_onValues[of fn s0 p n options, OF m cl lt Suc.IH Suc.prems(1) v(2) rg])
    then show ?thesis using None vg by (subst withServices.simps) simp
  qed
qed

text \<open>
  What holds of the visitor's state and the store before a walk that succeeds holds
  after it, when each copy for the visitor and each call of the visitor keep it.
\<close>

lemma withServices_range_at_keeps:
  fixes fn :: "'st ServiceFunc_at"
  assumes copy: "\<And>c st s a s'. Q st s \<Longrightarrow> ServiceConfig_deepCopy_at c s = (a, s') \<Longrightarrow> R st a s'"
    and visit: "\<And>name a st s st' s'. R st a s \<Longrightarrow> fn name a st s = (Inr st', s') \<Longrightarrow> Q st' s'"
    and inner: "\<And>names seen dependencies st s seen' st' s'.
        withServices_at n p names fn seen options dependencies st s = Some (Inr (seen', st'), s') \<Longrightarrow>
        Q st s \<Longrightarrow> Q st' s'"
  shows "withServices_range_at n p xs fn seen options st s = Some (Inr (seen', st'), s') \<Longrightarrow>
         Q st s \<Longrightarrow> Q st' s'"
proof (induction xs arbitrary: seen st s)
  case Nil
  then show ?case by auto
next
  case (Cons x rest)
  obtain name service where x: "x = (name, service)" by (cases x)
  show ?case
  proof (cases "name \<in> seen")
    case True
    then have "withServices_range_at n p rest fn seen options st s = Some (Inr (seen', st'), s')"
      using Cons.prems(1) x by simp
    from Cons.IH[OF this Cons.prems(2)] show ?thesis .
  next
    case False
    let ?seen1 = "insert name seen"
    let ?deps = "serviceDependencies (theProject s p) options (theService s service)"
    let ?inner = "if length ?deps > 0
                  then withServices_at n p (MapKeys ?deps) fn ?seen1 options ?deps st s
                  else Some (Inr (?seen1, st), s)"
    from Cons.prems(1) False x obtain r1 s1 where i: "?inner = Some (r1, s1)"
      by (cases ?inner) (auto simp: Let_def)
    show ?thesis
    proof (cases r1)
      case (Inl err)
      then show ?thesis using Cons.prems(1) False i x by (auto simp: Let_def)
    next
      case (Inr y)
      obtain seen2 st2 where y: "y = (seen2, st2)" by (cases y)
      have q1: "Q st2 s1"
      proof (cases "length ?deps > 0")
        case True
        then have "withServices_at n p (MapKeys ?deps) fn ?seen1 options ?deps st s = Some (Inr (seen2, st2), s1)"
          using i Inr y by simp
        from inner[OF this Cons.prems(2)] show ?thesis .
      next
        case False
        then show ?thesis using i Inr y Cons.prems(2) by auto
      qed
      obtain a s2 where c: "ServiceConfig_deepCopy_at service s1 = (a, s2)"
        by (cases "ServiceConfig_deepCopy_at service s1")
      obtain r3 s3 where v: "fn name a st2 s2 = (r3, s3)" by (cases "fn name a st2 s2")
      have q2: "R st2 a s2" by (rule copy[OF q1 c])
      show ?thesis
      proof (cases r3)
        case (Inl err)
        then show ?thesis using Cons.prems(1) False i Inr x y c v by (auto simp: Let_def)
      next
        case r3: (Inr st3)
        have q3: "Q st3 s3" using visit[OF q2] v r3 by simp
        have rest: "withServices_range_at n p rest fn seen2 options st3 s3 = Some (Inr (seen', st'), s')"
          using Cons.prems(1) False i Inr x y c v r3 by (simp add: Let_def)
        from Cons.IH[OF rest q3] show ?thesis .
      qed
    qed
  qed
qed

lemma withServices_at_keeps:
  fixes fn :: "'st ServiceFunc_at"
  assumes copy: "\<And>c st s a s'. Q st s \<Longrightarrow> ServiceConfig_deepCopy_at c s = (a, s') \<Longrightarrow> R st a s'"
    and visit: "\<And>name a st s st' s'. R st a s \<Longrightarrow> fn name a st s = (Inr st', s') \<Longrightarrow> Q st' s'"
  shows "withServices_at n p names fn seen options dependencies st s = Some (Inr (seen', st'), s') \<Longrightarrow>
         Q st s \<Longrightarrow> Q st' s'"
proof (induction n arbitrary: names seen dependencies st s seen' st' s')
  case 0
  then show ?case by simp
next
  case (Suc n)
  obtain services nf where g: "getServicesByNames_at s p names = (services, nf)"
    by (cases "getServicesByNames_at s p names")
  show ?case
  proof (cases "notFoundError nf dependencies")
    case (Some err)
    then show ?thesis using Suc.prems g by auto
  next
    case None
    then have "withServices_range_at n p services fn seen options st s = Some (Inr (seen', st'), s')"
      using Suc.prems(1) g by simp
    from withServices_range_at_keeps[where Q = Q and R = R and fn = fn, OF copy visit Suc.IH this Suc.prems(2)]
    show ?thesis .
  qed
qed

lemma walk_copiesNew:
  fixes fn :: "'st ServiceFunc_at"
  assumes m: "mutatesArgumentOnly fn"
    and w: "withServices_at n p names (recording_at fn) seen options dependencies ([], st) s =
              Some (Inr (seen', (log, st')), s')"
  shows "copiesNew s log"
proof -
  define Q where "Q = (\<lambda>(logst :: (string \<times> addr \<times> addr option \<times> ServiceConfig) list \<times> 'st) (t :: store).
              nextAddr s \<le> nextAddr t \<and> copiesNew s (fst logst) \<and>
              (\<forall>e \<in> set (fst logst). fst (snd e) < nextAddr t))"
  define R where "R = (\<lambda>(logst :: (string \<times> addr \<times> addr option \<times> ServiceConfig) list \<times> 'st) a (t :: store).
              nextAddr s \<le> a \<and> a < nextAddr t \<and> copiesNew s (fst logst) \<and>
              (\<forall>e \<in> set (fst logst). fst (snd e) < a) \<and>
              (\<forall>b \<in> set_option (dependsOnRef (serviceOf t a)). nextAddr s \<le> b))"
  have copy: "R logst a t'" if "Q logst t" "ServiceConfig_deepCopy_at c t = (a, t')" for c logst t a t'
  proof -
    note f = ServiceConfig_deepCopy_at_unchanged[OF that(2)]
    from that(1) have q: "nextAddr s \<le> nextAddr t" "copiesNew s (fst logst)"
      "\<And>e. e \<in> set (fst logst) \<Longrightarrow> fst (snd e) < nextAddr t" by (simp_all add: Q_def)
    have 1: "nextAddr s \<le> a" using q(1) f(2) by simp
    have 2: "\<forall>b \<in> set_option (dependsOnRef (serviceOf t' a)). nextAddr s \<le> b"
    proof
      fix b assume "b \<in> set_option (dependsOnRef (serviceOf t' a))"
      then have "nextAddr t \<le> b" using f(4) by auto
      then show "nextAddr s \<le> b" using q(1) by simp
    qed
    have 3: "\<forall>e \<in> set (fst logst). fst (snd e) < a"
    proof
      fix e assume "e \<in> set (fst logst)"
      from q(3)[OF this] show "fst (snd e) < a" using f(2) by simp
    qed
    show ?thesis using 1 f(3) q(2) 2 3 by (simp add: R_def)
  qed
  have visit: "Q logst' t'" if "R logst a t" "recording_at fn name a logst t = (Inr logst', t')"
    for name a logst t logst' t'
  proof -
    obtain log0 st0 where l: "logst = (log0, st0)" by (cases logst)
    obtain r1 t1 where f: "fn name a st0 t = (r1, t1)" by (cases "fn name a st0 t")
    let ?e = "(name, a, dependsOnRef (serviceOf t a), theService t (serviceOf t a))"
    from that(2) have e: "fst logst' = log0 @ [?e]" and t': "t' = t1"
      unfolding l recording_at_def using f by (auto split: sum.splits)
    have "nextAddr t \<le> nextAddr (snd (fn name a st0 t))"
      using m unfolding mutatesArgumentOnly_def by blast
    then have n: "nextAddr t \<le> nextAddr t'" unfolding t' f by simp
    from that(1) have r: "nextAddr s \<le> a" "a < nextAddr t" "copiesNew s log0"
      "\<And>e. e \<in> set log0 \<Longrightarrow> fst (snd e) < a"
      "\<forall>b \<in> set_option (dependsOnRef (serviceOf t a)). nextAddr s \<le> b"
      unfolding l by (simp_all add: R_def)
    have na: "a \<notin> set (map (\<lambda>(n, a, d, v). a) log0)"
    proof
      assume "a \<in> set (map (\<lambda>(n, a, d, v). a) log0)"
      then obtain e where "e \<in> set log0" "fst (snd e) = a" by (auto simp: case_prod_beta)
      then show False using r(4)[of e] by simp
    qed
    have c: "copiesNew s (log0 @ [?e])"
      using r(1,3,5) na unfolding copiesNew_def by simp
    have b: "\<forall>e \<in> set (log0 @ [?e]). fst (snd e) < nextAddr t'"
    proof
      fix e' assume "e' \<in> set (log0 @ [?e])"
      then consider "e' \<in> set log0" | "e' = ?e" by auto
      then show "fst (snd e') < nextAddr t'"
      proof cases
        case 1
        from r(4)[OF this] show ?thesis using r(2) n by simp
      next
        case 2
        then show ?thesis using r(2) n by simp
      qed
    qed
    have le: "nextAddr s \<le> nextAddr t'" using r(1,2) n by simp
    show ?thesis unfolding Q_def e using le c b by simp
  qed
  have "Q (log, st') s'"
  proof (rule withServices_at_keeps[where Q = Q and R = R and fn = "recording_at fn", OF _ _ w])
    show "Q ([], st) s" by (simp add: Q_def copiesNew_def)
    show "\<And>c st s a s'. Q st s \<Longrightarrow> ServiceConfig_deepCopy_at c s = (a, s') \<Longrightarrow> R st a s'"
      by (rule copy)
    show "\<And>name a st s st' s'. R st a s \<Longrightarrow> recording_at fn name a st s = (Inr st', s') \<Longrightarrow> Q st' s'"
      by (rule visit)
  qed
  then show ?thesis by (simp add: Q_def)
qed

lemma mutatesArgumentOnly_scribble: "mutatesArgumentOnly scribble"
  by (auto simp: mutatesArgumentOnly_def scribble_def Let_def assign_def split: option.splits)

lemma ForEachService_at_returns:
  fixes fn :: "'st ServiceFunc_at"
  assumes cl: "closed s" and lt: "p < nextAddr s" and m: "mutatesArgumentOnly fn"
    and f: "length (Services (theProject s p)) < fuel"
  shows "ForEachService_at fuel p names (recording_at fn) options logst s \<noteq> None"
proof -
  let ?m0 = "servicesOf s (servicesRef (projectOf s p))"
  let ?options = "if length options = 0 then [IncludeDependencies] else options"
  have "length ?m0 < fuel" using f by (simp add: theProject_def theServices_def)
  then have c: "card (keys ?m0 - {}) < fuel" using card_keys_le[of ?m0] by simp
  have "withServices_at fuel p names (recording_at fn) {} ?options [] logst s \<noteq> None"
  proof (rule withServices_at_returns[where Q = "unchanged s" and V = "handed s", OF _ _ _ _ c])
    show "\<And>c t a t'. unchanged s t \<Longrightarrow> ServiceConfig_deepCopy_at c t = (a, t') \<Longrightarrow>
            unchanged s t' \<and> handed s a t'"
      by (rule walk_copy)
    show "\<And>name a st t. unchanged s t \<Longrightarrow> handed s a t \<Longrightarrow>
            unchanged s (snd (recording_at fn name a st t))"
      by (rule walk_visit[OF m])
    show "\<And>t. unchanged s t \<Longrightarrow> servicesOf t (servicesRef (projectOf t p)) = ?m0"
      by (rule unchanged_theProject(2)[OF cl lt])
    show "unchanged s s" by (rule unchanged_refl)
  qed
  then obtain r0 s2 where
    "withServices_at fuel p names (recording_at fn) {} ?options [] logst s = Some (r0, s2)" by auto
  then show ?thesis
    unfolding ForEachService_at_def Let_def
    by (cases r0) (simp_all split: prod.splits split del: if_split)
qed

lemma walkEdges_effective:
  "walkEdges p (if options = [] then [IncludeDependencies] else options) = walkEdges p options"
  by (simp add: walkEdges_def policyFor_def)

lemma ForEachService_at_recorded:
  fixes fn :: "'st ServiceFunc_at"
  assumes cl: "closed s" and lt: "p < nextAddr s"
    and g: "gomap (Services (theProject s p))"
    and nm: "policyFor options = includeDependents \<longrightarrow> namesMatch (theProject s p)"
    and m: "mutatesArgumentOnly fn"
    and r: "ForEachService_at fuel p names (recording_at fn) options ([], st) s = Some (Inr (log, st'), s')"
  shows "distinct (map fst log)"
    and "set (map fst log) = reach (theProject s p) names options"
    and "\<forall>(n, a, d, v) \<in> set log. map_of (Services (theProject s p)) n = Some v"
    and "copiesNew s log"
    and "acyclic (walkEdges (theProject s p) options) \<Longrightarrow> x \<in> set (map fst log) \<Longrightarrow>
           (x, y) \<in> (walkEdges (theProject s p) options)\<^sup>+ \<Longrightarrow> before (map fst log) y x"
proof -
  let ?P = "theProject s p"
  let ?m0 = "servicesOf s (servicesRef (projectOf s p))"
  let ?options = "if length options = 0 then [IncludeDependencies] else options"
  let ?vlog = "map (\<lambda>(n, a, d, v). (n, v)) log"
  from r obtain r0 where
    w: "withServices_at fuel p names (recording_at fn) {} ?options [] ([], st) s = Some (r0, s')"
    and r0: "Inr (log, st') = map_sum id snd r0"
    by (rule ForEachService_at_Some)
  from r0 obtain seen where s0: "r0 = Inr (seen, (log, st'))" by (cases r0) auto
  have g0: "gomap ?m0"
    using g by (simp add: theProject_Services gomap_def comp_def case_prod_beta)
  from withServices_onValues[OF m cl lt g0 unchanged_refl w[unfolded s0]]
  have v: "withServices ?P names (recording (onValues ?m0 fn)) {} ?options [] ([], [], st, s) =
             Inr (seen, pack log st' s')"
    by (simp add: pack_def onValuesResult_def)
  have fe: "ForEachService ?P names (recording (onValues ?m0 fn)) options ([], [], st, s) =
              Inr (?vlog, map (\<lambda>(n, a, d, v). a) log, st', s')"
    using v by (simp add: ForEachService_unfold pack_def)
  note rec = ForEachService_recorded[OF g fe]
  have names: "map fst ?vlog = map fst log" by (simp add: comp_def case_prod_beta)
  have e: "edges ?P options = walkEdges ?P options" by (rule edges_walkEdges[OF g nm])
  show "distinct (map fst log)" using rec(1) unfolding names .
  show "set (map fst log) = reach ?P names options"
    using rec(2) unfolding names closure_reach[OF g nm] .
  show "\<forall>(n, a, d, v) \<in> set log. map_of (Services ?P) n = Some v"
    using rec(3) by (auto simp: entries_def)
  show "copiesNew s log" by (rule walk_copiesNew[OF m w[unfolded s0]])
  show "before (map fst log) y x"
    if "acyclic (walkEdges ?P options)" "x \<in> set (map fst log)" "(x, y) \<in> (walkEdges ?P options)\<^sup>+"
    using rec(4)[of x y] that unfolding names e by simp
qed

lemma demoStore_project:
  "theProject demoStore 2 =
     mkProject [(''web'', mkService ''web'' [] [(''db'', required)]), (''db'', mkService ''db'' [] [])] []"
  by code_simp

lemma demoStore_dependsOn: "dependsOn (theProject demoStore 2) = {(''web'', ''db'')}"
  unfolding demoStore_project
  by (auto simp: dependsOn_def mkProject_def mkService_def keys_def required_def split: if_splits)

lemma demoStore_walkEdges:
  "walkEdges (theProject demoStore 2) [] = {(''web'', ''db'')}"
  "walkEdges (theProject demoStore 2) [IncludeDependents] = {(''db'', ''web'')}"
  by (auto simp: walkEdges_def policyFor_def demoStore_dependsOn)

text \<open>
  C5. \<open>ForEachService\<close> on the store, with a visitor that changes nothing but the
  struct it is handed and the \<open>DependsOn\<close> map of that struct. The call returns when
  the bound of the walk exceeds the number of enabled services. Whatever it returns,
  every object that the store held is as it was, so the project at the receiver's
  address is the project it was: what the visitor does to its argument does not reach
  the stored services. When the call succeeds, the visitor was called exactly once for
  each service that the requested names reach and for nothing else; each time the
  struct behind the pointer was equal to the service that the project holds under that
  name; the pointer and the \<open>DependsOn\<close> map of the struct were addresses that the
  store did not have, and no two calls got the same pointer. When the graph of the
  policy has no cycle, every service that a visited service reaches over one or more
  edges was visited before it: the dependencies of a service under
  \<open>IncludeDependencies\<close>, its dependents under \<open>IncludeDependents\<close>.
\<close>

theorem ForEachService_visits:
  fixes fn :: "'st ServiceFunc_at"
  assumes "closed s" and "p < nextAddr s"
    and "gomap (Services (theProject s p))"
    and "policyFor options = includeDependents \<longrightarrow> namesMatch (theProject s p)"
    and "mutatesArgumentOnly fn"
  shows "(length (Services (theProject s p)) < fuel \<longrightarrow>
            ForEachService_at fuel p names (recording_at fn) options ([], st) s \<noteq> None) \<and>
         (\<forall>r s'. ForEachService_at fuel p names (recording_at fn) options ([], st) s = Some (r, s') \<longrightarrow>
            unchanged s s' \<and> theProject s' p = theProject s p \<and>
            (\<forall>log st'. r = Inr (log, st') \<longrightarrow>
               distinct (map fst log) \<and>
               set (map fst log) = reach (theProject s p) names options \<and>
               (\<forall>(n, a, d, v) \<in> set log. map_of (Services (theProject s p)) n = Some v) \<and>
               copiesNew s log \<and>
               (acyclic (walkEdges (theProject s p) options) \<longrightarrow>
                  (\<forall>x \<in> set (map fst log). \<forall>y. (x, y) \<in> (walkEdges (theProject s p) options)\<^sup>+ \<longrightarrow>
                     before (map fst log) y x))))"
proof (intro conjI impI allI)
  show "ForEachService_at fuel p names (recording_at fn) options ([], st) s \<noteq> None"
    if "length (Services (theProject s p)) < fuel"
    using assms(1,2,5) that by (rule ForEachService_at_returns)
next
  fix r s'
  assume run: "ForEachService_at fuel p names (recording_at fn) options ([], st) s = Some (r, s')"
  then obtain r0 where
    w: "withServices_at fuel p names (recording_at fn) {}
          (if length options = 0 then [IncludeDependencies] else options) [] ([], st) s = Some (r0, s')"
    by (rule ForEachService_at_Some)
  show u: "unchanged s s'" by (rule walk_unchanged[OF assms(5) unchanged_refl w])
  show "theProject s' p = theProject s p" by (rule unchanged_theProject(1)[OF assms(1,2) u])
  fix log st'
  assume "r = Inr (log, st')"
  note rec = ForEachService_at_recorded[OF assms run[unfolded this]]
  show "distinct (map fst log)" by (rule rec(1))
  show "set (map fst log) = reach (theProject s p) names options" by (rule rec(2))
  show "\<forall>(n, a, d, v) \<in> set log. map_of (Services (theProject s p)) n = Some v" by (rule rec(3))
  show "copiesNew s log" by (rule rec(4))
  show "\<forall>x \<in> set (map fst log). \<forall>y. (x, y) \<in> (walkEdges (theProject s p) options)\<^sup>+ \<longrightarrow>
           before (map fst log) y x"
    if "acyclic (walkEdges (theProject s p) options)"
    using rec(5)[OF that] by blast
qed

theorem ForEachService_visits_witness:
  "closed demoStore \<and> 2 < nextAddr demoStore \<and> gomap (Services (theProject demoStore 2)) \<and>
   namesMatch (theProject demoStore 2) \<and> mutatesArgumentOnly scribble \<and>
   acyclic (walkEdges (theProject demoStore 2) []) \<and>
   map_option (\<lambda>(r, s'). (map_sum id (map (\<lambda>(n, a, d, v). (n, a, d)) \<circ> fst) r,
                          theService s' (serviceOf s' 5)))
     (ForEachService_at 3 2 [''web''] (recording_at scribble) [] ([], ()) demoStore) =
     Some (Inr [(''db'', 3, None), (''web'', 5, Some 4)], (mkService ''web'' [] [])\<lparr>sImage := ''scratch''\<rparr>) \<and>
   map_option (\<lambda>(r, s'). theProject s' 2)
     (ForEachService_at 3 2 [''web''] (recording_at scribble) [] ([], ()) demoStore) =
     Some (theProject demoStore 2) \<and>
   reach (theProject demoStore 2) [''web''] [] = {''db'', ''web''} \<and>
   before [''db'', ''web''] ''db'' ''web'' \<and>
   map_option (map_sum id (map (\<lambda>(n, a, d, v). (n, a, d)) \<circ> fst) \<circ> fst)
     (ForEachService_at 3 2 [''db''] (recording_at scribble) [IncludeDependents] ([], ()) demoStore) =
     Some (Inr [(''web'', 4, Some 3), (''db'', 5, None)]) \<and>
   reach (theProject demoStore 2) [''db''] [IncludeDependents] = {''web'', ''db''}"
proof -
  let ?P = "theProject demoStore 2"
  let ?run1 = "ForEachService_at 3 2 [''web''] (recording_at scribble) [] ([], ()) demoStore"
  let ?run2 = "ForEachService_at 3 2 [''db''] (recording_at scribble) [IncludeDependents] ([], ()) demoStore"
  have lt: "2 < nextAddr demoStore" by (simp add: demoStore_def)
  have g: "gomap (Services ?P)" unfolding demoStore_project by (simp add: gomap_def mkProject_def)
  have nm: "namesMatch ?P"
    unfolding demoStore_project by (simp add: namesMatch_def mkProject_def mkService_def)
  have ac: "acyclic (walkEdges ?P [])"
    unfolding demoStore_walkEdges by (rule acyclic_rank[where f = "\<lambda>x. if x = ''web'' then 1 else 0"]) auto
  have f: "length (Services ?P) < 3" unfolding demoStore_project by (simp add: mkProject_def)
  have ev1: "map_option (\<lambda>(r, s'). (map_sum id (map (\<lambda>(n, a, d, v). (n, a, d)) \<circ> fst) r,
                          theService s' (serviceOf s' 5))) ?run1 =
     Some (Inr [(''db'', 3, None), (''web'', 5, Some 4)], (mkService ''web'' [] [])\<lparr>sImage := ''scratch''\<rparr>)"
    by code_simp
  have ev2: "map_option (map_sum id (map (\<lambda>(n, a, d, v). (n, a, d)) \<circ> fst) \<circ> fst) ?run2 =
     Some (Inr [(''web'', 4, Some 3), (''db'', 5, None)])"
    by code_simp
  note T1 = ForEachService_visits[OF demoStore_closed lt g _ mutatesArgumentOnly_scribble,
              where options = "[]" and names = "[''web'']" and fuel = 3 and st = "()"]
  note T2 = ForEachService_visits[OF demoStore_closed lt g _ mutatesArgumentOnly_scribble,
              where options = "[IncludeDependents]" and names = "[''db'']" and fuel = 3 and st = "()"]
  have p1: "policyFor [] = includeDependents \<longrightarrow> namesMatch ?P" using nm by simp
  have p2: "policyFor [IncludeDependents] = includeDependents \<longrightarrow> namesMatch ?P" using nm by simp
  from T1[OF p1, THEN conjunct1] f obtain r1 s1 where run1: "?run1 = Some (r1, s1)" by auto
  from ev1[unfolded run1] obtain log1 where r1: "r1 = Inr (log1, ())"
    and l1: "map (\<lambda>(n, a, d, v). (n, a, d)) log1 = [(''db'', 3, None), (''web'', 5, Some 4)]"
    by (cases r1) auto
  have n1: "map fst log1 = [''db'', ''web'']"
  proof -
    have "map fst log1 = map fst (map (\<lambda>(n, a, d, v). (n, a, d)) log1)"
      by (simp add: comp_def case_prod_beta)
    then show ?thesis unfolding l1 by simp
  qed
  note C1 = T1[OF p1, THEN conjunct2, rule_format, OF run1]
  have k1: "theProject s1 2 = ?P" using C1 by (rule conjunct2[THEN conjunct1])
  note D1 = C1[THEN conjunct2, THEN conjunct2, rule_format, OF r1]
  have c1: "reach ?P [''web''] [] = {''db'', ''web''}"
    using D1[THEN conjunct2, THEN conjunct1] unfolding n1 by simp
  have wd: "(''web'', ''db'') \<in> (walkEdges ?P [])\<^sup>+" unfolding demoStore_walkEdges by (rule r_into_trancl) simp
  have b1: "before [''db'', ''web''] ''db'' ''web''"
    using D1[THEN conjunct2, THEN conjunct2, THEN conjunct2, THEN conjunct2, rule_format, OF ac _ wd]
    unfolding n1 by simp
  have e1: "map_option (\<lambda>(r, s'). theProject s' 2) ?run1 = Some ?P" unfolding run1 using k1 by simp
  from T2[OF p2, THEN conjunct1] f obtain r2 s2 where run2: "?run2 = Some (r2, s2)" by auto
  from ev2[unfolded run2] obtain log2 where r2: "r2 = Inr (log2, ())"
    and l2: "map (\<lambda>(n, a, d, v). (n, a, d)) log2 = [(''web'', 4, Some 3), (''db'', 5, None)]"
    by (cases r2) auto
  have n2: "map fst log2 = [''web'', ''db'']"
  proof -
    have "map fst log2 = map fst (map (\<lambda>(n, a, d, v). (n, a, d)) log2)"
      by (simp add: comp_def case_prod_beta)
    then show ?thesis unfolding l2 by simp
  qed
  note D2 = T2[OF p2, THEN conjunct2, rule_format, OF run2, THEN conjunct2, THEN conjunct2, rule_format, OF r2]
  have c2: "reach ?P [''db''] [IncludeDependents] = {''web'', ''db''}"
    using D2[THEN conjunct2, THEN conjunct1] unfolding n2 by simp
  show ?thesis
    using demoStore_closed lt g nm mutatesArgumentOnly_scribble ac ev1 e1 c1 b1 ev2 c2
    by (intro conjI)
qed

text \<open>
  In a cycle the order fails: \<open>b\<close> depends on \<open>a\<close>, and the walk from \<open>a\<close> visits
  \<open>b\<close> first.
\<close>

theorem ForEachService_cycle_counterexample:
  "map_sum id (map fst \<circ> fst) (ForEachService ring [''a''] (recording noop) [] ([], ())) =
     Inr [''b'', ''a''] \<and>
   (''b'', ''a'') \<in> dependsOn ring \<and> \<not> before [''b'', ''a''] ''a'' ''b''"
  by (simp add: eval_walk ring_def dependsOn_def keys_def before_def)

subsection \<open>Path resolution\<close>

text \<open>
  C10. \<open>RelativePath\<close> on the empty path: the index expression \<open>path[0]\<close> is out of
  range, so the call panics instead of returning a path.
\<close>

theorem RelativePath_empty_panics:
  "RelativePath home Join IsAbs p [] = Inl IndexOutOfRange"
  by (simp add: RelativePath_def)

end
